(* ===== verification/Cn_Prelude.thy ===== *)
theory Cn_Prelude
  imports Main "HOL-Library.Word"
begin

text \<open>
  The shared base of the development: the machine types of the sources (\<open>uint8_t\<close>,
  \<open>uint32_t\<close>, \<open>uint64_t\<close> and byte strings), the collection \<open>unat_rules\<close> of facts that
  read word operations as operations on naturals, and the bit-level lemmas that the
  components use for masks, shifts and byte order.
\<close>

unbundle bit_operations_syntax

type_synonym u8 = "8 word"
type_synonym u16 = "16 word"
type_synonym u32 = "32 word"
type_synonym u64 = "64 word"
type_synonym blob = "u8 list"

named_theorems unat_rules \<open>word operations read as operations on natural numbers\<close>

subsection \<open>Ranges\<close>

lemma unat_less_u64: "unat (x :: u64) < 18446744073709551616"
  using unsigned_less [of x, where ?'a = nat] by simp

lemma unat_less_u32: "unat (x :: u32) < 4294967296"
  using unsigned_less [of x, where ?'a = nat] by simp

lemma unat_less_u8: "unat (x :: u8) < 256"
  using unsigned_less [of x, where ?'a = nat] by simp

lemma of_nat_u64_mod: "of_nat (n mod 18446744073709551616) = (of_nat n :: u64)"
  by (simp add: word_unat_eq_iff unat_of_nat)

lemma unat_of_int_u64:
  "0 \<le> i \<Longrightarrow> i < 18446744073709551616 \<Longrightarrow> unat (word_of_int i :: u64) = nat i"
  by (simp add: unat_eq_nat_uint uint_word_of_int)

lemma unat_of_nat_u64: "n < 18446744073709551616 \<Longrightarrow> unat (of_nat n :: u64) = n"
  by (simp add: unat_of_nat)

subsection \<open>Arithmetic without wrap-around\<close>

lemma unat_add_noov [unat_rules]:
  "unat a + unat b < 18446744073709551616 \<Longrightarrow> unat (a + b :: u64) = unat a + unat b"
  using unat_add_lem [of a b] by simp

lemma unat_mult_noov [unat_rules]:
  "unat a * unat b < 18446744073709551616 \<Longrightarrow> unat (a * b :: u64) = unat a * unat b"
  using unat_mult_lem [of a b] by simp

lemma unat_sub_noov [unat_rules]:
  "b \<le> a \<Longrightarrow> unat (a - b :: u64) = unat a - unat b"
  by (simp add: unat_sub_if' word_le_nat_alt)

text \<open>The carry test of the sources: a 64-bit sum wrapped exactly when it is below an addend.\<close>

lemma unat_add_carry:
  "unat (a + b :: u64) + 18446744073709551616 * (if a + b < a then 1 else 0) = unat a + unat b"
proof -
  have "unat (a + b) = (if unat a + unat b < 18446744073709551616 then unat a + unat b
      else unat a + unat b - 18446744073709551616)"
    using unat_plus_if' [of a b] by simp
  then show ?thesis using unat_less_u64 [of b] by (auto simp: word_less_nat_alt split: if_splits)
qed

lemma add_wraps_iff: "(a + b :: u64) < a \<longleftrightarrow> 18446744073709551616 \<le> unat a + unat b"
  using unat_add_carry [of a b] unat_less_u64 [of "a + b"] by (auto split: if_splits)

subsection \<open>Shifts, masks and casts\<close>

lemma unat_drop_bit [unat_rules]: "unat (drop_bit n x) = unat x div 2 ^ n"
  by (metis drop_bit_eq_div unat_drop_bit_eq)

lemma unat_and_mask [unat_rules]: "unat (x AND mask n :: 'a::len word) = unat x mod 2 ^ n"
  by (metis take_bit_eq_mask take_bit_eq_mod unsigned_take_bit_eq)

lemma unat_push_bit_u64:
  "unat (push_bit n (x :: u64)) = unat x * 2 ^ n mod 18446744073709551616"
proof -
  have "unat (push_bit n x) = take_bit 64 (push_bit n (unat x))"
    by (simp add: unsigned_push_bit_eq)
  then show ?thesis by (simp add: push_bit_eq_mult take_bit_eq_mod)
qed

lemma unat_ucast_u32_u64 [unat_rules]: "unat (ucast (x :: u32) :: u64) = unat x"
  by (simp add: unsigned_ucast_eq take_bit_nat_eq_self_iff less_trans [OF unat_less_u32])

lemma unat_ucast_u8_u64 [unat_rules]: "unat (ucast (x :: u8) :: u64) = unat x"
  by (simp add: unsigned_ucast_eq take_bit_nat_eq_self_iff less_trans [OF unat_less_u8])

lemma unat_ucast_u64_u32: "unat (ucast (x :: u64) :: u32) = unat x mod 4294967296"
  by (simp add: unsigned_ucast_eq take_bit_eq_mod)

lemma unat_ucast_u64_u8: "unat (ucast (x :: u64) :: u8) = unat x mod 256"
  by (simp add: unsigned_ucast_eq take_bit_eq_mod)

lemma word_or_eq_add: "a AND b = 0 \<Longrightarrow> a OR b = a + (b :: 'a::len word)"
  by (simp add: disjunctive_add_eq_or)

lemma push_bit_and_low: "unat (b :: 'a::len word) < 2 ^ n \<Longrightarrow> push_bit n a AND b = 0"
proof (rule bit_word_eqI)
  fix i assume "unat b < 2 ^ n" and "i < LENGTH('a)"
  then have "take_bit n b = b"
    by (metis mod_less take_bit_eq_mod unsigned_take_bit_eq word_unat_eq_iff)
  then have "bit b i \<Longrightarrow> i < n" by (metis bit_take_bit_iff)
  then show "bit (push_bit n a AND b) i = bit (0 :: 'a word) i"
    by (auto simp: bit_and_iff bit_push_bit_iff)
qed

text \<open>Two disjoint fields side by side: the shifted upper part plus the lower part.\<close>

lemma unat_push_or:
  assumes "unat lo < 2 ^ n" and "unat hi * 2 ^ n + unat lo < 18446744073709551616"
  shows "unat (push_bit n hi OR lo :: u64) = unat hi * 2 ^ n + unat lo"
proof -
  have "push_bit n hi AND lo = 0" using assms(1) by (rule push_bit_and_low)
  then have "push_bit n hi OR lo = push_bit n hi + lo" by (rule word_or_eq_add)
  moreover have "unat (push_bit n hi) = unat hi * 2 ^ n"
    using assms(2) by (simp add: unat_push_bit_u64)
  ultimately show ?thesis using assms by (simp add: unat_rules)
qed

subsection \<open>The bytes of a 64-bit word\<close>

text \<open>
  \<open>byte_at i x\<close> is the byte at offset \<open>i\<close> of the object representation of \<open>x\<close> on the
  little-endian targets of the program.
\<close>

definition byte_at :: "nat \<Rightarrow> u64 \<Rightarrow> u8" where
  "byte_at i x = ucast (drop_bit (8 * i) x)"

definition le_bytes :: "u64 \<Rightarrow> blob" where
  "le_bytes x = map (\<lambda>i. byte_at i x) [0, 1, 2, 3, 4, 5, 6, 7]"

lemma length_le_bytes [simp]: "length (le_bytes x) = 8"
  by (simp add: le_bytes_def)

lemma unat_byte_at: "unat (byte_at i x) = unat x div 256 ^ i mod 256"
  by (simp add: byte_at_def unat_ucast_u64_u8 unat_rules power_mult)

lemma byte_at_eqI:
  assumes "\<And>i. i < 8 \<Longrightarrow> byte_at i x = byte_at i y"
  shows "x = y"
proof (rule bit_word_eqI)
  fix n assume "n < LENGTH(64)"
  then have i: "n div 8 < 8" by simp
  have "bit (byte_at (n div 8) z) (n mod 8) = bit z n" for z
    by (simp add: byte_at_def bit_simps)
  then show "bit x n = bit y n" using assms [OF i] by metis
qed

text \<open>Eight bytes read back as a little-endian word.\<close>

definition le_word :: "blob \<Rightarrow> u64" where
  "le_word bs = foldr (\<lambda>b acc. push_bit 8 acc OR ucast b) bs 0"

lemma le_word_simps [simp]:
  "le_word [] = 0"
  "le_word (b # bs) = push_bit 8 (le_word bs) OR ucast b"
  by (simp_all add: le_word_def)

end
