(* ===== verification/Int_Util.thy ===== *)
theory Int_Util
  imports Cn_Prelude
begin

text \<open>
  The integer helpers of \<open>common/int-util.h\<close>: rotations, the 64 by 64 to 128 bit product,
  the 128 by 32 bit long division and the byte swaps. A division by zero, which traps in
  the program, is the value \<open>None\<close>.
\<close>

subsection \<open>Definitions\<close>

definition rol32 :: "u32 \<Rightarrow> int \<Rightarrow> u32" where
  "rol32 x r = push_bit (nat (r AND 31)) x OR drop_bit (nat (- r AND 31)) x"

definition rol64 :: "u64 \<Rightarrow> int \<Rightarrow> u64" where
  "rol64 x r = push_bit (nat (r AND 63)) x OR drop_bit (nat (- r AND 63)) x"

definition hi_dword :: "u64 \<Rightarrow> u64" where
  "hi_dword val = drop_bit 32 val"

definition lo_dword :: "u64 \<Rightarrow> u64" where
  "lo_dword val = val AND 0xFFFFFFFF"

text \<open>\<open>mul128\<close> returns the low word and, in place of the out-parameter, the high word.\<close>

definition mul128 :: "u64 \<Rightarrow> u64 \<Rightarrow> u64 \<times> u64" where
  "mul128 multiplier multiplicand =
     (let a = hi_dword multiplier; b = lo_dword multiplier;
          c = hi_dword multiplicand; d = lo_dword multiplicand;
          ac = a * c; ad = a * d; bc = b * c; bd = b * d;
          adbc = ad + bc;
          adbc_carry = (if adbc < ad then 1 else 0);
          product_lo = bd + push_bit 32 adbc;
          product_lo_carry = (if product_lo < bd then 1 else 0);
          product_hi = ac + drop_bit 32 adbc + push_bit 32 adbc_carry + product_lo_carry
      in (product_lo, product_hi))"

text \<open>The result is the quotient and the new value of \<open>*remainder\<close>.\<close>

definition div_with_reminder :: "u64 \<Rightarrow> u32 \<Rightarrow> u32 \<Rightarrow> (u64 \<times> u32) option" where
  "div_with_reminder dividend divisor remainder =
     (if divisor = 0 then None
      else let dividend = dividend OR push_bit 32 (ucast remainder)
           in Some (dividend div ucast divisor, ucast (dividend mod ucast divisor)))"

text \<open>The result is the remainder, then \<open>*quotient_hi\<close> and \<open>*quotient_lo\<close>.\<close>

definition div128_32 :: "u64 \<Rightarrow> u64 \<Rightarrow> u32 \<Rightarrow> (u32 \<times> u64 \<times> u64) option" where
  "div128_32 dividend_hi dividend_lo divisor =
     (case div_with_reminder (hi_dword dividend_hi) divisor 0 of None \<Rightarrow> None
      | Some (q3, r3) \<Rightarrow>
     (case div_with_reminder (lo_dword dividend_hi) divisor r3 of None \<Rightarrow> None
      | Some (q2, r2) \<Rightarrow>
     (case div_with_reminder (hi_dword dividend_lo) divisor r2 of None \<Rightarrow> None
      | Some (q1, r1) \<Rightarrow>
     (case div_with_reminder (lo_dword dividend_lo) divisor r1 of None \<Rightarrow> None
      | Some (q0, r0) \<Rightarrow> Some (r0, push_bit 32 q3 OR q2, push_bit 32 q1 OR q0)))))"

definition SWAP64 :: "u64 \<Rightarrow> u64" where
  "SWAP64 x =
     push_bit 56 (x AND 0x00000000000000ff) OR
     push_bit 40 (x AND 0x000000000000ff00) OR
     push_bit 24 (x AND 0x0000000000ff0000) OR
     push_bit  8 (x AND 0x00000000ff000000) OR
     drop_bit  8 (x AND 0x000000ff00000000) OR
     drop_bit 24 (x AND 0x0000ff0000000000) OR
     drop_bit 40 (x AND 0x00ff000000000000) OR
     drop_bit 56 (x AND 0xff00000000000000)"

definition swap64 :: "u64 \<Rightarrow> u64" where
  "swap64 x =
     (let x = push_bit  8 (x AND 0x00ff00ff00ff00ff) OR drop_bit  8 (x AND 0xff00ff00ff00ff00);
          x = push_bit 16 (x AND 0x0000ffff0000ffff) OR drop_bit 16 (x AND 0xffff0000ffff0000)
      in push_bit 32 x OR drop_bit 32 x)"

text \<open>On the little-endian targets \<open>swap64le\<close> is \<open>ident64\<close>.\<close>

definition ident64 :: "u64 \<Rightarrow> u64" where
  "ident64 x = x"

subsection \<open>Rotations\<close>

lemma rot_word_eq:
  fixes x :: "'a::len word"
  assumes "0 \<le> r" and "r < int LENGTH('a)"
  shows "push_bit (nat r) x OR drop_bit (nat (- r mod int LENGTH('a))) x = word_rotl (nat r) x"
proof (cases "r = 0")
  case False
  with assms have "- r mod int LENGTH('a) = int LENGTH('a) - r"
    by (simp add: zmod_zminus1_eq_if)
  then have n: "nat (- r mod int LENGTH('a)) = LENGTH('a) - nat r"
    using assms by simp
  show ?thesis unfolding n
  proof (rule bit_word_eqI)
    fix i assume i: "i < LENGTH('a)"
    show "bit (push_bit (nat r) x OR drop_bit (LENGTH('a) - nat r) x) i = bit (word_rotl (nat r) x) i"
    proof (cases "i < nat r")
      case True
      then have "(i + (LENGTH('a) - nat r mod LENGTH('a))) mod LENGTH('a) = LENGTH('a) - nat r + i"
        using assms i False by simp
      with True i assms show ?thesis by (auto simp: bit_simps)
    next
      case F: False
      have m: "(i + (LENGTH('a) - nat r mod LENGTH('a))) mod LENGTH('a) = i - nat r"
      proof -
        have "i + (LENGTH('a) - nat r mod LENGTH('a)) = LENGTH('a) + (i - nat r)"
          using assms F by simp
        then show ?thesis using i by simp
      qed
      have "\<not> bit x (LENGTH('a) + i - nat r)" using F by (auto dest: bit_imp_le_length)
      with m F i assms show ?thesis by (auto simp: bit_simps)
    qed
  qed
qed (auto intro!: bit_word_eqI simp: bit_simps)

lemma int_and_63: "(r :: int) AND 63 = r mod 64"
  using take_bit_eq_mask [of 6 r] by (simp add: take_bit_eq_mod mask_eq_exp_minus_1)

lemma int_and_31: "(r :: int) AND 31 = r mod 32"
  using take_bit_eq_mask [of 5 r] by (simp add: take_bit_eq_mod mask_eq_exp_minus_1)

lemma rol64_rotl: "rol64 x r = word_rotl (nat (r mod 64)) x"
  using rot_word_eq [of "r mod 64" x] by (simp add: rol64_def int_and_63 mod_minus_eq)

lemma rol32_rotl: "rol32 x r = word_rotl (nat (r mod 32)) x"
  using rot_word_eq [of "r mod 32" x] by (simp add: rol32_def int_and_31 mod_minus_eq)

subsection \<open>The double-width product\<close>

lemma unat_hi_dword [unat_rules]: "unat (hi_dword x) = unat x div 4294967296"
  by (simp add: hi_dword_def unat_rules)

lemma unat_lo_dword [unat_rules]: "unat (lo_dword x) = unat x mod 4294967296"
proof -
  have m: "(0xFFFFFFFF :: u64) = mask 32" by (simp add: mask_eq_exp_minus_1)
  show ?thesis unfolding lo_dword_def m unat_and_mask by simp
qed

lemma mul_dword_bound:
  fixes a b :: nat
  assumes "a < 4294967296" and "b < 4294967296"
  shows "a * b \<le> 18446744065119617025"
proof -
  have "a * b \<le> 4294967295 * 4294967295" using assms by (intro mult_le_mono) auto
  then show ?thesis by simp
qed

text \<open>
  The contract of a 64 by 64 bit multiplication: low and high word together are the exact
  product. The sources have two implementations, \<open>mul128\<close> and the portable \<open>mul\<close> of the
  proof-of-work check; what their clients use of them is proved here once.
\<close>

locale wide_mul =
  fixes mul :: "u64 \<Rightarrow> u64 \<Rightarrow> u64 \<times> u64"
  assumes mul_value:
    "unat (fst (mul x y)) + 18446744073709551616 * unat (snd (mul x y)) = unat x * unat y"
begin

lemma mul_high_zero: "snd (mul x y) = 0 \<longleftrightarrow> unat x * unat y < 18446744073709551616"
  using mul_value [of x y] unat_less_u64 [of "fst (mul x y)"] by (auto simp: word_unat_eq_iff)

lemma mul_low: "unat (fst (mul x y)) = unat x * unat y mod 18446744073709551616"
  using unat_less_u64 [of "fst (mul x y)"] by (simp flip: mul_value)

lemma mul_high: "unat (snd (mul x y)) = unat x * unat y div 18446744073709551616"
  using unat_less_u64 [of "fst (mul x y)"] by (simp flip: mul_value)

lemma mul_low_exact:
  "snd (mul x y) = 0 \<Longrightarrow> unat (fst (mul x y)) = unat x * unat y"
  using mul_value [of x y] by simp

end

lemma mul128_value:
  "unat (fst (mul128 x y)) + 18446744073709551616 * unat (snd (mul128 x y)) = unat x * unat y"
proof -
  define a b c d where abcd: "a = unat x div 4294967296" "b = unat x mod 4294967296"
    "c = unat y div 4294967296" "d = unat y mod 4294967296"
  have lt: "a < 4294967296" "b < 4294967296" "c < 4294967296" "d < 4294967296"
    using unat_less_u64 [of x] unat_less_u64 [of y] by (auto simp: abcd)
  note bnd = mul_dword_bound [OF lt(1) lt(3)] mul_dword_bound [OF lt(1) lt(4)]
    mul_dword_bound [OF lt(2) lt(3)] mul_dword_bound [OF lt(2) lt(4)]
  define ac ad bc bd where wds: "ac = hi_dword x * hi_dword y" "ad = hi_dword x * lo_dword y"
    "bc = lo_dword x * hi_dword y" "bd = lo_dword x * lo_dword y"
  have u: "unat ac = a * c" "unat ad = a * d" "unat bc = b * c" "unat bd = b * d"
    using bnd by (simp_all add: wds unat_rules abcd)
  define adbc where adbc: "adbc = ad + bc"
  define cy :: u64 where cy: "cy = (if adbc < ad then 1 else 0)"
  have s1: "unat adbc + 18446744073709551616 * unat cy = a * d + b * c"
    using unat_add_carry [of ad bc] by (simp add: cy adbc u split: if_splits)
  define lo where lo: "lo = bd + push_bit 32 adbc"
  define cl :: u64 where cl: "cl = (if lo < bd then 1 else 0)"
  have pb: "unat (push_bit 32 adbc) = (unat adbc mod 4294967296) * 4294967296"
    using mod_mult_mult2 [of "unat adbc" 4294967296 4294967296] by (simp add: unat_push_bit_u64)
  have s2: "unat lo + 18446744073709551616 * unat cl = b * d + (unat adbc mod 4294967296) * 4294967296"
    using unat_add_carry [of bd "push_bit 32 adbc"] by (simp add: cl lo u pb split: if_splits)
  have "unat cy \<le> 1" by (auto simp: cy)
  then have pc: "unat (push_bit 32 cy) = unat cy * 4294967296" by (simp add: unat_push_bit_u64)
  have dv: "unat (drop_bit 32 adbc) = unat adbc div 4294967296" by (simp add: unat_rules)
  have xy: "unat x * unat y =
      a * c * 18446744073709551616 + (a * d + b * c) * 4294967296 + b * d"
  proof -
    have "unat x = a * 4294967296 + b" "unat y = c * 4294967296 + d" by (simp_all add: abcd)
    then show ?thesis by (simp add: algebra_simps)
  qed
  define hi where "hi = a * c + unat adbc div 4294967296 + unat cy * 4294967296 + unat cl"
  have sum: "unat x * unat y = unat lo + 18446744073709551616 * hi"
  proof -
    obtain e f where ef: "unat adbc div 4294967296 = e" "unat adbc mod 4294967296 = f" by blast
    have "unat adbc = e * 4294967296 + f"
      using div_mult_mod_eq [of "unat adbc" 4294967296] ef by simp
    then show ?thesis using s2 unfolding xy s1 [symmetric] hi_def ef by simp
  qed
  have "unat x * unat y < 18446744073709551616 * 18446744073709551616"
    by (intro mult_strict_mono unat_less_u64) auto
  with sum have "hi < 18446744073709551616" by simp
  then have "unat (ac + drop_bit 32 adbc + push_bit 32 cy + cl) = hi"
    by (simp add: unat_rules u pc dv hi_def)
  moreover have "mul128 x y = (lo, ac + drop_bit 32 adbc + push_bit 32 cy + cl)"
    by (simp add: mul128_def Let_def wds adbc cy lo cl)
  ultimately show ?thesis using sum by simp
qed

interpretation m128: wide_mul mul128
  by unfold_locales (rule mul128_value)

subsection \<open>The long division\<close>

lemma unat_dword_pair:
  assumes "unat hi < 4294967296" and "unat lo < 4294967296"
  shows "unat (push_bit 32 hi OR lo :: u64) = unat hi * 4294967296 + unat lo"
  using unat_push_or [of lo 32 hi] assms by simp

lemma div_with_reminder_step:
  assumes "unat dividend < 4294967296" and "remainder < divisor"
  obtains q r where "div_with_reminder dividend divisor remainder = Some (q, r)"
    and "unat remainder * 4294967296 + unat dividend = unat q * unat divisor + unat r"
    and "r < divisor" and "unat q < 4294967296"
proof -
  define n where "n = unat remainder * 4294967296 + unat dividend"
  have nz: "divisor \<noteq> 0" using assms(2) by auto
  have rd: "unat remainder < unat divisor" using assms(2) by (simp add: word_less_nat_alt)
  have "unat (dividend OR push_bit 32 (ucast remainder :: u64)) = n"
    using unat_dword_pair [of "ucast remainder" dividend] assms(1) unat_less_u32 [of remainder]
    by (simp add: or.commute unat_rules n_def)
  then have q: "unat ((dividend OR push_bit 32 (ucast remainder)) div ucast divisor :: u64) = n div unat divisor"
    and r: "unat ((dividend OR push_bit 32 (ucast remainder)) mod ucast divisor :: u64) = n mod unat divisor"
    by (simp_all add: unat_div unat_mod unat_rules)
  have md: "n mod unat divisor < unat divisor" using rd by simp
  then have r': "unat (ucast ((dividend OR push_bit 32 (ucast remainder)) mod ucast divisor :: u64) :: u32) = n mod unat divisor"
    using r unat_less_u32 [of divisor] by (simp add: unat_ucast_u64_u32)
  have "n < unat divisor * 4294967296"
    using rd assms(1) mult_le_mono1 [of "Suc (unat remainder)" "unat divisor" 4294967296]
    by (simp add: n_def)
  then have "n div unat divisor < 4294967296" by (simp add: less_mult_imp_div_less mult.commute)
  with that [of "(dividend OR push_bit 32 (ucast remainder)) div ucast divisor"
      "ucast ((dividend OR push_bit 32 (ucast remainder)) mod ucast divisor :: u64)"] q r' md nz
  show ?thesis by (simp add: div_with_reminder_def Let_def word_less_nat_alt flip: n_def)
qed

lemma div128_32_steps:
  assumes "divisor \<noteq> 0"
  obtains r qh ql where "div128_32 hi lo divisor = Some (r, qh, ql)"
    and "unat hi * 18446744073709551616 + unat lo =
       (unat qh * 18446744073709551616 + unat ql) * unat divisor + unat r"
    and "r < divisor"
proof -
  have z: "0 < divisor" using assms by (simp add: word_neq_0_conv)
  have lt: "unat (hi_dword x) < 4294967296" "unat (lo_dword x) < 4294967296" for x
    using unat_less_u64 [of x] by (auto simp: unat_rules)
  obtain q3 r3 where 3: "div_with_reminder (hi_dword hi) divisor 0 = Some (q3, r3)"
    "unat (0 :: u32) * 4294967296 + unat (hi_dword hi) = unat q3 * unat divisor + unat r3" "r3 < divisor"
    "unat q3 < 4294967296"
    by (rule div_with_reminder_step [OF lt(1) z])
  obtain q2 r2 where 2: "div_with_reminder (lo_dword hi) divisor r3 = Some (q2, r2)"
    "unat r3 * 4294967296 + unat (lo_dword hi) = unat q2 * unat divisor + unat r2" "r2 < divisor"
    "unat q2 < 4294967296"
    by (rule div_with_reminder_step [OF lt(2) 3(3)])
  obtain q1 r1 where 1: "div_with_reminder (hi_dword lo) divisor r2 = Some (q1, r1)"
    "unat r2 * 4294967296 + unat (hi_dword lo) = unat q1 * unat divisor + unat r1" "r1 < divisor"
    "unat q1 < 4294967296"
    by (rule div_with_reminder_step [OF lt(1) 2(3)])
  obtain q0 r0 where 0: "div_with_reminder (lo_dword lo) divisor r1 = Some (q0, r0)"
    "unat r1 * 4294967296 + unat (lo_dword lo) = unat q0 * unat divisor + unat r0" "r0 < divisor"
    "unat q0 < 4294967296"
    by (rule div_with_reminder_step [OF lt(2) 1(3)])
  have split: "unat x = unat (hi_dword x) * 4294967296 + unat (lo_dword x)" for x
    by (simp add: unat_rules)
  have "unat hi * 18446744073709551616 + unat lo =
       ((unat q3 * 4294967296 + unat q2) * 18446744073709551616 + (unat q1 * 4294967296 + unat q0))
         * unat divisor + unat r0"
    using 3(2) 2(2) 1(2) 0(2) split [of hi] split [of lo] by (simp add: algebra_simps)
  then show ?thesis
    using that [of r0 "push_bit 32 q3 OR q2" "push_bit 32 q1 OR q0"] 3 2 1 0
    by (simp add: div128_32_def unat_dword_pair)
qed

lemma div128_32_value:
  assumes "divisor \<noteq> 0"
  shows "\<exists>r qh ql. div128_32 hi lo divisor = Some (r, qh, ql) \<and>
    unat qh * 18446744073709551616 + unat ql =
      (unat hi * 18446744073709551616 + unat lo) div unat divisor \<and>
    unat r = (unat hi * 18446744073709551616 + unat lo) mod unat divisor"
proof -
  obtain r qh ql where *: "div128_32 hi lo divisor = Some (r, qh, ql)"
    "unat hi * 18446744073709551616 + unat lo =
       (unat qh * 18446744073709551616 + unat ql) * unat divisor + unat r" "r < divisor"
    by (rule div128_32_steps [OF assms])
  have "unat r < unat divisor" using *(3) by (simp add: word_less_nat_alt)
  then show ?thesis using *(1) unfolding *(2) by simp
qed

subsection \<open>Byte swaps\<close>

text \<open>The masks of the swaps as shifted runs of ones.\<close>

lemma byte_masks:
  "(0xff :: u64) = push_bit 0 (mask 8)" "(0xff00 :: u64) = push_bit 8 (mask 8)"
  "(0x0000000000ff0000 :: u64) = push_bit 16 (mask 8)"
  "(0x00000000ff000000 :: u64) = push_bit 24 (mask 8)"
  "(0x000000ff00000000 :: u64) = push_bit 32 (mask 8)"
  "(0x0000ff0000000000 :: u64) = push_bit 40 (mask 8)"
  "(0x00ff000000000000 :: u64) = push_bit 48 (mask 8)"
  "(0xff00000000000000 :: u64) = push_bit 56 (mask 8)"
  by (simp_all add: mask_eq_exp_minus_1 push_bit_eq_mult)

lemma pair_masks:
  "(0x00ff00ff00ff00ff :: u64) = push_bit 0 (mask 8) OR push_bit 16 (mask 8) OR push_bit 32 (mask 8) OR push_bit 48 (mask 8)"
  "(0xff00ff00ff00ff00 :: u64) = push_bit 8 (mask 8) OR push_bit 24 (mask 8) OR push_bit 40 (mask 8) OR push_bit 56 (mask 8)"
  "(0x0000ffff0000ffff :: u64) = push_bit 0 (mask 16) OR push_bit 32 (mask 16)"
  "(0xffff0000ffff0000 :: u64) = push_bit 16 (mask 16) OR push_bit 48 (mask 16)"
  by (simp_all add: mask_eq_exp_minus_1 push_bit_eq_mult)

lemma SWAP64_byte:
  "byte_at 0 (SWAP64 x) = byte_at 7 x" "byte_at 1 (SWAP64 x) = byte_at 6 x"
  "byte_at 2 (SWAP64 x) = byte_at 5 x" "byte_at 3 (SWAP64 x) = byte_at 4 x"
  "byte_at 4 (SWAP64 x) = byte_at 3 x" "byte_at 5 (SWAP64 x) = byte_at 2 x"
  "byte_at 6 (SWAP64 x) = byte_at 1 x" "byte_at 7 (SWAP64 x) = byte_at 0 x"
  unfolding SWAP64_def byte_masks byte_at_def
  by (rule bit_word_eqI, auto simp: bit_simps)+

lemma swap64_byte:
  "byte_at 0 (swap64 x) = byte_at 7 x" "byte_at 1 (swap64 x) = byte_at 6 x"
  "byte_at 2 (swap64 x) = byte_at 5 x" "byte_at 3 (swap64 x) = byte_at 4 x"
  "byte_at 4 (swap64 x) = byte_at 3 x" "byte_at 5 (swap64 x) = byte_at 2 x"
  "byte_at 6 (swap64 x) = byte_at 1 x" "byte_at 7 (swap64 x) = byte_at 0 x"
  unfolding swap64_def pair_masks byte_at_def Let_def
  by (rule bit_word_eqI, auto simp: bit_simps)+

lemma less_8_cases: "(i :: nat) < 8 \<Longrightarrow> i \<in> {0, 1, 2, 3, 4, 5, 6, 7}"
  by auto

lemma le_bytes_SWAP64: "le_bytes (SWAP64 x) = rev (le_bytes x)"
  by (simp add: le_bytes_def SWAP64_byte SWAP64_byte [simplified])

lemma swap64_eq_SWAP64: "swap64 x = SWAP64 x"
  by (rule byte_at_eqI)
    (drule less_8_cases, elim insertE emptyE; simp only: swap64_byte SWAP64_byte)

lemma swap64_involution: "swap64 (swap64 x) = x"
  by (rule byte_at_eqI)
    (drule less_8_cases, elim insertE emptyE; simp only: swap64_byte)

subsection \<open>The arithmetic as a whole\<close>

text \<open>For all 64-bit operands \<open>mul128\<close> computes the exact 128-bit product: the low word is
  the product modulo two to the 64 and the high word is the rest.
\<close>

lemma mul128_exact:
  "mul128 x y = (of_nat (unat x * unat y),
                 of_nat (unat x * unat y div 18446744073709551616))"
proof -
  have "fst (mul128 x y) = of_nat (unat (fst (mul128 x y)))"
    "snd (mul128 x y) = of_nat (unat (snd (mul128 x y)))" by simp_all
  then show ?thesis
    by (simp only: m128.mul_low m128.mul_high prod_eq_iff fst_conv snd_conv of_nat_u64_mod)
qed

text \<open>The four-step schoolbook division \<open>div128_32\<close> traps exactly on the divisor zero;
  otherwise it returns the remainder and the two words of the exact quotient of the 128-bit
  dividend.
\<close>

lemma div128_32_exact:
  "div128_32 hi lo divisor =
     (let n = unat hi * 18446744073709551616 + unat lo in
      if divisor = 0 then None
      else Some (of_nat (n mod unat divisor),
                 of_nat (n div unat divisor div 18446744073709551616),
                 of_nat (n div unat divisor)))"
proof (cases "divisor = 0")
  case False
  then obtain r qh ql where d: "div128_32 hi lo divisor = Some (r, qh, ql)"
    "unat qh * 18446744073709551616 + unat ql =
      (unat hi * 18446744073709551616 + unat lo) div unat divisor"
    "unat r = (unat hi * 18446744073709551616 + unat lo) mod unat divisor"
    using div128_32_value by blast
  have q: "qh = of_nat ((unat qh * 18446744073709551616 + unat ql) div 18446744073709551616)"
    "ql = of_nat (unat qh * 18446744073709551616 + unat ql)"
    using unat_less_u64 [of ql] of_nat_u64_mod [of "unat qh * 18446744073709551616 + unat ql"]
    by simp_all
  have "r = of_nat (unat r)" by simp
  with d q False show ?thesis unfolding Let_def d(2) [symmetric] d(3) [symmetric] by auto
qed (simp add: div128_32_def div_with_reminder_def)

end
