(* ===== verification/Varint.thy ===== *)
theory Varint
  imports Cn_Prelude
begin

text \<open>
  The variable-length integers of \<open>common/varint.h\<close>. The writer and the reader are templates
  over the unsigned type; here they are polymorphic in the word length. \<open>read_varint\<close> takes
  the remaining input and returns the result code (the number of bytes read, or one of the
  two negative error codes), the value left in \<open>write\<close>, and the rest of the input.
\<close>

subsection \<open>Definitions\<close>

definition EVARINT_OVERFLOW :: int where "EVARINT_OVERFLOW = -1"
definition EVARINT_REPRESENT :: int where "EVARINT_REPRESENT = -2"

function write_varint :: "'a::len word \<Rightarrow> blob" where
  "write_varint i =
     (if 0x80 \<le> unat i then ((ucast i AND 0x7f) OR 0x80) # write_varint (drop_bit 7 i)
      else [ucast i])"
  by pat_completeness auto
termination
  by (relation "measure unat") (auto simp: unat_rules)

declare write_varint.simps [simp del]

fun read_varint_loop :: "nat \<Rightarrow> nat \<Rightarrow> int \<Rightarrow> 'a::len word \<Rightarrow> blob \<Rightarrow> int \<times> 'a word \<times> blob" where
  "read_varint_loop bits shift read write [] = (read, write, [])"
| "read_varint_loop bits shift read write (byte # rest) =
     (if bits \<le> shift + 7 \<and> 2 ^ (bits - shift) \<le> unat byte then (EVARINT_OVERFLOW, write, rest)
      else if byte = 0 \<and> shift \<noteq> 0 then (EVARINT_REPRESENT, write, rest)
      else let write = write OR push_bit shift (ucast (byte AND 0x7f))
           in if byte AND 0x80 = 0 then (read + 1, write, rest)
              else read_varint_loop bits (shift + 7) (read + 1) write rest)"

definition read_varint_bits :: "nat \<Rightarrow> blob \<Rightarrow> int \<times> 'a::len word \<times> blob" where
  "read_varint_bits bits inp = read_varint_loop bits 0 0 0 inp"

definition read_varint :: "blob \<Rightarrow> int \<times> 'a::len word \<times> blob" where
  "read_varint inp = read_varint_bits LENGTH('a) inp"

subsection \<open>Bytes of the encoding\<close>

lemma mask7: "(0x7f :: u8) = mask 7"
  by (simp add: mask_eq_exp_minus_1)

lemma bit_0x80: "bit (0x80 :: u8) n \<longleftrightarrow> n = 7"
proof -
  have "bit (2 ^ 7 :: u8) n \<longleftrightarrow> n = 7" by (auto simp only: bit_exp_iff) simp
  then show ?thesis by simp
qed

lemma byte_and_0x80: "(b :: u8) AND 0x80 = 0 \<longleftrightarrow> unat b < 128"
proof -
  have "bit b 7 \<longleftrightarrow> odd (unat b div 2 ^ 7)"
    using bit_unsigned_iff [of b 7, where ?'a = nat] by (simp add: bit_iff_odd)
  moreover have "b AND 0x80 = 0 \<longleftrightarrow> \<not> bit b 7"
    using and_exp_eq_0_iff_not_bit [of b 7] by simp
  moreover have "unat b div 2 ^ 7 = (if unat b < 128 then 0 else 1)"
    using unat_less_u8 [of b] by (auto simp: div_if)
  ultimately show ?thesis by simp
qed

lemma cont_byte_low:
  fixes i :: "'a::len word" and c :: u8
  assumes "\<And>n. n < 7 \<Longrightarrow> \<not> bit c n"
  shows "ucast (((ucast i AND mask 7) OR c) AND mask 7) = take_bit 7 i"
  using assms by (intro bit_word_eqI) (auto simp: bit_simps)

lemma cont_byte:
  fixes i :: "'a::len word"
  defines "b \<equiv> (ucast i AND 0x7f) OR (0x80 :: u8)"
  shows "128 \<le> unat b" and "ucast (b AND 0x7f) = take_bit 7 i"
proof -
  have "bit b 7" by (simp add: b_def bit_simps bit_0x80)
  then have "b AND 0x80 \<noteq> 0" using and_exp_eq_0_iff_not_bit [of b 7] by simp
  then show "128 \<le> unat b" by (simp add: byte_and_0x80)
  show "ucast (b AND 0x7f) = take_bit 7 i"
    unfolding b_def mask7 by (rule cont_byte_low) (simp only: bit_0x80)
qed

lemma last_byte:
  fixes i :: "'a::len word"
  assumes "unat i < 128"
  shows "unat (ucast i :: u8) = unat i" and "ucast (ucast i AND 0x7f :: u8) = i"
proof -
  show u: "unat (ucast i :: u8) = unat i"
    using assms by (simp add: unsigned_ucast_eq take_bit_nat_eq_self_iff)
  have "take_bit 7 i = i"
    using assms by (simp add: word_unat_eq_iff unsigned_take_bit_eq take_bit_nat_eq_self_iff)
  moreover have "ucast (ucast i AND 0x7f :: u8) = take_bit 7 i"
    unfolding mask7 by (rule bit_word_eqI) (auto simp: bit_simps)
  ultimately show "ucast (ucast i AND 0x7f :: u8) = i" by simp
qed

subsection \<open>What is written is read back\<close>

lemma unat_drop_bound:
  fixes V :: "'a::len word"
  assumes "s \<le> LENGTH('a)"
  shows "unat (drop_bit s V) < 2 ^ (LENGTH('a) - s)"
proof -
  have "unat V < 2 ^ (LENGTH('a) - s) * 2 ^ s"
    using assms by (simp flip: power_add)
  then show ?thesis by (simp add: unat_rules less_mult_imp_div_less)
qed

lemma drop_bit_ge_length: "LENGTH('a) \<le> s \<Longrightarrow> drop_bit s (V :: 'a::len word) = 0"
  by (rule bit_word_eqI) (auto simp: bit_simps dest: bit_imp_le_length)

lemma take_or_push_drop: "take_bit s V OR push_bit s (drop_bit s V) = (V :: 'a::len word)"
proof (rule bit_word_eqI)
  fix n show "bit (take_bit s V OR push_bit s (drop_bit s V)) n = bit V n"
    by (cases "n < s") (auto simp: bit_simps dest: bit_imp_le_length)
qed

lemma take_or_push_take:
  "take_bit s V OR push_bit s (take_bit 7 (drop_bit s V)) = take_bit (s + 7) (V :: 'a::len word)"
proof (rule bit_word_eqI)
  fix n show "bit (take_bit s V OR push_bit s (take_bit 7 (drop_bit s V))) n = bit (take_bit (s + 7) V) n"
    by (cases "n < s") (auto simp: bit_simps dest: bit_imp_le_length)
qed

lemma read_write_loop:
  fixes V :: "'a::len word"
  assumes "v = drop_bit s V" and "s = 0 \<or> v \<noteq> 0"
  shows "read_varint_loop LENGTH('a) s r (take_bit s V) (write_varint v @ rest) =
    (r + int (length (write_varint v)), V, rest)"
  using assms
proof (induction v arbitrary: s r rule: write_varint.induct)
  case (1 v)
  have sl: "s \<le> LENGTH('a)"
    using 1(2,3) drop_bit_ge_length [of s V] by (cases "s \<le> LENGTH('a)") auto
  have vb: "unat v < 2 ^ (LENGTH('a) - s)" using unat_drop_bound [OF sl] 1(2) by simp
  show ?case
  proof (cases "128 \<le> unat v")
    case True
    note c = cont_byte [of v]
    have "\<not> LENGTH('a) \<le> s + 7"
    proof
      assume "LENGTH('a) \<le> s + 7"
      then have "(2 :: nat) ^ (LENGTH('a) - s) \<le> 2 ^ 7" by (intro power_increasing) auto
      with vb True show False by simp
    qed
    moreover have "drop_bit 7 v = drop_bit (s + 7) V"
      using 1(2) by (simp add: drop_bit_drop_bit add.commute)
    moreover have "drop_bit 7 v \<noteq> 0"
      using True by (auto simp: word_unat_eq_iff unat_rules)
    moreover have "take_bit s V OR push_bit s (ucast (((ucast v AND 0x7f) OR 0x80) AND 0x7f :: u8)) =
        take_bit (s + 7) V"
      unfolding c(2) unfolding 1(2) by (rule take_or_push_take)
    ultimately show ?thesis
      using True c(1) 1(1) [of "s + 7" "r + 1"]
      by (auto simp: write_varint.simps [of v] byte_and_0x80 Let_def)
  next
    case False
    then have lt: "unat v < 128" by simp
    note l = last_byte [OF lt]
    have "ucast v \<noteq> (0 :: u8) \<or> s = 0"
      using 1(3) l(1) by (auto simp: word_unat_eq_iff)
    moreover have "take_bit s V OR push_bit s v = V" unfolding 1(2) by (rule take_or_push_drop)
    ultimately show ?thesis
      using lt l vb by (auto simp: write_varint.simps [of v] byte_and_0x80)
  qed
qed

text \<open>
  C9: what \<open>write_varint\<close> writes, \<open>read_varint\<close> of the same type reads back, for every value
  and whatever follows in the input: it returns the number of bytes written, the value
  itself, and leaves the rest of the input.
\<close>

theorem read_write_varint:
  "read_varint (write_varint v @ rest) = (int (length (write_varint v)), v, rest)"
  using read_write_loop [of v 0 v 0 rest] by (simp add: read_varint_def read_varint_bits_def)

subsection \<open>Only the canonical encoding is accepted\<close>

lemma bit_7_iff: "bit (b :: u8) 7 \<longleftrightarrow> 128 \<le> unat b"
  using and_exp_eq_0_iff_not_bit [of b 7] byte_and_0x80 [of b] by auto

lemma cont_byte_eq:
  fixes x :: "'a::len word" and b :: u8
  assumes "128 \<le> unat b" and "\<And>n. n < 7 \<Longrightarrow> bit x n = bit b n"
  shows "(ucast x AND 0x7f) OR 0x80 = b"
proof (rule bit_word_eqI)
  fix n assume "n < LENGTH(8)"
  then consider "n = 7" | "n < 7" by fastforce
  then show "bit ((ucast x AND 0x7f) OR 0x80 :: u8) n = bit b n"
  proof cases
    case 1
    then show ?thesis using assms(1) unfolding mask7 bit_or_iff bit_0x80 by (simp add: bit_7_iff)
  next
    case 2
    then show ?thesis using assms(2) [of n] unfolding mask7 bit_or_iff bit_0x80 by (simp add: bit_simps)
  qed
qed

lemma drop7_nonzero: "drop_bit 7 (x :: 'a::len word) \<noteq> 0 \<Longrightarrow> 128 \<le> unat x"
  by (rule ccontr) (simp add: word_unat_eq_iff unat_rules)

lemma bit_imp_le_unat: "bit (b :: u8) m \<Longrightarrow> 2 ^ m \<le> unat b"
proof -
  assume "bit b m"
  then have "odd (unat b div 2 ^ m)"
    using bit_unsigned_iff [of b m, where ?'a = nat] bit_imp_le_length [of b m]
    by (simp add: bit_iff_odd)
  then show ?thesis by (metis div_less even_zero not_le)
qed

lemma read_loop_canonical:
  fixes V :: "'a::len word"
  assumes "read_varint_loop LENGTH('a) s r w (pre @ rest) = (n, V, rest)" and "0 \<le> n"
    and "pre \<noteq> []" and "unat (last pre) < 128" and "take_bit s w = w" and "s < LENGTH('a)"
  shows "pre = write_varint (drop_bit s V) \<and> take_bit s V = w \<and> (s \<noteq> 0 \<longrightarrow> drop_bit s V \<noteq> 0)"
  using assms
proof (induction pre arbitrary: s r w)
  case (Cons b pre)
  let ?w = "w OR push_bit s (ucast (b AND 0x7f)) :: 'a word"
  have fits: "\<not> (LENGTH('a) \<le> s + 7 \<and> 2 ^ (LENGTH('a) - s) \<le> unat b)" and nz: "b \<noteq> 0 \<or> s = 0"
    using Cons.prems(1,2) by (auto simp: EVARINT_OVERFLOW_def EVARINT_REPRESENT_def split: if_splits)
  have wlow: "bit w m \<Longrightarrow> m < s" for m
    using Cons.prems(5) by (metis bit_take_bit_iff)
  show ?case
  proof (cases "unat b < 128")
    case True
    then have V: "V = ?w" and pre: "pre = []"
      using Cons.prems(1,2) fits nz by (auto simp: byte_and_0x80 Let_def split: if_splits)
    have bhi: "bit b m \<Longrightarrow> m < 7" for m
      using True bit_7_iff [of b] bit_imp_le_length [of b m] by (cases "m = 7") auto
    have bL: "s + m < LENGTH('a)" if m: "bit b m" for m
    proof (cases "LENGTH('a) \<le> s + 7")
      case True
      with fits have "unat b < 2 ^ (LENGTH('a) - s)" by simp
      moreover have "2 ^ m \<le> unat b" using m by (rule bit_imp_le_unat)
      ultimately have "(2 :: nat) ^ m < 2 ^ (LENGTH('a) - s)" by (rule le_less_trans [rotated])
      then show ?thesis by (simp add: power_strict_increasing_iff)
    next
      case False
      then show ?thesis using bhi [OF m] by simp
    qed
    have "drop_bit s V = ucast b" unfolding V mask7
      by (rule bit_word_eqI) (auto simp: bit_simps dest: wlow bhi bL)
    moreover have "take_bit s V = w" unfolding V
      by (rule bit_word_eqI) (auto simp: bit_simps dest: wlow)
    moreover have bb: "ucast (ucast b :: 'a word) = b"
      using bL by (intro bit_word_eqI) (auto simp: bit_simps, fastforce)
    moreover have "ucast b = (0 :: 'a word) \<Longrightarrow> b = 0" using bb by auto
    moreover have "unat (ucast b :: 'a word) < 128"
      using True by (simp add: unsigned_ucast_eq take_bit_eq_mod le_less_trans [OF mod_less_eq_dividend])
    then have "write_varint (ucast b :: 'a word) = [b]"
      using bb by (simp add: write_varint.simps)
    ultimately show ?thesis using nz pre by auto
  next
    case False
    then have b: "128 \<le> unat b" by simp
    have sL: "s + 7 < LENGTH('a)"
    proof (rule ccontr)
      assume *: "\<not> s + 7 < LENGTH('a)"
      then have "(2 :: nat) ^ (LENGTH('a) - s) \<le> 2 ^ 7" by (intro power_increasing) auto
      with fits b * show False by simp
    qed
    have rd: "read_varint_loop LENGTH('a) (s + 7) (r + 1) ?w (pre @ rest) = (n, V, rest)"
      using Cons.prems(1) fits nz False by (auto simp: byte_and_0x80 Let_def split: if_splits)
    have ne: "pre \<noteq> []" "unat (last pre) < 128"
      using Cons.prems(4) False by (cases "pre = []"; auto)+
    have "take_bit (s + 7) ?w = ?w" unfolding mask7
      by (rule bit_word_eqI) (auto simp: bit_simps dest: wlow)
    from Cons.IH [OF rd Cons.prems(2) ne this sL]
    have ih: "pre = write_varint (drop_bit (s + 7) V)" "take_bit (s + 7) V = ?w"
      "drop_bit (s + 7) V \<noteq> 0" by auto
    have dd: "drop_bit 7 (drop_bit s V) = drop_bit (s + 7) V"
      by (simp add: drop_bit_drop_bit add.commute)
    have big: "128 \<le> unat (drop_bit s V)"
      using ih(3) unfolding dd [symmetric] by (rule drop7_nonzero)
    have "bit (drop_bit s V) m = bit b m" if "m < 7" for m
    proof -
      have "bit (take_bit (s + 7) V) (s + m) = bit ?w (s + m)" by (simp add: ih(2))
      then show ?thesis using that sL wlow [of "s + m"] unfolding mask7 by (auto simp: bit_simps)
    qed
    then have "(ucast (drop_bit s V) AND 0x7f) OR 0x80 = b" by (rule cont_byte_eq [OF b])
    then have "write_varint (drop_bit s V) = b # pre"
      using big by (subst write_varint.simps) (simp add: ih(1) add.commute)
    moreover have "take_bit s V = w"
    proof -
      have "take_bit s V = take_bit s ?w" unfolding ih(2) [symmetric] by simp
      also have "\<dots> = w" by (rule bit_word_eqI) (auto simp: bit_simps dest: wlow)
      finally show ?thesis .
    qed
    ultimately show ?thesis using big by auto
  qed
qed simp

text \<open>The reader accepts no second encoding of a value: input that it consumes up to a
  byte without the continuation bit is exactly what \<open>write_varint\<close> writes for the value it
  returns.
\<close>

lemma read_varint_canonical:
  fixes v :: "'a::len word"
  assumes "read_varint (pre @ rest) = (n, v, rest)" and "0 < n"
    and "pre \<noteq> []" and "unat (last pre) < 0x80"
  shows "pre = write_varint v"
proof -
  have "read_varint_loop LENGTH('a) 0 0 0 (pre @ rest) = (n, v, rest)"
    using assms(1) by (simp add: read_varint_def read_varint_bits_def)
  from read_loop_canonical [OF this] assms show ?thesis by simp
qed

lemma read_varint_canonical_witness:
  "read_varint ([0xAC, 0x02] @ [0x07]) = (2, 300 :: u64, [0x07]) \<and> (0 :: int) < 2 \<and>
   [0xAC, 0x02] \<noteq> ([] :: blob) \<and> unat (last [0xAC, 0x02 :: u8]) < 0x80 \<and>
   [0xAC, 0x02] = write_varint (300 :: u64)"
proof -
  have h: "read_varint ([0xAC, 0x02] @ [0x07]) = (2, 300 :: u64, [0x07])"
    by (simp add: read_varint_def read_varint_bits_def)
  have c: "[0xAC, 0x02] = write_varint (300 :: u64)"
    by (rule read_varint_canonical [OF h]) simp_all
  show ?thesis by (intro conjI h c) simp_all
qed

subsection \<open>Varints as an interface\<close>

text \<open>
  What the formats built on varints use: a written value is read back, and an input that is
  read successfully with something left over starts with the encoding of the value.
\<close>

locale varint_codec =
  fixes wr :: "'v \<Rightarrow> blob" and rd :: "blob \<Rightarrow> int \<times> 'v \<times> blob"
  assumes read_back: "rd (wr v @ rest) = (int (length (wr v)), v, rest)"
    and read_prefix: "rd xs = (n, v, rest) \<Longrightarrow> 0 < n \<Longrightarrow> rest \<noteq> [] \<Longrightarrow> xs = wr v @ rest"
    and wr_not_Nil: "wr v \<noteq> []"
begin

lemma prefix_free: "wr v @ xs = wr w @ ys \<longleftrightarrow> v = w \<and> xs = ys"
  by (metis read_back prod.inject)

lemma read_length:
  "rd xs = (n, v, rest) \<Longrightarrow> 0 < n \<Longrightarrow> rest \<noteq> [] \<Longrightarrow> n = int (length (wr v))"
  by (metis read_back read_prefix prod.inject)

lemma read_drop: "drop (nat (fst (rd (wr v @ rest)))) (wr v @ rest) = rest"
  by (simp add: read_back)

lemma read_positive: "0 < fst (rd (wr v @ rest))"
  by (simp add: read_back wr_not_Nil)

end

lemma read_loop_split:
  fixes V :: "'a::len word"
  assumes "read_varint_loop B s r w xs = (n, V, rest)" and "0 < n" and "rest \<noteq> []"
  shows "\<exists>pre. xs = pre @ rest \<and> pre \<noteq> [] \<and> unat (last pre) < 128"
  using assms
proof (induction xs arbitrary: s r w)
  case (Cons b xs)
  show ?case
  proof (cases "unat b < 128")
    case True
    then have "xs = rest"
      using Cons.prems
      by (auto simp: byte_and_0x80 Let_def EVARINT_OVERFLOW_def EVARINT_REPRESENT_def split: if_splits)
    then show ?thesis using True by (intro exI [of _ "[b]"]) simp
  next
    case False
    then have "read_varint_loop B (s + 7) (r + 1) (w OR push_bit s (ucast (b AND 0x7f))) xs = (n, V, rest)"
      using Cons.prems
      by (auto simp: byte_and_0x80 Let_def EVARINT_OVERFLOW_def EVARINT_REPRESENT_def split: if_splits)
    then obtain pre where "xs = pre @ rest" "pre \<noteq> []" "unat (last pre) < 128"
      using Cons.IH Cons.prems by blast
    then show ?thesis by (intro exI [of _ "b # pre"]) simp
  qed
qed auto

text \<open>What is left of the input is what follows the bytes counted.\<close>

lemma read_loop_rest:
  assumes "read_varint_loop B s r w xs = (n, v, rest)" and "0 < n" and "0 \<le> r"
  shows "r \<le> n \<and> rest = drop (nat (n - r)) xs"
  using assms
proof (induction xs arbitrary: s r w)
  case (Cons b xs)
  show ?case
  proof (cases "unat b < 128")
    case True
    then show ?thesis
      using Cons.prems
      by (auto simp: byte_and_0x80 Let_def EVARINT_OVERFLOW_def EVARINT_REPRESENT_def split: if_splits)
  next
    case False
    then have "read_varint_loop B (s + 7) (r + 1) (w OR push_bit s (ucast (b AND 0x7f))) xs = (n, v, rest)"
      using Cons.prems
      by (auto simp: byte_and_0x80 Let_def EVARINT_OVERFLOW_def EVARINT_REPRESENT_def split: if_splits)
    from Cons.IH [OF this] Cons.prems have *: "r + 1 \<le> n" "rest = drop (nat (n - (r + 1))) xs" by auto
    then have "nat (n - r) = Suc (nat (n - (r + 1)))" by simp
    with * show ?thesis by simp
  qed
qed auto

lemma read_rest:
  "read_varint xs = (n, v, rest) \<Longrightarrow> 0 < n \<Longrightarrow> rest = drop (nat n) xs"
  using read_loop_rest [of _ 0 0 0 xs n v rest] by (simp add: read_varint_def read_varint_bits_def)

lemma write_varint_not_Nil [simp]: "write_varint v \<noteq> []"
  by (subst write_varint.simps) simp

interpretation v64: varint_codec write_varint "read_varint :: blob \<Rightarrow> int \<times> u64 \<times> blob"
proof
  show "read_varint (write_varint v @ rest) = (int (length (write_varint v)), v, rest)"
    for v :: u64 and rest
    using read_write_loop [of v 0 v 0 rest] by (simp add: read_varint_def read_varint_bits_def)
  show "xs = write_varint v @ rest"
    if rd: "read_varint xs = (n, v, rest)" and pos: "0 < n" and ne: "rest \<noteq> []" for xs n rest and v :: u64
  proof -
    have l: "read_varint_loop 64 0 0 0 xs = (n, v, rest)"
      using rd by (simp add: read_varint_def read_varint_bits_def)
    obtain pre where pre: "xs = pre @ rest" "pre \<noteq> []" "unat (last pre) < 128"
      using read_loop_split [OF l pos ne] by blast
    have "read_varint_loop LENGTH(64) 0 0 0 (pre @ rest) = (n, v, rest)" using l pre(1) by simp
    from read_loop_canonical [OF this _ pre(2,3)] pos have "pre = write_varint v" by simp
    then show ?thesis by (simp only: pre(1))
  qed
qed simp

end
