(* ===== verification/Keccak.thy ===== *)
theory Keccak
  imports Int_Util
begin

text \<open>
  The Keccak permutation and sponge of \<open>crypto/keccak.c\<close> and the hash \<open>cn_fast_hash\<close> of
  \<open>crypto/hash.c\<close>. The 25 lanes are a list that the loops update in place, as the C code
  does; a buffer overrun or a loop that never ends is the value \<open>None\<close>. The in-place loops
  are shown equal to the five step maps of the Keccak standard, and the hash to the standard
  sponge over the padded message.
\<close>

subsection \<open>Constants\<close>

definition HASH_SIZE :: nat where "HASH_SIZE = 32"

definition HASH_DATA_AREA :: nat where "HASH_DATA_AREA = 136"

definition KECCAK_ROUNDS :: nat where "KECCAK_ROUNDS = 24"

definition keccakf_rndc :: "u64 list" where
  "keccakf_rndc =
    [0x0000000000000001, 0x0000000000008082, 0x800000000000808a,
     0x8000000080008000, 0x000000000000808b, 0x0000000080000001,
     0x8000000080008081, 0x8000000000008009, 0x000000000000008a,
     0x0000000000000088, 0x0000000080008009, 0x000000008000000a,
     0x000000008000808b, 0x800000000000008b, 0x8000000000008089,
     0x8000000000008003, 0x8000000000008002, 0x8000000000000080,
     0x000000000000800a, 0x800000008000000a, 0x8000000080008081,
     0x8000000000008080, 0x0000000080000001, 0x8000000080008008]"

definition keccakf_rotc :: "nat list" where
  "keccakf_rotc =
    [1, 3, 6, 10, 15, 21, 28, 36, 45, 55, 2, 14,
     27, 41, 56, 8, 25, 43, 62, 18, 39, 61, 20, 44]"

definition keccakf_piln :: "nat list" where
  "keccakf_piln =
    [10, 7, 11, 17, 18, 3, 5, 16, 8, 21, 24, 4,
     15, 23, 19, 13, 12, 2, 20, 14, 22, 9, 6, 1]"

definition ROTL64 :: "u64 \<Rightarrow> nat \<Rightarrow> u64" where
  "ROTL64 x y = push_bit y x OR drop_bit (64 - y) x"

subsection \<open>The permutation\<close>

definition keccakf_theta :: "u64 list \<Rightarrow> u64 list" where
  "keccakf_theta st =
     (let bc = map (\<lambda>i. st ! i XOR st ! (i + 5) XOR st ! (i + 10) XOR st ! (i + 15) XOR st ! (i + 20)) [0..<5]
      in foldl (\<lambda>st i.
           let t = bc ! ((i + 4) mod 5) XOR ROTL64 (bc ! ((i + 1) mod 5)) 1
           in foldl (\<lambda>st j. st[j + i := st ! (j + i) XOR t]) st [0, 5, 10, 15, 20])
         st [0..<5])"

definition keccakf_rho_pi :: "u64 list \<Rightarrow> u64 list" where
  "keccakf_rho_pi st =
     snd (foldl (\<lambda>(t, st) i.
            let j = keccakf_piln ! i; bc0 = st ! j
            in (bc0, st[j := ROTL64 t (keccakf_rotc ! i)]))
          (st ! 1, st) [0..<24])"

definition keccakf_chi :: "u64 list \<Rightarrow> u64 list" where
  "keccakf_chi st =
     foldl (\<lambda>st j.
       let bc = map (\<lambda>i. st ! (j + i)) [0..<5]
       in foldl (\<lambda>st i. st[j + i := st ! (j + i) XOR (NOT (bc ! ((i + 1) mod 5)) AND bc ! ((i + 2) mod 5))])
            st [0..<5])
     st [0, 5, 10, 15, 20]"

definition keccakf_iota :: "nat \<Rightarrow> u64 list \<Rightarrow> u64 list" where
  "keccakf_iota round st = st[0 := st ! 0 XOR keccakf_rndc ! round]"

definition keccakf :: "u64 list \<Rightarrow> nat \<Rightarrow> u64 list" where
  "keccakf st rounds =
     foldl (\<lambda>st round. keccakf_iota round (keccakf_chi (keccakf_rho_pi (keccakf_theta st))))
       st [0..<rounds]"

subsection \<open>The sponge\<close>

text \<open>\<open>st[i] ^= ((uint64_t *) in)[i]\<close> for the first \<open>rsizw\<close> words of the block.\<close>

definition xor_block :: "nat \<Rightarrow> u64 list \<Rightarrow> blob \<Rightarrow> u64 list" where
  "xor_block rsizw st inp =
     foldl (\<lambda>st i. st[i := st ! i XOR le_word (take 8 (drop (8 * i) inp))]) st [0..<rsizw]"

text \<open>
  The absorbing loop: the state after the full blocks and the rest of the input. A rate of
  zero makes the loop of the code run forever.
\<close>

function keccak_absorb :: "nat \<Rightarrow> u64 list \<Rightarrow> blob \<Rightarrow> (u64 list \<times> blob) option" where
  "keccak_absorb rsiz st inp =
     (if rsiz = 0 then None
      else if length inp \<ge> rsiz
      then keccak_absorb rsiz (keccakf (xor_block (rsiz div 8) st inp) KECCAK_ROUNDS) (drop rsiz inp)
      else Some (st, inp))"
  by pat_completeness auto
termination by (relation "measure (\<lambda>(_, _, inp). length inp)") auto

declare keccak_absorb.simps [simp del]

definition state_bytes :: "u64 list \<Rightarrow> blob" where
  "state_bytes st = concat (map le_bytes st)"

text \<open>
  The last block in the buffer \<open>temp[144]\<close>; \<open>None\<close> when the rate does not fit the buffer.
\<close>

definition keccak_last_block :: "nat \<Rightarrow> blob \<Rightarrow> blob option" where
  "keccak_last_block rsiz inp =
     (if rsiz \<le> 144 \<and> length inp < rsiz
      then let temp = inp @ [1] @ replicate (rsiz - (length inp + 1)) 0
           in Some (temp[rsiz - 1 := temp ! (rsiz - 1) OR 0x80])
      else None)"

definition keccak :: "blob \<Rightarrow> int \<Rightarrow> blob option" where
  "keccak inp mdlen =
     (let rsiz = unat (word_of_int (if mdlen = 200 then int HASH_DATA_AREA else 200 - 2 * mdlen) :: u64);
          rsizw = rsiz div 8
      in case keccak_absorb rsiz (replicate 25 0) inp of
           None \<Rightarrow> None
         | Some (st, inp) \<Rightarrow>
             (case keccak_last_block rsiz inp of
                None \<Rightarrow> None
              | Some temp \<Rightarrow>
                  if 0 \<le> mdlen \<and> mdlen \<le> 200
                  then Some (take (nat mdlen) (state_bytes (keccakf (xor_block rsizw st temp) KECCAK_ROUNDS)))
                  else None))"

definition keccak1600 :: "blob \<Rightarrow> blob option" where
  "keccak1600 inp = keccak inp 200"

text \<open>\<open>union hash_state\<close> is its 200 bytes.\<close>

definition hash_process :: "blob \<Rightarrow> blob option" where
  "hash_process buf = keccak1600 buf"

text \<open>The hash is defined on every input (\<open>keccak1600_sponge\<close> below), so \<open>the\<close> is only formal.\<close>

definition cn_fast_hash :: "blob \<Rightarrow> blob" where
  "cn_fast_hash data = take HASH_SIZE (the (hash_process data))"

subsection \<open>The step maps of the standard\<close>

text \<open>
  The specification of the permutation: lane \<open>(x, y)\<close> is the element \<open>x + 5 y\<close> of the
  state, and each step map gives the whole new state from the old one. \<open>rho_offset\<close> is the
  table of rotation constants of the standard, row \<open>y\<close> by column \<open>x\<close>.
\<close>

definition lane :: "u64 list \<Rightarrow> nat \<Rightarrow> nat \<Rightarrow> u64" where
  "lane st x y = st ! (x mod 5 + 5 * (y mod 5))"

definition lanes :: "(nat \<Rightarrow> nat \<Rightarrow> u64) \<Rightarrow> u64 list" where
  "lanes f = map (\<lambda>k. f (k mod 5) (k div 5)) [0..<25]"

definition column :: "u64 list \<Rightarrow> nat \<Rightarrow> u64" where
  "column st x = lane st x 0 XOR lane st x 1 XOR lane st x 2 XOR lane st x 3 XOR lane st x 4"

definition rho_offset :: "nat list" where
  "rho_offset = [0, 1, 62, 28, 27,
                 36, 44, 6, 55, 20,
                 3, 10, 43, 25, 39,
                 41, 45, 15, 21, 8,
                 18, 2, 61, 56, 14]"

definition theta_spec :: "u64 list \<Rightarrow> u64 list" where
  "theta_spec st =
     lanes (\<lambda>x y. lane st x y XOR (column st (x + 4) XOR word_rotl 1 (column st (x + 1))))"

text \<open>Lane \<open>(x, y)\<close> moves to column \<open>y\<close>, row \<open>2 x + 3 y\<close>: the target \<open>(x', y')\<close> comes from column \<open>x' + 3 y'\<close>, row \<open>x'\<close>.\<close>

definition rho_pi_spec :: "u64 list \<Rightarrow> u64 list" where
  "rho_pi_spec st =
     lanes (\<lambda>x y. word_rotl (rho_offset ! ((x + 3 * y) mod 5 + 5 * x)) (lane st (x + 3 * y) x))"

definition chi_spec :: "u64 list \<Rightarrow> u64 list" where
  "chi_spec st =
     lanes (\<lambda>x y. lane st x y XOR (NOT (lane st (x + 1) y) AND lane st (x + 2) y))"

definition iota_spec :: "u64 \<Rightarrow> u64 list \<Rightarrow> u64 list" where
  "iota_spec rc st = lanes (\<lambda>x y. if x = 0 \<and> y = 0 then lane st 0 0 XOR rc else lane st x y)"

definition round_spec :: "u64 list \<Rightarrow> u64 \<Rightarrow> u64 list" where
  "round_spec st rc = iota_spec rc (chi_spec (rho_pi_spec (theta_spec st)))"

lemma length_lanes [simp]: "length (lanes f) = 25"
  by (simp add: lanes_def)

lemma length_25_cases:
  assumes "length st = 25"
  obtains a0 a1 a2 a3 a4 a5 a6 a7 a8 a9 a10 a11 a12 a13 a14 a15 a16 a17 a18 a19 a20 a21 a22 a23 a24
  where "st = [a0, a1, a2, a3, a4, a5, a6, a7, a8, a9, a10, a11, a12, a13, a14, a15, a16, a17,
               a18, a19, a20, a21, a22, a23, a24]"
  using assms by (auto simp: numeral_eq_Suc length_Suc_conv)

lemma upt_5: "[0..<5] = [0, 1, 2, 3, 4]"
  by (simp add: upt_rec)

lemma upt_24: "[0..<24] = [0, 1, 2, 3, 4, 5, 6, 7, 8, 9, 10, 11, 12, 13, 14, 15, 16, 17, 18, 19, 20, 21, 22, 23]"
  by (simp add: upt_rec)

lemma upt_25: "[0..<25] = [0, 1, 2, 3, 4, 5, 6, 7, 8, 9, 10, 11, 12, 13, 14, 15, 16, 17, 18, 19, 20, 21, 22, 23, 24]"
  by (simp add: upt_rec)

lemma ROTL64_rotl: "0 < y \<Longrightarrow> y < 64 \<Longrightarrow> ROTL64 x y = word_rotl y x"
  using rot_word_eq [of "int y" x] by (simp add: ROTL64_def zmod_zminus1_eq_if nat_diff_distrib)

lemma word_rotl_zero: "word_rotl 0 x = x"
  by (rule bit_word_eqI) (auto simp: bit_simps)

lemma keccakf_theta_spec: "length st = 25 \<Longrightarrow> keccakf_theta st = theta_spec st"
  by (erule length_25_cases)
    (simp add: keccakf_theta_def theta_spec_def lanes_def lane_def column_def upt_5 upt_25
      ROTL64_rotl Let_def)

lemma keccakf_rho_pi_spec: "length st = 25 \<Longrightarrow> keccakf_rho_pi st = rho_pi_spec st"
  by (erule length_25_cases)
    (simp add: keccakf_rho_pi_def rho_pi_spec_def lanes_def lane_def upt_24 upt_25
      keccakf_piln_def keccakf_rotc_def rho_offset_def ROTL64_rotl word_rotl_zero Let_def)

lemma keccakf_chi_spec: "length st = 25 \<Longrightarrow> keccakf_chi st = chi_spec st"
  by (erule length_25_cases)
    (simp add: keccakf_chi_def chi_spec_def lanes_def lane_def upt_5 upt_25 Let_def)

lemma keccakf_iota_spec:
  "length st = 25 \<Longrightarrow> keccakf_iota round st = iota_spec (keccakf_rndc ! round) st"
  by (erule length_25_cases) (simp add: keccakf_iota_def iota_spec_def lanes_def lane_def upt_25)

lemma length_round_spec [simp]: "length (round_spec st rc) = 25"
  by (simp add: round_spec_def iota_spec_def)

lemma keccakf_round_spec:
  "length st = 25 \<Longrightarrow>
   keccakf_iota round (keccakf_chi (keccakf_rho_pi (keccakf_theta st))) = round_spec st (keccakf_rndc ! round)"
  by (simp add: keccakf_theta_spec keccakf_rho_pi_spec keccakf_chi_spec keccakf_iota_spec
      round_spec_def theta_spec_def rho_pi_spec_def chi_spec_def)

lemma length_keccakf_rndc [simp]: "length keccakf_rndc = 24"
  by (simp add: keccakf_rndc_def)

lemma length_foldl_round [simp]: "length st = 25 \<Longrightarrow> length (foldl round_spec st rcs) = 25"
  by (induction rcs arbitrary: st) auto

lemma keccakf_rounds_spec:
  assumes "length st = 25" and "rounds \<le> 24"
  shows "keccakf st rounds = foldl round_spec st (take rounds keccakf_rndc)"
  using assms(2)
proof (induction rounds)
  case (Suc n)
  then have "take (Suc n) keccakf_rndc = take n keccakf_rndc @ [keccakf_rndc ! n]"
    by (simp add: take_Suc_conv_app_nth)
  with Suc show ?case by (simp add: keccakf_def keccakf_round_spec assms(1))
qed (simp add: keccakf_def)

lemma length_keccakf [simp]: "length st = 25 \<Longrightarrow> length (keccakf st KECCAK_ROUNDS) = 25"
  by (simp add: keccakf_rounds_spec KECCAK_ROUNDS_def)

text \<open>
  C7: the permutation of \<open>keccakf\<close>, which works in place on the 25 lanes, is the
  composition of the standard's step maps theta, rho, pi, chi and iota, once for each of the
  round constants in order.
\<close>

theorem keccakf_standard:
  assumes "length st = 25" and "rounds \<le> 24"
  shows "keccakf st rounds = foldl round_spec st (take rounds keccakf_rndc)"
  using assms by (rule keccakf_rounds_spec)

theorem keccakf_standard_witness:
  "length (replicate 25 (0 :: u64)) = 25 \<and> (1 :: nat) \<le> 24 \<and>
   keccakf (replicate 25 0) 1 = foldl round_spec (replicate 25 0) (take 1 keccakf_rndc)"
  using keccakf_standard [of "replicate 25 0" 1] by simp

subsection \<open>The sponge of the standard\<close>

text \<open>
  The specification of the hash: the message is padded with a one byte, zeros and a last
  byte with its top bit set (one byte with both when only one is free), cut into blocks of
  the rate, and each block is added to the state before the permutation.
\<close>

definition pad_spec :: "nat \<Rightarrow> blob \<Rightarrow> blob" where
  "pad_spec r m =
     (let free = r - length m mod r
      in m @ (if free = 1 then [0x81] else [1] @ replicate (free - 2) 0 @ [0x80]))"

fun chunks :: "nat \<Rightarrow> blob \<Rightarrow> blob list" where
  "chunks r m = (if r = 0 \<or> length m < r then [] else take r m # chunks r (drop r m))"

declare chunks.simps [simp del]

definition absorb_spec :: "nat \<Rightarrow> u64 list \<Rightarrow> blob \<Rightarrow> u64 list" where
  "absorb_spec r st block = foldl round_spec (xor_block (r div 8) st block) keccakf_rndc"

lemma length_xor_block [simp]: "length (xor_block n st inp) = length st"
proof -
  have "length (foldl (\<lambda>st i. st[i := st ! i XOR f i]) st js) = length st" for js f
    by (induction js arbitrary: st) auto
  then show ?thesis by (simp add: xor_block_def)
qed

lemma xor_block_take: "8 * n \<le> r \<Longrightarrow> xor_block n st (take r inp) = xor_block n st inp"
  unfolding xor_block_def by (intro foldl_cong refl) (auto simp: take_drop min_absorb1)

lemma keccakf_absorb_spec:
  "length st = 25 \<Longrightarrow> keccakf (xor_block (r div 8) st inp) KECCAK_ROUNDS = absorb_spec r st inp"
  by (simp add: keccakf_rounds_spec KECCAK_ROUNDS_def absorb_spec_def keccakf_rndc_def)

lemma absorb_spec_take: "absorb_spec r st (take r inp) = absorb_spec r st inp"
  by (simp add: absorb_spec_def xor_block_take)

lemma length_absorb_spec [simp]: "length (absorb_spec r st b) = 25"
  by (simp add: absorb_spec_def keccakf_rndc_def)

lemma keccak_last_block_pad:
  assumes "length inp < r" and "r \<le> 144"
  shows "keccak_last_block r inp = Some (pad_spec r inp)"
proof (cases "r = length inp + 1")
  case False
  then obtain d where r: "r = length inp + d + 2"
    using assms(1) less_imp_Suc_add [of "length inp + 1" r] by auto
  have "replicate (Suc d) (0 :: u8) = replicate d 0 @ [0]"
    by (simp add: replicate_append_same)
  then show ?thesis using assms(2)
    by (simp add: r keccak_last_block_def pad_spec_def Let_def list_update_append nth_append
        del: replicate.simps)
qed (use assms in \<open>auto simp: keccak_last_block_def pad_spec_def Let_def list_update_append nth_append\<close>)

lemma length_pad_spec_short: "length inp < r \<Longrightarrow> length (pad_spec r inp) = r"
  by (auto simp: pad_spec_def Let_def)

lemma pad_spec_drop:
  "r \<le> length inp \<Longrightarrow> pad_spec r inp = take r inp @ pad_spec r (drop r inp)"
  by (simp add: pad_spec_def Let_def le_mod_geq)

lemma keccak_absorb_pad:
  assumes "0 < r" and "r \<le> 144" and "length st = 25"
  obtains st' rest where "keccak_absorb r st inp = Some (st', rest)" and "length st' = 25"
    and "length rest < r"
    and "foldl (absorb_spec r) st (chunks r (pad_spec r inp)) = absorb_spec r st' (pad_spec r rest)"
  using assms
proof (induction r st inp arbitrary: thesis rule: keccak_absorb.induct)
  case (1 r st inp)
  show ?case
  proof (cases "r \<le> length inp")
    case True
    define st1 where "st1 = absorb_spec r st inp"
    have k: "keccakf (xor_block (r div 8) st inp) KECCAK_ROUNDS = st1"
      using 1 by (simp add: st1_def keccakf_absorb_spec)
    have "length (keccakf (xor_block (r div 8) st inp) KECCAK_ROUNDS) = 25" using 1 by simp
    then obtain st' rest where *: "keccak_absorb r st1 (drop r inp) = Some (st', rest)"
      "length st' = 25" "length rest < r"
      "foldl (absorb_spec r) st1 (chunks r (pad_spec r (drop r inp))) = absorb_spec r st' (pad_spec r rest)"
      using 1 True k by (metis gr_implies_not0)
    have "keccak_absorb r st inp = Some (st', rest)"
      using True 1 k * by (subst keccak_absorb.simps) simp
    moreover have "chunks r (pad_spec r inp) = take r inp # chunks r (pad_spec r (drop r inp))"
      using True 1 by (subst chunks.simps) (simp add: pad_spec_drop)
    ultimately show ?thesis
      using 1(2) * by (simp add: absorb_spec_take flip: st1_def)
  next
    case False
    then have "chunks r (pad_spec r inp) = [pad_spec r inp]"
      using 1 by (simp add: chunks.simps length_pad_spec_short)
    with False 1 show ?thesis by (simp add: keccak_absorb.simps)
  qed
qed

lemma length_state_bytes [simp]: "length (state_bytes st) = 8 * length st"
  by (induction st) (auto simp: state_bytes_def)

lemma keccak1600_sponge:
  "keccak1600 m = Some (state_bytes (foldl (absorb_spec 136) (replicate 25 0) (chunks 136 (pad_spec 136 m))))"
proof -
  obtain st' rest where *: "keccak_absorb 136 (replicate 25 0) m = Some (st', rest)" "length st' = 25"
    "length rest < 136"
    "foldl (absorb_spec 136) (replicate 25 0) (chunks 136 (pad_spec 136 m)) = absorb_spec 136 st' (pad_spec 136 rest)"
    by (rule keccak_absorb_pad [of 136 "replicate 25 0" m]) auto
  then show ?thesis
    using keccakf_absorb_spec [of st' 136 "pad_spec 136 rest"]
    by (simp add: keccak1600_def keccak_def Let_def HASH_DATA_AREA_def keccak_last_block_pad)
qed

text \<open>
  C8: \<open>cn_fast_hash\<close> is defined on every input (no buffer overrun, no endless loop) and is
  the first 32 bytes of the standard Keccak sponge with rate 136 over the padded message.
\<close>

theorem cn_fast_hash_sponge:
  "\<exists>md. hash_process m = Some md \<and> cn_fast_hash m = take HASH_SIZE md \<and>
     md = state_bytes (foldl (absorb_spec 136) (replicate 25 0) (chunks 136 (pad_spec 136 m)))"
  by (simp add: hash_process_def keccak1600_sponge cn_fast_hash_def)

subsection \<open>The hash as an interface\<close>

text \<open>
  What the users of the hash (addresses, Merkle trees, transaction identifiers) rely on:
  it is a function of the bytes and returns \<open>HASH_SIZE\<close> bytes.
\<close>

locale fast_hash =
  fixes H :: "blob \<Rightarrow> blob"
  assumes hash_length: "length (H m) = 32"
begin

lemma hash_not_Nil: "H m \<noteq> []"
  using hash_length [of m] by auto

lemma take_hash: "n \<le> 32 \<Longrightarrow> length (take n (H m)) = n"
  by (simp add: hash_length)

end

lemma length_foldl_absorb: "length st = 25 \<Longrightarrow> length (foldl (absorb_spec r) st bs) = 25"
  by (induction bs arbitrary: st) auto

interpretation cnh: fast_hash cn_fast_hash
  by unfold_locales
    (simp add: cn_fast_hash_def hash_process_def keccak1600_sponge length_foldl_absorb HASH_SIZE_def)

end
