(* ===== verification/Base58.thy ===== *)
theory Base58
  imports Varint Keccak
begin

text \<open>
  The base58 encoding of \<open>common/base58.cpp\<close> and the addresses built on it. Strings are byte
  lists; a pointer into a string is the list from that position on when it is read and the
  list with an offset when it is written. A failed \<open>assert\<close> or an access out of range is
  \<open>None\<close>, and a routine that returns \<open>bool\<close> and fills a buffer returns both.
\<close>

subsection \<open>Tables\<close>

definition alphabet :: blob where
  "alphabet = map of_char ''123456789ABCDEFGHJKLMNPQRSTUVWXYZabcdefghijkmnopqrstuvwxyz''"

definition alphabet_size :: nat where "alphabet_size = 58"

definition encoded_block_sizes :: "nat list" where
  "encoded_block_sizes = [0, 2, 3, 5, 6, 7, 9, 10, 11]"

definition full_block_size :: nat where "full_block_size = length encoded_block_sizes - 1"

definition full_encoded_block_size :: nat where
  "full_encoded_block_size = encoded_block_sizes ! full_block_size"

definition addr_checksum_size :: nat where "addr_checksum_size = 4"

text \<open>\<open>char\<close> is signed on the targets of the program.\<close>

definition reverse_alphabet_data :: "int list" where
  "reverse_alphabet_data =
     foldl (\<lambda>m_data i. m_data[nat (sint (alphabet ! i) - sint (alphabet ! 0)) := int i])
       (replicate (nat (sint (alphabet ! (alphabet_size - 1)) - sint (alphabet ! 0) + 1)) (- 1))
       [0..<alphabet_size]"

definition reverse_alphabet :: "u8 \<Rightarrow> int" where
  "reverse_alphabet letter =
     (let idx = unat (word_of_int (sint letter - sint (alphabet ! 0)) :: u64)
      in if idx < length reverse_alphabet_data then reverse_alphabet_data ! idx else - 1)"

definition decoded_block_sizes_data :: "int list" where
  "decoded_block_sizes_data =
     foldl (\<lambda>m_data i. m_data[encoded_block_sizes ! i := int i])
       (replicate (encoded_block_sizes ! full_block_size + 1) (- 1))
       [0..<full_block_size + 1]"

definition decoded_block_sizes :: "nat \<Rightarrow> int option" where
  "decoded_block_sizes encoded_block_size =
     (if encoded_block_size \<le> full_encoded_block_size
      then Some (decoded_block_sizes_data ! encoded_block_size) else None)"

subsection \<open>Blocks\<close>

text \<open>
  The fall-through \<open>switch (9 - size)\<close>: entering at label \<open>k\<close>, every label but the first
  shifts before it adds the next byte.
\<close>

function uint_8be_cases :: "nat \<Rightarrow> u64 \<Rightarrow> blob \<Rightarrow> u64 option" where
  "uint_8be_cases k res data =
     (if 8 < k then Some res
      else case data of
        [] \<Rightarrow> None
      | b # data \<Rightarrow> uint_8be_cases (k + 1) ((if k = 1 then res else push_bit 8 res) OR ucast b) data)"
  by pat_completeness auto
termination by (relation "measure (\<lambda>(k, _, _). 9 - k)") auto

definition uint_8be_to_64 :: "blob \<Rightarrow> nat \<Rightarrow> u64 option" where
  "uint_8be_to_64 data sz =
     (if 1 \<le> sz \<and> sz \<le> 8 then uint_8be_cases (9 - sz) 0 data else None)"

definition uint_64_to_8be :: "u64 \<Rightarrow> nat \<Rightarrow> blob option" where
  "uint_64_to_8be num sz =
     (if 1 \<le> sz \<and> sz \<le> 8
      then let num_be = SWAP64 num in Some (take sz (drop (8 - sz) (le_bytes num_be)))
      else None)"

text \<open>The digit loop of \<open>encode_block\<close>; \<open>i\<close> is the index into the whole result string.\<close>

function encode_block_loop :: "u64 \<Rightarrow> int \<Rightarrow> blob \<Rightarrow> blob option" where
  "encode_block_loop num i res =
     (if 0 < num
      then let remainder = num mod 58; num = num div 58
           in if 0 \<le> i \<and> i < int (length res)
              then encode_block_loop num (i - 1) (res[nat i := alphabet ! unat remainder])
              else None
      else Some res)"
  by pat_completeness auto
termination
  by (relation "measure (\<lambda>(num, _, _). unat num)") (auto simp: unat_div word_less_nat_alt)

definition encode_block :: "blob \<Rightarrow> nat \<Rightarrow> blob \<Rightarrow> nat \<Rightarrow> blob option" where
  "encode_block block sz res off =
     (if 1 \<le> sz \<and> sz \<le> full_block_size
      then case uint_8be_to_64 block sz of
             None \<Rightarrow> None
           | Some num \<Rightarrow>
               encode_block_loop num (int off + (int (encoded_block_sizes ! sz) - 1)) res
      else None)"

text \<open>
  The digit loop of \<open>decode_block\<close>, counting \<open>i\<close> down from \<open>size - 1\<close> until it wraps; the
  argument is the number of digits left. The result is false with an unspecified number, or
  true with \<open>res_num\<close>.
\<close>

fun decode_block_loop :: "blob \<Rightarrow> nat \<Rightarrow> u64 \<Rightarrow> u64 \<Rightarrow> (bool \<times> u64) option" where
  "decode_block_loop block 0 res_num order = Some (True, res_num)"
| "decode_block_loop block (Suc i) res_num order =
     (if i < length block
      then let digit = reverse_alphabet (block ! i)
           in if digit < 0 then Some (False, res_num)
              else let (product_lo, product_hi) = mul128 order (word_of_int digit);
                       tmp = res_num + product_lo
                   in if tmp < res_num \<or> 0 \<noteq> product_hi then Some (False, res_num)
                      else decode_block_loop block i tmp (order * 58)
      else None)"

text \<open>\<open>memcpy\<close> into a string at an offset.\<close>

definition write_at :: "blob \<Rightarrow> nat \<Rightarrow> blob \<Rightarrow> blob option" where
  "write_at buf off bs =
     (if off + length bs \<le> length buf then Some (take off buf @ bs @ drop (off + length bs) buf) else None)"

definition decode_block :: "blob \<Rightarrow> nat \<Rightarrow> blob \<Rightarrow> nat \<Rightarrow> (bool \<times> blob) option" where
  "decode_block block sz res off =
     (if 1 \<le> sz \<and> sz \<le> full_encoded_block_size
      then case decoded_block_sizes sz of
             None \<Rightarrow> None
           | Some res_size \<Rightarrow>
               if res_size \<le> 0 then Some (False, res)
               else case decode_block_loop block sz 0 1 of
                      None \<Rightarrow> None
                    | Some (False, _) \<Rightarrow> Some (False, res)
                    | Some (True, res_num) \<Rightarrow>
                        if nat res_size < full_block_size \<and> push_bit (8 * nat res_size) 1 \<le> res_num
                        then Some (False, res)
                        else case uint_64_to_8be res_num (nat res_size) of
                               None \<Rightarrow> None
                             | Some bs \<Rightarrow> map_option (Pair True) (write_at res off bs)
      else None)"

subsection \<open>Strings\<close>

function encode_full_blocks :: "blob \<Rightarrow> nat \<Rightarrow> nat \<Rightarrow> blob \<Rightarrow> blob option" where
  "encode_full_blocks data full_block_count i res =
     (if i < full_block_count
      then case encode_block (drop (i * full_block_size) data) full_block_size res (i * full_encoded_block_size) of
             None \<Rightarrow> None
           | Some res \<Rightarrow> encode_full_blocks data full_block_count (i + 1) res
      else Some res)"
  by pat_completeness auto
termination by (relation "measure (\<lambda>(_, n, i, _). n - i)") auto

definition encode :: "blob \<Rightarrow> blob option" where
  "encode data =
     (if data = [] then Some []
      else let full_block_count = length data div full_block_size;
               last_block_size = length data mod full_block_size;
               res_size = full_block_count * full_encoded_block_size + encoded_block_sizes ! last_block_size;
               res = replicate res_size (alphabet ! 0)
           in case encode_full_blocks data full_block_count 0 res of
                None \<Rightarrow> None
              | Some res \<Rightarrow>
                  if 0 < last_block_size
                  then encode_block (drop (full_block_count * full_block_size) data) last_block_size
                         res (full_block_count * full_encoded_block_size)
                  else Some res)"

function decode_full_blocks :: "blob \<Rightarrow> nat \<Rightarrow> nat \<Rightarrow> blob \<Rightarrow> (bool \<times> blob) option" where
  "decode_full_blocks enc full_block_count i data =
     (if i < full_block_count
      then case decode_block (drop (i * full_encoded_block_size) enc) full_encoded_block_size data (i * full_block_size) of
             None \<Rightarrow> None
           | Some (False, data) \<Rightarrow> Some (False, data)
           | Some (True, data) \<Rightarrow> decode_full_blocks enc full_block_count (i + 1) data
      else Some (True, data))"
  by pat_completeness auto
termination by (relation "measure (\<lambda>(_, n, i, _). n - i)") auto

text \<open>\<open>std::string::resize\<close>: cut off, or extended with the given byte.\<close>

definition str_resize :: "blob \<Rightarrow> nat \<Rightarrow> u8 \<Rightarrow> blob" where
  "str_resize s n c = take n s @ replicate (n - length s) c"

text \<open>The second argument is the content of the output string before the call.\<close>

definition decode :: "blob \<Rightarrow> blob \<Rightarrow> (bool \<times> blob) option" where
  "decode enc data =
     (if enc = [] then Some (True, [])
      else let full_block_count = length enc div full_encoded_block_size;
               last_block_size = length enc mod full_encoded_block_size
           in case decoded_block_sizes last_block_size of
                None \<Rightarrow> None
              | Some last_block_decoded_size \<Rightarrow>
                  if last_block_decoded_size < 0 then Some (False, data)
                  else let data_size = full_block_count * full_block_size + nat last_block_decoded_size;
                           data = str_resize data data_size 0
                       in case decode_full_blocks enc full_block_count 0 data of
                            None \<Rightarrow> None
                          | Some (False, data) \<Rightarrow> Some (False, data)
                          | Some (True, data) \<Rightarrow>
                              if 0 < last_block_size
                              then decode_block (drop (full_block_count * full_encoded_block_size) enc)
                                     last_block_size data (full_block_count * full_block_size)
                              else Some (True, data))"

subsection \<open>Addresses\<close>

text \<open>
  The address functions call the hash through its interface; the program's functions are
  the instances with \<open>cn_fast_hash\<close>.
\<close>

definition encode_addr_with :: "(blob \<Rightarrow> blob) \<Rightarrow> u64 \<Rightarrow> blob \<Rightarrow> blob option" where
  "encode_addr_with H tag data =
     (let buf = write_varint tag @ data;
          hash = H buf;
          buf = buf @ take addr_checksum_size hash
      in encode buf)"

text \<open>The result: \<open>None\<close> is undefined behaviour, then the returned \<open>bool\<close> with the two outputs.\<close>

definition decode_addr_with :: "(blob \<Rightarrow> blob) \<Rightarrow> blob \<Rightarrow> (u64 \<times> blob) option option" where
  "decode_addr_with H addr =
     (case decode addr [] of
        None \<Rightarrow> None
      | Some (False, _) \<Rightarrow> Some None
      | Some (True, addr_data) \<Rightarrow>
          if length addr_data \<le> addr_checksum_size then Some None
          else let checksum = drop (length addr_data - addr_checksum_size) addr_data;
                   addr_data = take (length addr_data - addr_checksum_size) addr_data;
                   expected_checksum = take addr_checksum_size (H addr_data)
               in if expected_checksum \<noteq> checksum then Some None
                  else let (read, tag, _) = read_varint addr_data
                       in if read \<le> 0 then Some None
                          else Some (Some (tag, drop (nat read) addr_data)))"

definition encode_addr :: "u64 \<Rightarrow> blob \<Rightarrow> blob option" where
  "encode_addr = encode_addr_with cn_fast_hash"

definition decode_addr :: "blob \<Rightarrow> (u64 \<times> blob) option option" where
  "decode_addr = decode_addr_with cn_fast_hash"

declare uint_8be_cases.simps [simp del] encode_block_loop.simps [simp del]
  encode_full_blocks.simps [simp del] decode_full_blocks.simps [simp del]

subsection \<open>Positional notation\<close>

text \<open>The digits of a number, most significant first, and the number of a digit list.\<close>

fun digs :: "nat \<Rightarrow> nat \<Rightarrow> nat \<Rightarrow> nat list" where
  "digs b 0 v = []"
| "digs b (Suc n) v = digs b n (v div b) @ [v mod b]"

definition undigs :: "nat \<Rightarrow> nat list \<Rightarrow> nat" where
  "undigs b ds = foldl (\<lambda>v d. v * b + d) 0 ds"

lemma undigs_simps [simp]:
  "undigs b [] = 0" "undigs b (ds @ [d]) = undigs b ds * b + d"
  by (simp_all add: undigs_def)

lemma length_digs [simp]: "length (digs b n v) = n"
  by (induction n arbitrary: v) auto

lemma digs_0 [simp]: "digs b n 0 = replicate n 0"
  by (induction n) (auto simp: replicate_append_same)

lemma set_digs: "0 < b \<Longrightarrow> d \<in> set (digs b n v) \<Longrightarrow> d < b"
  by (induction n arbitrary: v) auto

lemma undigs_digs: "v < b ^ n \<Longrightarrow> undigs b (digs b n v) = v"
proof (induction n arbitrary: v)
  case (Suc n)
  then have "v div b < b ^ n" by (simp add: less_mult_imp_div_less mult.commute)
  with Suc.IH show ?case by simp
qed simp

lemma digs_undigs: "\<forall>d \<in> set ds. d < b \<Longrightarrow> digs b (length ds) (undigs b ds) = ds"
  by (induction ds rule: rev_induct) auto

lemma undigs_less: "\<forall>d \<in> set ds. d < b \<Longrightarrow> undigs b ds < b ^ length ds"
proof (induction ds rule: rev_induct)
  case (snoc d ds)
  then have "Suc (undigs b ds) * b \<le> b ^ length ds * b" by (intro mult_le_mono1) simp
  with snoc.prems show ?case by (simp add: mult.commute)
qed simp

text \<open>Bytes as digits to the base 256.\<close>

definition be_val :: "blob \<Rightarrow> nat" where
  "be_val bs = undigs 256 (map unat bs)"

definition be_bytes :: "nat \<Rightarrow> nat \<Rightarrow> blob" where
  "be_bytes n v = map of_nat (digs 256 n v)"

lemma length_be_bytes [simp]: "length (be_bytes n v) = n"
  by (simp add: be_bytes_def)

lemma be_val_less: "be_val bs < 256 ^ length bs"
  using undigs_less [of "map unat bs" 256] unat_less_u8 by (auto simp: be_val_def)

lemma be_bytes_val: "be_bytes (length bs) (be_val bs) = bs"
proof -
  have "digs 256 (length bs) (be_val bs) = map unat bs"
    using digs_undigs [of "map unat bs" 256] unat_less_u8 by (auto simp: be_val_def)
  then show ?thesis by (simp add: be_bytes_def comp_def)
qed

lemma be_val_bytes: "v < 256 ^ n \<Longrightarrow> be_val (be_bytes n v) = v"
proof -
  assume v: "v < 256 ^ n"
  have "map unat (be_bytes n v) = digs 256 n v"
    using set_digs [of 256 _ n v]
    by (auto simp: be_bytes_def unat_of_nat intro!: map_idI)
  with v show ?thesis by (simp add: be_val_def undigs_digs)
qed

subsection \<open>Tables\<close>

lemma alphabet_bytes: "alphabet =
  [49, 50, 51, 52, 53, 54, 55, 56, 57, 65, 66, 67, 68, 69, 70, 71, 72, 74, 75, 76, 77, 78, 80,
   81, 82, 83, 84, 85, 86, 87, 88, 89, 90, 97, 98, 99, 100, 101, 102, 103, 104, 105, 106, 107,
   109, 110, 111, 112, 113, 114, 115, 116, 117, 118, 119, 120, 121, 122]"
  by (simp add: alphabet_def)

lemma length_alphabet [simp]: "length alphabet = 58"
  by (simp add: alphabet_bytes)

lemma reverse_alphabet_data_eq: "reverse_alphabet_data =
  [0, 1, 2, 3, 4, 5, 6, 7, 8, -1, -1, -1, -1, -1, -1, -1, 9, 10, 11, 12, 13, 14, 15, 16, -1, 17,
   18, 19, 20, 21, -1, 22, 23, 24, 25, 26, 27, 28, 29, 30, 31, 32, -1, -1, -1, -1, -1, -1, 33, 34,
   35, 36, 37, 38, 39, 40, 41, 42, 43, -1, 44, 45, 46, 47, 48, 49, 50, 51, 52, 53, 54, 55, 56, 57]"
  by code_simp

lemma reverse_alphabet_index:
  "reverse_alphabet x =
     (if 49 \<le> sint x \<and> sint x < 123 then reverse_alphabet_data ! nat (sint x - 49) else - 1)"
proof -
  have r: "- 128 \<le> sint x" "sint x < 128"
    using sint_greater_eq [of x] sint_less [of x] by simp_all
  have a0: "sint (alphabet ! 0) = 49" by (simp add: alphabet_bytes)
  have len: "length reverse_alphabet_data = 74" by (simp add: reverse_alphabet_data_eq)
  have u: "unat (word_of_int (sint x - 49) :: u64) =
      (if 49 \<le> sint x then nat (sint x - 49) else nat (sint x - 49 + 18446744073709551616))"
  proof -
    have "uint (word_of_int (sint x - 49) :: u64) = (sint x - 49) mod 18446744073709551616"
      by (simp only: uint_word_of_int) simp
    also have "\<dots> = (if 49 \<le> sint x then sint x - 49 else sint x - 49 + 18446744073709551616)"
      using r mod_add_self2 [of "sint x - 49" 18446744073709551616, symmetric]
      by (auto simp: mod_pos_pos_trivial)
    finally show ?thesis by (auto simp: unat_eq_nat_uint)
  qed
  show ?thesis unfolding reverse_alphabet_def Let_def a0 len u using r by auto
qed

lemma alphabet_table:
  "\<forall>i \<in> set [0..<74]. 0 \<le> reverse_alphabet_data ! i \<longrightarrow>
     nat (reverse_alphabet_data ! i) < 58 \<and> alphabet ! nat (reverse_alphabet_data ! i) = of_nat (i + 49)"
  unfolding reverse_alphabet_data_eq alphabet_bytes by code_simp

lemma alphabet_index_table:
  "\<forall>d \<in> set [0..<58]. sint (alphabet ! d) \<in> {49..122} \<and>
     reverse_alphabet_data ! nat (sint (alphabet ! d) - 49) = int d"
  unfolding reverse_alphabet_data_eq alphabet_bytes by code_simp

lemma reverse_alphabet_alphabet: "d < 58 \<Longrightarrow> reverse_alphabet (alphabet ! d) = int d"
proof -
  assume "d < 58"
  then have "d \<in> set [0..<58]" by simp
  from bspec [OF alphabet_index_table this] show ?thesis by (auto simp: reverse_alphabet_index)
qed

lemma alphabet_reverse_alphabet:
  assumes "0 \<le> reverse_alphabet x"
  shows "nat (reverse_alphabet x) < 58" and "alphabet ! nat (reverse_alphabet x) = x"
proof -
  have x: "49 \<le> sint x" "sint x < 123"
    and d: "reverse_alphabet x = reverse_alphabet_data ! nat (sint x - 49)"
    using assms by (auto simp: reverse_alphabet_index split: if_splits)
  have "nat (sint x - 49) \<in> set [0..<74]" using x by auto
  from bspec [OF alphabet_table this] assms
  have "nat (reverse_alphabet x) < 58 \<and>
      alphabet ! nat (reverse_alphabet x) = of_nat (nat (sint x - 49) + 49)" unfolding d by blast
  moreover have "of_nat (nat (sint x - 49) + 49) = x"
  proof -
    have e: "int (nat (sint x - 49) + 49) = sint x" using x by simp
    have "of_nat (nat (sint x - 49) + 49) = (of_int (int (nat (sint x - 49) + 49)) :: u8)"
      by (rule of_int_of_nat_eq [symmetric])
    also have "\<dots> = x" unfolding e by simp
    finally show ?thesis .
  qed
  ultimately show "nat (reverse_alphabet x) < 58" "alphabet ! nat (reverse_alphabet x) = x"
    by auto
qed

text \<open>The block sizes: \<open>k\<close> bytes need \<open>encoded_block_sizes ! k\<close> digits, and the inverse table.\<close>

lemma full_sizes [simp]: "full_block_size = 8" "full_encoded_block_size = 11"
  by (simp_all add: full_block_size_def full_encoded_block_size_def encoded_block_sizes_def)

lemma decoded_block_sizes_data_eq:
  "decoded_block_sizes_data = [0, -1, 1, 2, -1, 3, 4, 5, -1, 6, 7, 8]"
  by code_simp

lemma encoded_size_fits:
  "k \<le> 8 \<Longrightarrow> 256 ^ k \<le> (58 :: nat) ^ (encoded_block_sizes ! k)"
proof -
  assume "k \<le> 8"
  then have "k \<in> {0, 1, 2, 3, 4, 5, 6, 7, 8}" by auto
  then show ?thesis by (elim insertE emptyE) (simp_all add: encoded_block_sizes_def)
qed

lemma encoded_size_inverse:
  assumes "n \<le> 11" and "0 < decoded_block_sizes_data ! n"
  shows "nat (decoded_block_sizes_data ! n) \<le> 8"
    and "encoded_block_sizes ! nat (decoded_block_sizes_data ! n) = n"
    and "nat (decoded_block_sizes_data ! n) = 8 \<longleftrightarrow> n = 11"
proof -
  have "\<forall>n \<in> set [0..<12]. 0 < decoded_block_sizes_data ! n \<longrightarrow>
      nat (decoded_block_sizes_data ! n) \<le> 8 \<and>
      encoded_block_sizes ! nat (decoded_block_sizes_data ! n) = n \<and>
      (nat (decoded_block_sizes_data ! n) = 8 \<longleftrightarrow> n = 11)" by code_simp
  then show "nat (decoded_block_sizes_data ! n) \<le> 8"
    "encoded_block_sizes ! nat (decoded_block_sizes_data ! n) = n"
    "nat (decoded_block_sizes_data ! n) = 8 \<longleftrightarrow> n = 11" using assms by auto
qed

lemma decoded_size_encoded:
  assumes "1 \<le> k" and "k \<le> 8"
  shows "decoded_block_sizes_data ! (encoded_block_sizes ! k) = int k"
    and "encoded_block_sizes ! k \<le> 11" and "1 \<le> encoded_block_sizes ! k"
    and "encoded_block_sizes ! k = 11 \<longleftrightarrow> k = 8"
proof -
  have "\<forall>k \<in> set [1..<9]. decoded_block_sizes_data ! (encoded_block_sizes ! k) = int k \<and>
      encoded_block_sizes ! k \<le> 11 \<and> 1 \<le> encoded_block_sizes ! k \<and>
      (encoded_block_sizes ! k = 11 \<longleftrightarrow> k = 8)" by code_simp
  then show "decoded_block_sizes_data ! (encoded_block_sizes ! k) = int k"
    "encoded_block_sizes ! k \<le> 11" "1 \<le> encoded_block_sizes ! k"
    "encoded_block_sizes ! k = 11 \<longleftrightarrow> k = 8" using assms by auto
qed

subsection \<open>Blocks\<close>

text \<open>
  The specification of a block: its bytes are a big-endian number, written with the fixed
  number of base-58 digits; decoding accepts exactly the digit strings of a valid length whose
  number fits the bytes.
\<close>

definition enc_blk :: "blob \<Rightarrow> blob" where
  "enc_blk bs = map ((!) alphabet) (digs 58 (encoded_block_sizes ! length bs) (be_val bs))"

definition digit_val :: "blob \<Rightarrow> nat" where
  "digit_val e = undigs 58 (map (\<lambda>x. nat (reverse_alphabet x)) e)"

definition dec_blk :: "blob \<Rightarrow> blob option" where
  "dec_blk e =
     (let k = decoded_block_sizes_data ! length e
      in if 0 < k \<and> (\<forall>x \<in> set e. 0 \<le> reverse_alphabet x) \<and> digit_val e < 256 ^ nat k
         then Some (be_bytes (nat k) (digit_val e)) else None)"

lemma length_enc_blk [simp]: "length (enc_blk bs) = encoded_block_sizes ! length bs"
  by (simp add: enc_blk_def)

lemma digit_val_alphabet:
  assumes "\<forall>d \<in> set ds. d < 58"
  shows "digit_val (map ((!) alphabet) ds) = undigs 58 ds"
    and "\<forall>x \<in> set (map ((!) alphabet) ds). 0 \<le> reverse_alphabet x"
proof -
  have "map ((\<lambda>x. nat (reverse_alphabet x)) \<circ> (!) alphabet) ds = ds"
    using assms by (intro map_idI) (simp add: reverse_alphabet_alphabet)
  then show "digit_val (map ((!) alphabet) ds) = undigs 58 ds" by (simp add: digit_val_def)
  show "\<forall>x \<in> set (map ((!) alphabet) ds). 0 \<le> reverse_alphabet x"
    using assms by (simp add: reverse_alphabet_alphabet)
qed

lemma dec_enc_blk:
  assumes "bs \<noteq> []" and "length bs \<le> 8"
  shows "dec_blk (enc_blk bs) = Some bs"
proof -
  have k: "1 \<le> length bs" using assms(1) by (simp add: Suc_leI)
  note sz = decoded_size_encoded [OF k assms(2)]
  have v: "be_val bs < 58 ^ (encoded_block_sizes ! length bs)"
    using be_val_less [of bs] encoded_size_fits [OF assms(2)] by (rule less_le_trans)
  have d: "\<forall>d \<in> set (digs 58 (encoded_block_sizes ! length bs) (be_val bs)). d < 58"
    using set_digs [of 58] by auto
  show ?thesis
    using assms(1) digit_val_alphabet [OF d] be_val_less [of bs]
    by (simp add: dec_blk_def Let_def sz(1) undigs_digs [OF v] be_bytes_val flip: enc_blk_def)
qed

lemma enc_dec_blk:
  assumes "dec_blk e = Some bs" and "length e \<le> 11"
  shows "enc_blk bs = e" and "length bs = nat (decoded_block_sizes_data ! length e)"
    and "0 < decoded_block_sizes_data ! length e"
proof -
  let ?k = "decoded_block_sizes_data ! length e"
  have k: "0 < ?k" and dig: "\<forall>x \<in> set e. 0 \<le> reverse_alphabet x"
    and fit: "digit_val e < 256 ^ nat ?k" and bs: "bs = be_bytes (nat ?k) (digit_val e)"
    using assms(1) by (auto simp: dec_blk_def Let_def split: if_splits)
  have "digs 58 (length e) (digit_val e) = map (\<lambda>x. nat (reverse_alphabet x)) e"
    using digs_undigs [of "map (\<lambda>x. nat (reverse_alphabet x)) e" 58] dig alphabet_reverse_alphabet(1)
    by (simp add: digit_val_def)
  then have "map ((!) alphabet) (digs 58 (length e) (digit_val e)) = e"
    using dig alphabet_reverse_alphabet(2) by (simp add: map_idI)
  then show "enc_blk bs = e"
    using encoded_size_inverse(2) [OF assms(2) k] by (simp add: enc_blk_def bs be_val_bytes fit)
  show "length bs = nat ?k" "0 < ?k" using bs k by simp_all
qed

text \<open>The number of a block as the code computes it.\<close>

lemma or_byte: "unat (push_bit 8 r OR ucast (b :: u8) :: u64) = unat r * 256 + unat b"
  if "unat r < 72057594037927936" for r
  using unat_push_or [of "ucast b" 8 r] that unat_less_u8 [of b] by (simp add: unat_rules)

lemma uint_8be_cases_value:
  assumes "1 \<le> k" and "9 - k \<le> length data" and "unat res < 256 ^ (k - 1)"
    and "k = 1 \<longrightarrow> res = 0"
  shows "\<exists>r. uint_8be_cases k res data = Some r \<and>
    unat r = foldl (\<lambda>v d. v * 256 + d) (unat res) (map unat (take (9 - k) data))"
  using assms
proof (induction k res data rule: uint_8be_cases.induct)
  case (1 k res data)
  show ?case
  proof (cases "8 < k")
    case True
    then show ?thesis by (simp add: uint_8be_cases.simps [of k])
  next
    case False
    then obtain b data' where data: "data = b # data'" using 1(3) by (cases data) auto
    have "(256 :: nat) ^ (k - 1) \<le> 256 ^ 7" using False by (intro power_increasing) auto
    then have r: "unat res < 72057594037927936" using 1(4) by simp
    let ?r = "(if k = 1 then res else push_bit 8 res) OR ucast b"
    have u: "unat ?r = unat res * 256 + unat b"
      using or_byte [OF r, of b] 1(5) by (auto simp: unat_rules)
    have "(unat res + 1) * 256 \<le> 256 ^ (k - 1) * 256" using 1(4) by (intro mult_le_mono1) simp
    also have "\<dots> = 256 ^ (k + 1 - 1)" using 1(2) by (cases k) auto
    finally have lt: "unat ?r < 256 ^ (k + 1 - 1)" using u unat_less_u8 [of b] by simp
    have "take (9 - k) data = b # take (9 - (k + 1)) data'"
      using False data by (simp add: take_Cons' )
    moreover have "uint_8be_cases k res data = uint_8be_cases (k + 1) ?r data'"
      using False data by (subst uint_8be_cases.simps) simp
    ultimately show ?thesis
      using 1(1) [OF False data _ _ lt] 1(2,3) data u False by simp
  qed
qed

lemma uint_8be_to_64_value:
  assumes "1 \<le> sz" and "sz \<le> 8" and "sz \<le> length data"
  shows "\<exists>r. uint_8be_to_64 data sz = Some r \<and> unat r = be_val (take sz data)"
  using uint_8be_cases_value [of "9 - sz" data 0] assms
  by (simp add: uint_8be_to_64_def be_val_def undigs_def)

lemma of_nat_u8_mod: "of_nat (v mod 256) = (of_nat v :: u8)"
  by (simp add: word_unat_eq_iff unat_of_nat)

lemma be_bytes_upt: "be_bytes n v = rev (map (\<lambda>i. of_nat (v div 256 ^ i)) [0..<n])"
proof (induction n arbitrary: v)
  case (Suc n)
  have "[0..<Suc n] = 0 # map Suc [0..<n]" by (simp add: upt_conv_Cons map_Suc_upt del: upt_Suc)
  moreover have "be_bytes (Suc n) v = be_bytes n (v div 256) @ [of_nat v]"
    by (simp add: be_bytes_def of_nat_u8_mod)
  ultimately show ?case
    by (simp add: Suc.IH comp_def div_mult2_eq mult.commute del: upt_Suc)
qed (simp add: be_bytes_def)

lemma uint_64_to_8be_value:
  assumes "1 \<le> sz" and "sz \<le> 8"
  shows "uint_64_to_8be num sz = Some (be_bytes sz (unat num))"
proof -
  have "byte_at i num = of_nat (unat num div 256 ^ i)" for i
    by (simp add: word_unat_eq_iff unat_byte_at unat_of_nat)
  then have l: "le_bytes num = map (\<lambda>i. of_nat (unat num div 256 ^ i)) [0..<8]"
    by (simp add: le_bytes_def upt_rec)
  have "drop (8 - sz) (rev (le_bytes num)) = rev (take sz (le_bytes num))"
    using assms by (simp add: rev_take)
  also have "\<dots> = be_bytes sz (unat num)"
    using assms by (simp add: l be_bytes_upt take_map take_upt)
  finally show ?thesis using assms by (simp add: uint_64_to_8be_def le_bytes_SWAP64)
qed

text \<open>
  The digit loop fills the slots from the right and stops at zero: with the slots preset to
  the first letter the result is the full digit string.
\<close>

lemma alphabet_0: "alphabet ! 0 = 49"
  by (simp add: alphabet_bytes)

lemma encode_block_loop_digits:
  assumes "unat num < 58 ^ n"
  shows "encode_block_loop num (int (length pre) + (int n - 1)) (pre @ replicate n 49 @ post) =
    Some (pre @ map ((!) alphabet) (digs 58 n (unat num)) @ post)"
  using assms
proof (induction n arbitrary: num post)
  case 0
  then have "num = 0" by (simp add: unat_eq_zero)
  then show ?case by (subst encode_block_loop.simps) simp
next
  case (Suc n)
  show ?case
  proof (cases "num = 0")
    case True
    then show ?thesis by (subst encode_block_loop.simps) (simp add: alphabet_0 map_replicate)
  next
    case False
    have u: "unat (num div 58) = unat num div 58" "unat (num mod 58) = unat num mod 58"
      by (simp_all add: unat_div unat_mod)
    have lt: "unat (num div 58) < 58 ^ n"
      using Suc.prems by (simp add: u less_mult_imp_div_less mult.commute)
    let ?c = "alphabet ! (unat num mod 58)"
    have "replicate (Suc n) (49 :: u8) = replicate n 49 @ [49]"
      by (simp add: replicate_append_same)
    then have "(pre @ replicate (Suc n) 49 @ post)[length pre + n := ?c] = pre @ replicate n 49 @ ?c # post"
      by (simp add: list_update_append del: replicate.simps)
    then have "encode_block_loop num (int (length pre) + (int (Suc n) - 1)) (pre @ replicate (Suc n) 49 @ post) =
        encode_block_loop (num div 58) (int (length pre) + (int n - 1)) (pre @ replicate n 49 @ ?c # post)"
      using False by (subst encode_block_loop.simps)
        (simp add: word_greater_zero_iff Let_def u nat_add_distrib add_diff_eq del: replicate.simps)
    then show ?thesis using Suc.IH [OF lt, of "?c # post"] by (simp add: u)
  qed
qed

lemma encode_block_spec:
  assumes "1 \<le> sz" and "sz \<le> 8" and "sz \<le> length d" and "off = length pre"
    and "n = encoded_block_sizes ! sz"
  shows "encode_block d sz (pre @ replicate n 49 @ post) off = Some (pre @ enc_blk (take sz d) @ post)"
proof -
  obtain r where r: "uint_8be_to_64 d sz = Some r" "unat r = be_val (take sz d)"
    using uint_8be_to_64_value [OF assms(1-3)] by blast
  have "be_val (take sz d) < 256 ^ sz" using be_val_less [of "take sz d"] assms(3) by (simp add: min_absorb2)
  then have "unat r < 58 ^ n" using encoded_size_fits [OF assms(2)] r(2) assms(5) by simp
  from encode_block_loop_digits [OF this, of pre post] show ?thesis
    using assms r by (simp add: encode_block_def enc_blk_def min_absorb2)
qed

text \<open>
  What a routine that returns \<open>bool\<close> and fills a buffer amounts to: undefined, failed, or the
  buffer.
\<close>

definition outcome :: "(bool \<times> 'b) option \<Rightarrow> 'b option option" where
  "outcome r = map_option (\<lambda>(ok, x). if ok then Some x else None) r"

lemma outcome_simps [simp]:
  "outcome None = None" "outcome (Some (True, x)) = Some (Some x)" "outcome (Some (False, x)) = Some None"
  by (simp_all add: outcome_def)

lemma outcome_Some_Some: "outcome r = Some (Some x) \<longleftrightarrow> r = Some (True, x)"
  by (auto simp: outcome_def split: if_splits)

lemma decode_block_loop_value:
  assumes "n \<le> length block" and "order = of_nat (58 ^ k)" and "k + n \<le> 11"
  shows "outcome (decode_block_loop block n r order) =
    Some (if (\<forall>x \<in> set (take n block). 0 \<le> reverse_alphabet x) \<and>
             unat r + 58 ^ k * digit_val (take n block) < 18446744073709551616
          then Some (of_nat (unat r + 58 ^ k * digit_val (take n block))) else None)"
  using assms
proof (induction n arbitrary: k r order)
  case 0
  then show ?case using unat_less_u64 [of r] by (simp add: digit_val_def)
next
  case (Suc i)
  let ?x = "block ! i" let ?d = "reverse_alphabet ?x" let ?v = "digit_val (take i block)"
  have tk: "take (Suc i) block = take i block @ [?x]"
    using Suc.prems(1) by (simp add: take_Suc_conv_app_nth)
  have v: "digit_val (take (Suc i) block) = ?v * 58 + nat ?d"
    by (simp add: tk digit_val_def)
  show ?case
  proof (cases "?d < 0")
    case True
    then show ?thesis using Suc.prems(1) by (simp add: tk)
  next
    case False
    have "(58 :: nat) ^ k \<le> 58 ^ 10" using Suc.prems(3) by (intro power_increasing) auto
    then have "(58 :: nat) ^ k < 18446744073709551616" by simp
    then have o: "unat order = 58 ^ k" unfolding Suc.prems(2) by (rule unat_of_nat_u64)
    have d: "unat (word_of_int ?d :: u64) = nat ?d"
      using False alphabet_reverse_alphabet(1) [of ?x] by (simp add: unat_of_int_u64)
    let ?p = "mul128 order (word_of_int ?d)"
    have hi: "snd ?p = 0 \<longleftrightarrow> 58 ^ k * nat ?d < 18446744073709551616"
      by (simp add: m128.mul_high_zero o d)
    show ?thesis
    proof (cases "r + fst ?p < r \<or> snd ?p \<noteq> 0")
      case True
      have "18446744073709551616 \<le> unat r + 58 ^ k * nat ?d"
        using True hi m128.mul_low_exact [of order "word_of_int ?d"] o d by (auto simp: add_wraps_iff)
      then have "\<not> unat r + 58 ^ k * digit_val (take (Suc i) block) < 18446744073709551616"
        by (simp add: v algebra_simps)
      with True False Suc.prems(1) show ?thesis by (auto simp: split_def Let_def)
    next
      case ok: False
      have p: "unat (fst ?p) = 58 ^ k * nat ?d" using ok m128.mul_low_exact o d by simp
      have r': "unat (r + fst ?p) = unat r + 58 ^ k * nat ?d"
        using ok p by (simp add: add_wraps_iff unat_rules)
      have o': "order * 58 = of_nat (58 ^ Suc k)" using Suc.prems(2) by simp
      have t: "unat (r + fst ?p) + 58 ^ Suc k * ?v = unat r + 58 ^ k * digit_val (take (Suc i) block)"
        by (simp add: r' v algebra_simps)
      have st: "decode_block_loop block (Suc i) r order = decode_block_loop block i (r + fst ?p) (order * 58)"
        using ok False Suc.prems(1) by (simp add: split_def Let_def)
      have al: "(\<forall>x \<in> set (take (Suc i) block). 0 \<le> reverse_alphabet x) \<longleftrightarrow>
          (\<forall>x \<in> set (take i block). 0 \<le> reverse_alphabet x)"
        using False by (auto simp: tk)
      have "i \<le> length block" "Suc k + i \<le> 11" using Suc.prems by simp_all
      then show ?thesis using Suc.IH [OF _ o', of "r + fst ?p"] unfolding st al t by blast
    qed
  qed
qed

lemma decode_block_spec:
  assumes "1 \<le> sz" and "sz \<le> 11" and "sz \<le> length block"
    and "off + nat (decoded_block_sizes_data ! sz) \<le> length res"
  shows "outcome (decode_block block sz res off) =
    Some (map_option (\<lambda>bs. take off res @ bs @ drop (off + length bs) res) (dec_blk (take sz block)))"
proof (cases "0 < decoded_block_sizes_data ! sz")
  case True
  let ?k = "nat (decoded_block_sizes_data ! sz)" let ?e = "take sz block"
  have len: "length ?e = sz" using assms(3) by simp
  have k: "1 \<le> ?k" "?k \<le> 8" using True encoded_size_inverse(1) [OF assms(2)] by simp_all
  have db: "decoded_block_sizes sz = Some (decoded_block_sizes_data ! sz)"
    using assms(2) by (simp add: decoded_block_sizes_def)
  have lim: "unat (push_bit (8 * ?k) 1 :: u64) = 256 ^ ?k" if "?k < 8"
  proof -
    have "(256 :: nat) ^ ?k \<le> 256 ^ 7" using that by (intro power_increasing) auto
    then show ?thesis using unat_push_bit_u64 [of "8 * ?k" 1] by (simp add: power_mult del: push_bit_of_1)
  qed
  have loop: "outcome (decode_block_loop block sz 0 1) =
      Some (if (\<forall>x \<in> set ?e. 0 \<le> reverse_alphabet x) \<and> digit_val ?e < 18446744073709551616
            then Some (of_nat (digit_val ?e)) else None)"
    using decode_block_loop_value [of sz block 1 0 0] assms by simp
  show ?thesis
  proof (cases "(\<forall>x \<in> set ?e. 0 \<le> reverse_alphabet x) \<and> digit_val ?e < 18446744073709551616")
    case True
    then have l: "decode_block_loop block sz 0 1 = Some (True, of_nat (digit_val ?e))"
      using loop by (simp add: outcome_Some_Some)
    have n: "unat (of_nat (digit_val ?e) :: u64) = digit_val ?e"
      using True by (simp add: unat_of_nat_u64)
    have "?k < 8 \<and> push_bit (8 * ?k) 1 \<le> (of_nat (digit_val ?e) :: u64) \<longleftrightarrow> \<not> digit_val ?e < 256 ^ ?k"
      using lim k True by (cases "?k < 8") (auto simp: word_le_nat_alt n)
    then show ?thesis
      using \<open>0 < decoded_block_sizes_data ! sz\<close> assms(1,2,4) True len n k
      by (simp add: decode_block_def db l dec_blk_def Let_def uint_64_to_8be_value write_at_def)
  next
    case False
    then obtain x where l: "decode_block_loop block sz 0 1 = Some (False, x)"
      using loop by (auto simp: outcome_def split: if_splits)
    have "(256 :: nat) ^ ?k \<le> 256 ^ 8" using k by (intro power_increasing) auto
    then have "dec_blk ?e = None" using False len by (auto simp: dec_blk_def Let_def)
    with \<open>0 < decoded_block_sizes_data ! sz\<close> show ?thesis
      using assms(1,2) by (simp add: decode_block_def db l)
  qed
next
  case False
  then show ?thesis
    using assms by (simp add: decode_block_def decoded_block_sizes_def dec_blk_def Let_def)
qed

subsection \<open>Strings\<close>

text \<open>The specification of whole strings: block by block.\<close>

fun enc_ref :: "blob \<Rightarrow> blob" where
  "enc_ref d = (if d = [] then [] else enc_blk (take 8 d) @ enc_ref (drop 8 d))"

fun dec_ref :: "blob \<Rightarrow> blob option" where
  "dec_ref e =
     (if e = [] then Some []
      else case dec_blk (take 11 e) of
             None \<Rightarrow> None
           | Some b \<Rightarrow> map_option (\<lambda>d. b @ d) (dec_ref (drop 11 e)))"

declare enc_ref.simps [simp del] dec_ref.simps [simp del]

lemma ref_Nil [simp]: "enc_ref [] = []" "dec_ref [] = Some []"
  by (simp_all add: enc_ref.simps dec_ref.simps)

lemma enc_ref_append8: "length xs = 8 \<Longrightarrow> enc_ref (xs @ ys) = enc_blk xs @ enc_ref ys"
  by (subst enc_ref.simps) auto

lemma enc_ref_short: "xs \<noteq> [] \<Longrightarrow> length xs \<le> 8 \<Longrightarrow> enc_ref xs = enc_blk xs"
  by (subst enc_ref.simps) simp

lemma dec_ref_append11:
  "length xs = 11 \<Longrightarrow> dec_ref (xs @ ys) =
     (case dec_blk xs of None \<Rightarrow> None | Some b \<Rightarrow> map_option (\<lambda>d. b @ d) (dec_ref ys))"
  using dec_ref.simps [of "xs @ ys"] by (cases xs) (auto split: option.splits)

lemma dec_ref_short:
  "xs \<noteq> [] \<Longrightarrow> length xs \<le> 11 \<Longrightarrow> dec_ref xs = dec_blk xs"
  by (subst dec_ref.simps) (auto split: option.splits)

lemma enc_blk_sizes: "bs \<noteq> [] \<Longrightarrow> length bs \<le> 8 \<Longrightarrow>
    length (enc_blk bs) \<le> 11 \<and> enc_blk bs \<noteq> [] \<and> (length (enc_blk bs) = 11 \<longleftrightarrow> length bs = 8)"
  using decoded_size_encoded [of "length bs"] length_enc_blk [of bs]
  by (metis One_nat_def Suc_leI length_greater_0_conv not_one_le_zero list.size(3))

lemma dec_enc_ref: "dec_ref (enc_ref d) = Some d"
proof (induction d rule: enc_ref.induct)
  case (1 d)
  show ?case
  proof (cases "8 \<le> length d")
    case True
    then have d: "take 8 d \<noteq> []" "length (take 8 d) = 8" by auto
    have "dec_ref (enc_blk (take 8 d) @ enc_ref (drop 8 d)) = Some (take 8 d @ drop 8 d)"
      using 1 True d dec_enc_blk [OF d(1)] enc_blk_sizes [OF d(1)]
      by (subst dec_ref_append11) auto
    moreover have "enc_ref d = enc_blk (take 8 d) @ enc_ref (drop 8 d)"
      using d(1) by (subst enc_ref.simps) auto
    ultimately show ?thesis by simp
  next
    case False
    then show ?thesis
      using enc_blk_sizes [of d] dec_enc_blk [of d]
      by (cases "d = []") (auto simp: enc_ref_short dec_ref_short)
  qed
qed

lemma enc_dec_ref: "dec_ref e = Some d \<Longrightarrow> enc_ref d = e"
proof (induction e arbitrary: d rule: dec_ref.induct)
  case (1 e)
  show ?case
  proof (cases "11 \<le> length e")
    case True
    then have l: "length (take 11 e) = 11" "take 11 e \<noteq> []" by auto
    have e: "dec_ref e = dec_ref (take 11 e @ drop 11 e)" by simp
    obtain b r where b: "dec_blk (take 11 e) = Some b" "dec_ref (drop 11 e) = Some r" "d = b @ r"
      using 1(2) unfolding e dec_ref_append11 [OF l(1)] by (auto split: option.splits)
    have "length b = 8" "enc_blk b = take 11 e"
      using enc_dec_blk [OF b(1)] l by (simp_all add: decoded_block_sizes_data_eq)
    moreover have "enc_ref r = drop 11 e" using 1(1) [OF _ b(1,2)] True by force
    ultimately show ?thesis using b(3) by (simp add: enc_ref_append8)
  next
    case False
    show ?thesis
    proof (cases "e = []")
      case ne: False
      then have "dec_blk e = Some d" using 1(2) False by (simp add: dec_ref_short)
      from enc_dec_blk [OF this] False
      have *: "enc_blk d = e" "length d = nat (decoded_block_sizes_data ! length e)"
        "0 < decoded_block_sizes_data ! length e" by auto
      then have "d \<noteq> []" "length d \<le> 8" using encoded_size_inverse(1) [of "length e"] False by auto
      then show ?thesis using * by (simp add: enc_ref_short)
    qed (use 1(2) in simp)
  qed
qed

text \<open>The loops over the blocks compute the specification.\<close>

lemma take_drop_block:
  "take (b * Suc m) (drop (b * i) xs) = take b (drop (b * i) xs) @ take (b * m) (drop (b * (i + 1)) xs)"
  using take_add [of b "b * m" "drop (b * i) xs"] by (simp add: algebra_simps)

lemma encode_full_blocks_spec:
  assumes "8 * (i + m) \<le> length data" and "length pre = 11 * i"
  shows "encode_full_blocks data (i + m) i (pre @ replicate (11 * m) 49 @ post) =
    Some (pre @ enc_ref (take (8 * m) (drop (8 * i) data)) @ post)"
  using assms
proof (induction m arbitrary: i pre)
  case (Suc m)
  let ?b = "take 8 (drop (8 * i) data)"
  have blk: "encode_block (drop (i * 8) data) 8 (pre @ replicate 11 49 @ (replicate (11 * m) 49 @ post)) (i * 11) =
      Some (pre @ enc_blk ?b @ (replicate (11 * m) 49 @ post))"
    unfolding mult.commute [of 8 i]
    by (rule encode_block_spec) (use Suc.prems in \<open>simp_all add: encoded_block_sizes_def\<close>)
  have sp: "replicate (11 * Suc m) (49 :: u8) = replicate 11 49 @ replicate (11 * m) 49"
    by (simp only: mult_Suc_right replicate_add)
  have "encode_full_blocks data (i + Suc m) i (pre @ replicate (11 * Suc m) 49 @ post) =
      encode_full_blocks data (i + Suc m) (i + 1) ((pre @ enc_blk ?b) @ replicate (11 * m) 49 @ post)"
    using blk unfolding sp by (subst encode_full_blocks.simps) simp
  moreover have "length (pre @ enc_blk ?b) = 11 * (i + 1)" and l8: "length ?b = 8"
    using Suc.prems by (simp_all add: encoded_block_sizes_def)
  ultimately show ?case
    using Suc.IH [of "i + 1" "pre @ enc_blk ?b"] Suc.prems enc_ref_append8 [OF l8]
    unfolding take_drop_block [of 8 m i data] by simp
qed (subst encode_full_blocks.simps, simp)

lemma enc_ref_full:
  assumes "length xs = 8 * m"
  shows "enc_ref (xs @ ys) = enc_ref xs @ enc_ref ys" and "length (enc_ref xs) = 11 * m"
proof -
  have "enc_ref (xs @ ys) = enc_ref xs @ enc_ref ys \<and> length (enc_ref xs) = 11 * m"
    using assms
  proof (induction m arbitrary: xs)
    case (Suc m)
    obtain a b where ab: "xs = a @ b" "length a = 8" "length b = 8 * m"
      using Suc.prems by (intro that [of "take 8 xs" "drop 8 xs"]) auto
    then show ?case using Suc.IH [OF ab(3)] by (simp add: enc_ref_append8 encoded_block_sizes_def)
  qed simp
  then show "enc_ref (xs @ ys) = enc_ref xs @ enc_ref ys" "length (enc_ref xs) = 11 * m" by simp_all
qed

lemma encode_spec: "encode d = Some (enc_ref d)"
proof (cases "d = []")
  case False
  define n l where "n = length d div 8" and "l = length d mod 8"
  define x y where "x = take (8 * n) d" and "y = drop (8 * n) d"
  have d: "d = x @ y" "length x = 8 * n" "length y = l" "l < 8"
    by (auto simp: n_def l_def x_def y_def minus_mult_div_eq_mod)
  let ?c = "encoded_block_sizes ! l"
  have full: "encode_full_blocks d n 0 (replicate (11 * n + ?c) 49) = Some (enc_ref x @ replicate ?c 49)"
    using encode_full_blocks_spec [of 0 n d "[]" "replicate ?c 49"] d(2)
    by (simp add: replicate_add x_def)
  have last: "encode_block y l (enc_ref x @ replicate ?c 49) (11 * n) = Some (enc_ref x @ enc_ref y)" if "l \<noteq> 0"
    using encode_block_spec [of l y "11 * n" "enc_ref x" ?c "[]"] that d enc_ref_full(2) [OF d(2)]
    by (auto simp: enc_ref_short)
  have "encode d = (if 0 < l then encode_block y l (enc_ref x @ replicate ?c 49) (11 * n)
      else Some (enc_ref x @ replicate ?c 49))"
    using False full by (simp add: encode_def Let_def alphabet_0 n_def l_def y_def mult.commute)
  then show ?thesis
    using last d enc_ref_full(1) [OF d(2)] by (cases "l = 0") (simp_all add: encoded_block_sizes_def)
qed (simp add: encode_def)

lemma dec_blk_length:
  assumes "dec_blk e = Some b" and "length e = 11"
  shows "length b = 8"
  using enc_dec_blk(2) [OF assms(1)] assms(2) by (simp add: decoded_block_sizes_data_eq)

lemma decode_full_blocks_spec:
  assumes "11 * (i + m) \<le> length enc" and "8 * (i + m) \<le> length data"
  shows "outcome (decode_full_blocks enc (i + m) i data) =
    Some (map_option (\<lambda>d. take (8 * i) data @ d @ drop (8 * (i + m)) data)
            (dec_ref (take (11 * m) (drop (11 * i) enc))))"
  using assms
proof (induction m arbitrary: i data)
  case 0
  show ?case by (subst decode_full_blocks.simps) simp
next
  case (Suc m)
  let ?e = "take 11 (drop (11 * i) enc)"
  have e: "length ?e = 11" using Suc.prems(1) by simp
  have c: "i * 11 = 11 * i" "i * 8 = 8 * i" by simp_all
  have blk: "outcome (decode_block (drop (11 * i) enc) 11 data (8 * i)) =
      Some (map_option (\<lambda>bs. take (8 * i) data @ bs @ drop (8 * i + length bs) data) (dec_blk ?e))"
    by (rule decode_block_spec) (use Suc.prems in \<open>simp_all add: decoded_block_sizes_data_eq\<close>)
  show ?case
  proof (cases "dec_blk ?e")
    case None
    then obtain x where "decode_block (drop (11 * i) enc) 11 data (8 * i) = Some (False, x)"
      using blk by (auto simp: outcome_def split: if_splits)
    then show ?thesis
      unfolding take_drop_block [of 11 m i enc] dec_ref_append11 [OF e]
      by (subst decode_full_blocks.simps) (simp add: c None)
  next
    case (Some b)
    define data' where "data' = take (8 * i) data @ b @ drop (8 * i + 8) data"
    have b: "length b = 8" using dec_blk_length [OF Some e] .
    then have "decode_block (drop (11 * i) enc) 11 data (8 * i) = Some (True, data')"
      using blk by (simp add: Some outcome_Some_Some data'_def)
    then have st: "decode_full_blocks enc (i + Suc m) i data = decode_full_blocks enc (i + 1 + m) (i + 1) data'"
      by (subst decode_full_blocks.simps) (simp add: c)
    have d': "length data' = length data" "take (8 * (i + 1)) data' = take (8 * i) data @ b"
      "drop (8 * (i + 1 + m)) data' = drop (8 * (i + Suc m)) data"
      using Suc.prems(2) b by (simp_all add: data'_def ac_simps)
    have "outcome (decode_full_blocks enc (i + 1 + m) (i + 1) data') =
        Some (map_option (\<lambda>d. take (8 * (i + 1)) data' @ d @ drop (8 * (i + 1 + m)) data')
          (dec_ref (take (11 * m) (drop (11 * (i + 1)) enc))))"
      by (rule Suc.IH) (use Suc.prems d'(1) in simp_all)
    then show ?thesis
      unfolding st d'(2,3) take_drop_block [of 11 m i enc] dec_ref_append11 [OF e]
      by (simp add: Some option.map_comp comp_def)
  qed
qed

lemma dec_ref_full:
  assumes "length xs = 11 * m"
  shows "dec_ref (xs @ ys) =
      (case dec_ref xs of None \<Rightarrow> None | Some b \<Rightarrow> map_option (\<lambda>d. b @ d) (dec_ref ys)) \<and>
    (\<forall>d. dec_ref xs = Some d \<longrightarrow> length d = 8 * m)"
  using assms
proof (induction m arbitrary: xs)
  case (Suc m)
  obtain a b where ab: "xs = a @ b" "length a = 11" "length b = 11 * m"
    using Suc.prems by (intro that [of "take 11 xs" "drop 11 xs"]) auto
  show ?case using Suc.IH [OF ab(3)] dec_blk_length [OF _ ab(2)]
    by (cases "dec_ref ys") (auto simp: ab dec_ref_append11 option.map_comp comp_def split: option.splits)
qed (cases "dec_ref ys", auto)

lemma length_str_resize [simp]: "length (str_resize s n c) = n"
  by (simp add: str_resize_def)

lemma decode_spec: "outcome (decode enc data) = Some (dec_ref enc)"
proof (cases "enc = []")
  case False
  define n l where "n = length enc div 11" and "l = length enc mod 11"
  define x y where "x = take (11 * n) enc" and "y = drop (11 * n) enc"
  have e: "enc = x @ y" "length x = 11 * n" "length y = l" "l < 11"
    by (auto simp: n_def l_def x_def y_def minus_mult_div_eq_mod)
  have lsz: "decoded_block_sizes l = Some (decoded_block_sizes_data ! l)"
    using e(4) by (simp add: decoded_block_sizes_def)
  have whole: "dec_ref enc = (case dec_ref x of None \<Rightarrow> None | Some b \<Rightarrow> map_option (\<lambda>d. b @ d) (dec_ref y))"
    and lenx: "dec_ref x = Some d \<Longrightarrow> length d = 8 * n" for d
    using dec_ref_full [OF e(2), of y] by (simp_all add: e(1))
  show ?thesis
  proof (cases "decoded_block_sizes_data ! l < 0")
    case True
    then have "y \<noteq> []" using e by (auto simp: decoded_block_sizes_data_eq)
    then have "dec_ref y = None" using True e by (simp add: dec_ref_short dec_blk_def)
    with True False lsz show ?thesis
      by (simp add: decode_def Let_def whole flip: n_def l_def split: option.splits)
  next
    case fits: False
    let ?k = "nat (decoded_block_sizes_data ! l)"
    define buf where "buf = str_resize data (8 * n + ?k) 0"
    have full: "outcome (decode_full_blocks enc n 0 buf) =
        Some (map_option (\<lambda>d. d @ drop (8 * n) buf) (dec_ref x))"
      using decode_full_blocks_spec [of 0 n enc buf] by (simp add: buf_def x_def n_def)
    have dec: "decode enc data = (case decode_full_blocks enc n 0 buf of
          None \<Rightarrow> None
        | Some (False, data) \<Rightarrow> Some (False, data)
        | Some (True, data) \<Rightarrow> if 0 < l then decode_block y l data (8 * n) else Some (True, data))"
      using False fits lsz
      unfolding decode_def Let_def full_sizes n_def [symmetric] l_def [symmetric] mult.commute [of n]
        y_def buf_def by simp
    show ?thesis
    proof (cases "dec_ref x")
      case None
      then obtain z where "decode_full_blocks enc n 0 buf = Some (False, z)"
        using full by (auto simp: outcome_def split: if_splits)
      then show ?thesis by (simp add: dec whole None)
    next
      case (Some d)
      then have f: "decode_full_blocks enc n 0 buf = Some (True, d @ drop (8 * n) buf)"
        using full by (simp add: outcome_Some_Some)
      have lb: "length (drop (8 * n) buf) = ?k" by (simp add: buf_def)
      show ?thesis
      proof (cases "l = 0")
        case True
        then have "y = []" "?k = 0" using e by (simp_all add: decoded_block_sizes_data_eq)
        then show ?thesis using True lb by (simp add: dec f whole Some)
      next
        case lnz: False
        then have y: "y \<noteq> []" using e by auto
        have "outcome (decode_block y l (d @ drop (8 * n) buf) (8 * n)) =
            Some (map_option (\<lambda>bs. take (8 * n) (d @ drop (8 * n) buf) @ bs @
              drop (8 * n + length bs) (d @ drop (8 * n) buf)) (dec_blk (take l y)))"
          using lnz e lb lenx [OF Some] by (intro decode_block_spec) auto
        moreover have "dec_blk y = Some bs \<Longrightarrow> length bs = ?k" for bs
          using enc_dec_blk(2) [of y bs] e by simp
        ultimately show ?thesis
          using lnz e(3,4) y lb lenx [OF Some]
          by (cases "dec_blk y") (simp_all add: dec f whole Some dec_ref_short)
      qed
    qed
  qed
qed (simp add: decode_def)

subsection \<open>Correctness of the encoding\<close>

text \<open>
  C5: every byte string is encoded without an access out of range, and decoding the result
  gives the string back, whatever the output string held before.
\<close>

theorem base58_round_trip:
  "\<exists>enc. encode data = Some enc \<and> decode enc old = Some (True, data)"
  using decode_spec [of "enc_ref data" old]
  by (simp add: encode_spec dec_enc_ref outcome_Some_Some)

text \<open>Decoding never reads or writes out of range, on any input; and the strings it accepts
  are exactly the encodings: when it returns true with some data, encoding these data gives
  the input back, so no two strings decode to the same data.
\<close>

lemma base58_canonical:
  "decode enc old \<noteq> None \<and>
   (\<forall>data. decode enc old = Some (True, data) \<longleftrightarrow> encode data = Some enc)"
proof -
  have "decode enc old = Some (True, data) \<longleftrightarrow> dec_ref enc = Some data" for data
    using decode_spec [of enc old] by (simp flip: outcome_Some_Some)
  moreover have "decode enc old \<noteq> None"
    using decode_spec [of enc old] by (metis option.distinct(1) outcome_simps(1))
  ultimately show ?thesis using dec_enc_ref enc_dec_ref by (auto simp: encode_spec)
qed

subsection \<open>Correctness of addresses\<close>

text \<open>
  The laws of an address are proved for any hash that meets the interface \<open>fast_hash\<close>.
\<close>

lemma decode_addr_with_spec:
  "decode_addr_with H addr =
     Some (case dec_ref addr of
        None \<Rightarrow> None
      | Some d \<Rightarrow>
          let body = take (length d - 4) d; (read, tag, _) = read_varint body
          in if 4 < length d \<and> take 4 (H body) = drop (length d - 4) d \<and> 0 < read
             then Some (tag, drop (nat read) body) else None)"
proof (cases "dec_ref addr")
  case None
  then obtain x where "decode addr [] = Some (False, x)"
    using decode_spec [of addr "[]"] by (auto simp: outcome_def split: if_splits)
  then show ?thesis by (simp add: decode_addr_with_def None)
next
  case (Some d)
  then have "decode addr [] = Some (True, d)"
    using decode_spec [of addr "[]"] by (simp add: outcome_Some_Some)
  then show ?thesis
    by (auto simp: decode_addr_with_def Some addr_checksum_size_def Let_def split: prod.splits)
qed

context fast_hash
begin

lemma decode_addr_with_encode:
  "encode_addr_with H tag data = Some addr \<Longrightarrow> decode_addr_with H addr = Some (Some (tag, data))"
  by (auto simp: encode_addr_with_def Let_def encode_spec addr_checksum_size_def decode_addr_with_spec
      dec_enc_ref hash_length v64.read_back)

lemma encode_addr_with_decode:
  assumes "decode_addr_with H addr = Some (Some (tag, data))" and "data \<noteq> []"
  shows "encode_addr_with H tag data = Some addr"
proof -
  obtain d where d: "dec_ref addr = Some d" "4 < length d"
    using assms(1) by (auto simp: decode_addr_with_spec Let_def split: option.splits prod.splits if_splits)
  define body where "body = take (length d - 4) d"
  obtain n v rest where rd: "read_varint body = (n, v :: u64, rest)" by (metis prod_cases3)
  have *: "take 4 (H body) = drop (length d - 4) d" "0 < n" "v = tag" "drop (nat n) body = data"
    using assms(1) d rd
    by (auto simp: decode_addr_with_spec Let_def body_def split: if_splits)
  have "rest \<noteq> []" using read_rest [OF rd] * assms(2) by auto
  then have "body = write_varint tag @ data"
    using v64.read_prefix [OF rd *(2)] v64.read_length [OF rd *(2)] * by auto
  then have "write_varint tag @ data @ take 4 (H (write_varint tag @ data)) = d"
    using *(1) d(2) by (metis append.assoc append_take_drop_id body_def)
  then show ?thesis
    using enc_dec_ref [OF d(1)] by (simp add: encode_addr_with_def encode_spec addr_checksum_size_def Let_def)
qed

end

text \<open>
  C6: an address of the program decodes to the tag and the data it was made from.
\<close>

theorem address_round_trip:
  "\<exists>addr. encode_addr tag data = Some addr \<and> decode_addr addr = Some (Some (tag, data))"
proof -
  have "encode_addr tag data = Some (the (encode_addr tag data))"
    by (simp add: encode_addr_def encode_addr_with_def Let_def encode_spec)
  then show ?thesis
    using cnh.decode_addr_with_encode by (auto simp: encode_addr_def decode_addr_def)
qed

text \<open>An address string that decodes to a tag and non-empty data is the one that
  \<open>encode_addr\<close> produces for them, so the textual address of a wallet is unique.
\<close>

lemma address_canonical:
  assumes "decode_addr addr = Some (Some (tag, data))" and "data \<noteq> []"
  shows "encode_addr tag data = Some addr"
  using assms cnh.encode_addr_with_decode by (simp add: encode_addr_def decode_addr_def)

lemma address_canonical_witness:
  "\<exists>addr. decode_addr addr = Some (Some (18, [7])) \<and> [7] \<noteq> ([] :: blob) \<and>
     encode_addr 18 [7] = Some addr"
proof -
  obtain addr where "encode_addr 18 [7] = Some addr"
    by (simp add: encode_addr_def encode_addr_with_def Let_def encode_spec)
  then have d: "decode_addr addr = Some (Some (18, [7]))"
    using cnh.decode_addr_with_encode by (simp add: encode_addr_def decode_addr_def)
  show ?thesis
    by (rule exI [of _ addr]) (use d address_canonical [OF d] in simp)
qed

end
