(* ===== verification/Tree_Hash.thy ===== *)
theory Tree_Hash
  imports Keccak
begin

text \<open>
  The Merkle trees of \<open>crypto/tree-hash.c\<close>. An array of hashes is a list of byte strings,
  \<open>cn_fast_hash(a[i], 64, ...)\<close> hashes two neighbouring entries, and an access outside an
  array or a failed \<open>assert\<close> is \<open>None\<close>. The functions take the hash as an argument; the
  program's are the instances with \<open>cn_fast_hash\<close>.
\<close>

subsection \<open>Definitions\<close>

definition hash_pair :: "(blob \<Rightarrow> blob) \<Rightarrow> blob list \<Rightarrow> nat \<Rightarrow> blob option" where
  "hash_pair H hashes i =
     (if i + 1 < length hashes then Some (H (hashes ! i @ hashes ! (i + 1))) else None)"

text \<open>\<open>pow\<close> starts at 2, so the first test only serves the termination of the definition.\<close>

function tree_hash_cnt_loop :: "nat \<Rightarrow> nat \<Rightarrow> nat" where
  "tree_hash_cnt_loop count pow =
     (if 0 < pow \<and> pow < count then tree_hash_cnt_loop count (push_bit 1 pow) else pow)"
  by pat_completeness auto
termination by (relation "measure (\<lambda>(count, pow). count - pow)") (auto simp: push_bit_eq_mult)

definition tree_hash_cnt :: "nat \<Rightarrow> nat option" where
  "tree_hash_cnt count =
     (if 3 \<le> count \<and> count \<le> 0x10000000
      then Some (drop_bit 1 (tree_hash_cnt_loop count 2)) else None)"

text \<open>
  The loops \<open>for (; j < cnt; i += 2, ++j)\<close>: the first hashes pairs of one array into
  another and returns \<open>i\<close> with the array filled, the second works within one array.
\<close>

function tree_fill :: "(blob \<Rightarrow> blob) \<Rightarrow> blob list \<Rightarrow> nat \<Rightarrow> nat \<Rightarrow> nat \<Rightarrow> blob list \<Rightarrow> (nat \<times> blob list) option" where
  "tree_fill H hashes cnt i j ints =
     (if j < cnt
      then case hash_pair H hashes i of
             None \<Rightarrow> None
           | Some h \<Rightarrow> if j < length ints then tree_fill H hashes cnt (i + 2) (j + 1) (ints[j := h]) else None
      else Some (i, ints))"
  by pat_completeness auto
termination by (relation "measure (\<lambda>(_, _, cnt, _, j, _). cnt - j)") auto

function tree_level :: "(blob \<Rightarrow> blob) \<Rightarrow> nat \<Rightarrow> nat \<Rightarrow> nat \<Rightarrow> blob list \<Rightarrow> blob list option" where
  "tree_level H cnt i j ints =
     (if j < cnt
      then case hash_pair H ints i of
             None \<Rightarrow> None
           | Some h \<Rightarrow> if j < length ints then tree_level H cnt (i + 2) (j + 1) (ints[j := h]) else None
      else Some ints)"
  by pat_completeness auto
termination by (relation "measure (\<lambda>(_, cnt, _, j, _). cnt - j)") auto

function tree_hash_loop :: "(blob \<Rightarrow> blob) \<Rightarrow> nat \<Rightarrow> blob list \<Rightarrow> blob list option" where
  "tree_hash_loop H cnt ints =
     (if 2 < cnt
      then let cnt = drop_bit 1 cnt
           in case tree_level H cnt 0 0 ints of None \<Rightarrow> None | Some ints \<Rightarrow> tree_hash_loop H cnt ints
      else Some ints)"
  by pat_completeness auto
termination by (relation "measure (\<lambda>(_, cnt, _). cnt)") (auto simp: drop_bit_eq_div)

definition tree_hash_with :: "(blob \<Rightarrow> blob) \<Rightarrow> blob list \<Rightarrow> nat \<Rightarrow> blob option" where
  "tree_hash_with H hashes count =
     (if count = 0 \<or> length hashes < count then None
      else if count = 1 then Some (hashes ! 0)
      else if count = 2 then hash_pair H hashes 0
      else case tree_hash_cnt count of
             None \<Rightarrow> None
           | Some cnt \<Rightarrow>
               let n = 2 * cnt - count;
                   ints = take n hashes @ replicate (cnt - n) (replicate HASH_SIZE 0)
               in case tree_fill H hashes cnt n n ints of
                    None \<Rightarrow> None
                  | Some (i, ints) \<Rightarrow>
                      if i \<noteq> count then None
                      else case tree_hash_loop H cnt ints of
                             None \<Rightarrow> None
                           | Some ints \<Rightarrow> hash_pair H ints 0)"

text \<open>\<open>sizeof(size_t) << 2\<close> is 32.\<close>

function tree_depth_loop :: "nat \<Rightarrow> nat \<Rightarrow> nat \<Rightarrow> nat" where
  "tree_depth_loop i count depth =
     (if 0 < i
      then if 0 < drop_bit i count
           then tree_depth_loop (drop_bit 1 i) (drop_bit i count) (depth + i)
           else tree_depth_loop (drop_bit 1 i) count depth
      else depth)"
  by pat_completeness auto
termination by (relation "measure (\<lambda>(i, _, _). i)") (auto simp: drop_bit_eq_div)

definition tree_depth :: "nat \<Rightarrow> nat option" where
  "tree_depth count = (if 0 < count then Some (tree_depth_loop 32 count 0) else None)"

function tree_branch_cnt :: "nat \<Rightarrow> nat \<Rightarrow> nat \<Rightarrow> nat \<Rightarrow> nat \<times> nat" where
  "tree_branch_cnt count i cnt depth =
     (if 0 < i
      then if push_bit i cnt \<le> count
           then tree_branch_cnt count (drop_bit 1 i) (push_bit i cnt) (depth + i)
           else tree_branch_cnt count (drop_bit 1 i) cnt depth
      else (cnt, depth))"
  by pat_completeness auto
termination by (relation "measure (\<lambda>(_, i, _, _). i)") (auto simp: drop_bit_eq_div)

text \<open>
  The loop over the levels: the branch array with \<open>branch[depth]\<close> set on every level.
\<close>

fun tree_branch_loop :: "(blob \<Rightarrow> blob) \<Rightarrow> nat \<Rightarrow> nat \<Rightarrow> blob list \<Rightarrow> blob list \<Rightarrow> blob list option" where
  "tree_branch_loop H cnt 0 ints branch = Some branch"
| "tree_branch_loop H cnt (Suc depth) ints branch =
     (if cnt \<noteq> push_bit (Suc depth) 1 then None
      else let cnt = drop_bit 1 cnt
           in if ints = [] \<or> length branch \<le> depth then None
              else let branch = branch[depth := ints ! 0]
                   in case tree_level H (cnt - 1) 1 0 ints of
                        None \<Rightarrow> None
                      | Some ints \<Rightarrow> tree_branch_loop H cnt depth ints branch)"

text \<open>\<open>junk\<close> is what the freshly allocated array \<open>ints\<close> holds; \<open>branch\<close> the output array.\<close>

definition tree_branch_with :: "(blob \<Rightarrow> blob) \<Rightarrow> blob \<Rightarrow> blob list \<Rightarrow> nat \<Rightarrow> blob list \<Rightarrow> blob list option" where
  "tree_branch_with H junk hashes count branch =
     (if count = 0 \<or> length hashes < count then None
      else let (cnt, depth) = tree_branch_cnt count 32 1 0
           in if cnt \<noteq> push_bit depth 1 \<or> Some depth \<noteq> tree_depth count then None
              else let n = 2 * cnt - count - 1;
                       ints = take n (drop 1 hashes) @ replicate (cnt - 1 - n) junk
                   in case tree_fill H hashes (cnt - 1) (2 * cnt - count) n ints of
                        None \<Rightarrow> None
                      | Some (i, ints) \<Rightarrow>
                          if i \<noteq> count then None else tree_branch_loop H cnt depth ints branch)"

text \<open>
  The direction bit of a level: \<open>path && (path[depth >> 3] & (1 << (depth & 7))) != 0\<close>, with
  \<open>None\<close> for the null pointer.
\<close>

definition path_bit :: "blob option \<Rightarrow> nat \<Rightarrow> bool option" where
  "path_bit path depth =
     (case path of
        None \<Rightarrow> Some False
      | Some p \<Rightarrow>
          if drop_bit 3 depth < length p
          then Some (p ! drop_bit 3 depth AND push_bit (depth AND 7) 1 \<noteq> 0) else None)"

text \<open>The buffer of two hashes; \<open>leaf\<close> is \<open>Some\<close> as long as \<open>from_leaf\<close> is set.\<close>

fun from_branch_loop :: "(blob \<Rightarrow> blob) \<Rightarrow> blob list \<Rightarrow> blob option \<Rightarrow> nat \<Rightarrow> blob option \<Rightarrow> blob \<times> blob \<Rightarrow> (blob \<times> blob) option" where
  "from_branch_loop H branch path 0 leaf buffer = Some buffer"
| "from_branch_loop H branch path (Suc depth) leaf buffer =
     (case path_bit path depth of
        None \<Rightarrow> None
      | Some right \<Rightarrow>
          if length branch \<le> depth then None
          else let h = (case leaf of Some l \<Rightarrow> l | None \<Rightarrow> H (fst buffer @ snd buffer));
                   buffer = (if right then (branch ! depth, h) else (h, branch ! depth))
               in from_branch_loop H branch path depth None buffer)"

definition tree_hash_from_branch_with ::
    "(blob \<Rightarrow> blob) \<Rightarrow> blob list \<Rightarrow> nat \<Rightarrow> blob \<Rightarrow> blob option \<Rightarrow> blob option" where
  "tree_hash_from_branch_with H branch depth leaf path =
     (if depth = 0 then Some leaf
      else case from_branch_loop H branch path depth (Some leaf) ([], []) of
             None \<Rightarrow> None
           | Some buffer \<Rightarrow> Some (H (fst buffer @ snd buffer)))"

definition tree_hash :: "blob list \<Rightarrow> nat \<Rightarrow> blob option" where
  "tree_hash = tree_hash_with cn_fast_hash"

definition tree_branch :: "blob \<Rightarrow> blob list \<Rightarrow> nat \<Rightarrow> blob list \<Rightarrow> blob list option" where
  "tree_branch = tree_branch_with cn_fast_hash"

definition tree_hash_from_branch :: "blob list \<Rightarrow> nat \<Rightarrow> blob \<Rightarrow> blob option \<Rightarrow> blob option" where
  "tree_hash_from_branch = tree_hash_from_branch_with cn_fast_hash"

declare tree_hash_cnt_loop.simps [simp del] tree_fill.simps [simp del] tree_level.simps [simp del]
  tree_hash_loop.simps [simp del] tree_depth_loop.simps [simp del] tree_branch_cnt.simps [simp del]

subsection \<open>Depth and counts\<close>

text \<open>\<open>floor_log2 d n\<close>: the number \<open>d\<close> is the binary logarithm of \<open>n\<close>, rounded down.\<close>

definition floor_log2 :: "nat \<Rightarrow> nat \<Rightarrow> bool" where
  "floor_log2 d n \<longleftrightarrow> 2 ^ d \<le> n \<and> n < 2 ^ Suc d"

lemma floor_log2_not_less: "floor_log2 d n \<Longrightarrow> floor_log2 e n \<Longrightarrow> \<not> d < e"
  using power_increasing [of "Suc d" e "2 :: nat"] by (auto simp: floor_log2_def)

lemma floor_log2_unique: "floor_log2 d n \<Longrightarrow> floor_log2 e n \<Longrightarrow> d = e"
  using floor_log2_not_less [of d n e] floor_log2_not_less [of e n d] by simp

lemma floor_log2_ex: "0 < n \<Longrightarrow> \<exists>d. floor_log2 d n"
proof (induction n rule: less_induct)
  case (less n)
  show ?case
  proof (cases "n = 1")
    case True
    then show ?thesis by (intro exI [of _ 0]) (simp add: floor_log2_def)
  next
    case False
    then have "n div 2 < n" "0 < n div 2" using less.prems by auto
    then obtain d where "floor_log2 d (n div 2)" using less.IH by blast
    then show ?thesis by (intro exI [of _ "Suc d"]) (auto simp: floor_log2_def)
  qed
qed

lemma floor_log2_div: "floor_log2 d (n div 2 ^ i) \<Longrightarrow> floor_log2 (i + d) n"
  by (simp add: floor_log2_def less_eq_div_iff_mult_less_eq div_less_iff_less_mult power_add mult_ac)

lemma tree_depth_loop_log:
  assumes "0 < count" and "count < 2 ^ (2 * 2 ^ k)"
  shows "\<exists>d. tree_depth_loop (2 ^ k) count depth = depth + d \<and> floor_log2 d count"
  using assms
proof (induction k arbitrary: count depth)
  case 0
  then have "count \<in> {1, 2, 3}" by auto
  then have "floor_log2 (if 0 < count div 2 then 1 else 0) count" by (auto simp: floor_log2_def)
  moreover have "tree_depth_loop 0 c e = e" for c e by (subst tree_depth_loop.simps) simp
  then have "tree_depth_loop 1 count depth = depth + (if 0 < count div 2 then 1 else 0)"
    by (subst tree_depth_loop.simps) (simp add: drop_bit_eq_div)
  ultimately show ?case by (metis power_0)
next
  case (Suc k)
  let ?i = "2 ^ Suc k :: nat"
  have half: "drop_bit 1 ?i = 2 ^ k" by (simp add: drop_bit_eq_div)
  show ?case
  proof (cases "0 < count div 2 ^ ?i")
    case True
    have "count div 2 ^ ?i < 2 ^ (2 * 2 ^ k)"
      using Suc.prems(2) by (simp add: less_mult_imp_div_less flip: power_add)
    with True obtain d where d: "tree_depth_loop (2 ^ k) (count div 2 ^ ?i) (depth + ?i) = depth + ?i + d"
      "floor_log2 d (count div 2 ^ ?i)" using Suc.IH by blast
    have "floor_log2 (?i + d) count"
      using d(2) by (rule floor_log2_div)
    then show ?thesis
      using True d(1) half by (subst tree_depth_loop.simps) (simp add: drop_bit_eq_div)
  next
    case False
    then have "count < 2 ^ (2 * 2 ^ k)" by (simp add: div_eq_0_iff)
    then show ?thesis
      using Suc.IH [of count depth] Suc.prems False half
      by (subst tree_depth_loop.simps) (simp add: drop_bit_eq_div)
  qed
qed

lemma tree_depth_log:
  assumes "0 < count" and "count < 18446744073709551616"
  shows "\<exists>d. tree_depth count = Some d \<and> floor_log2 d count"
  using tree_depth_loop_log [of count 5 0] assms by (simp add: tree_depth_def)

lemma tree_depth_eq: "floor_log2 d n \<Longrightarrow> n < 18446744073709551616 \<Longrightarrow> tree_depth n = Some d"
  using tree_depth_log [of n] floor_log2_unique [of d n] by (fastforce simp: floor_log2_def)

lemma tree_branch_cnt_log:
  assumes "2 ^ depth \<le> count" and "count < 2 ^ (depth + 2 * 2 ^ k)"
  shows "\<exists>d. tree_branch_cnt count (2 ^ k) (2 ^ depth) depth = (2 ^ d, d) \<and> floor_log2 d count"
  using assms
proof (induction k arbitrary: depth)
  case 0
  have z: "tree_branch_cnt count 0 c e = (c, e)" for c e by (subst tree_branch_cnt.simps) simp
  then have "tree_branch_cnt count 1 (2 ^ depth) depth =
      (if 2 ^ Suc depth \<le> count then (2 ^ Suc depth, Suc depth) else (2 ^ depth, depth))"
    by (subst tree_branch_cnt.simps) (simp add: push_bit_eq_mult drop_bit_eq_div mult.commute)
  then show ?case using 0 by (auto simp: floor_log2_def)
next
  case (Suc k)
  define i where "i = (2 ^ Suc k :: nat)"
  have i: "0 < i" "drop_bit (Suc 0) i = 2 ^ k" by (simp_all add: i_def drop_bit_eq_div)
  have sh: "push_bit i (2 ^ depth) = (2 :: nat) ^ (depth + i)" by (simp add: push_bit_eq_mult power_add)
  have "\<exists>d. tree_branch_cnt count i (2 ^ depth) depth = (2 ^ d, d) \<and> floor_log2 d count"
  proof (cases "2 ^ (depth + i) \<le> count")
    case True
    have "count < 2 ^ (depth + i + 2 * 2 ^ k)" using Suc.prems(2) by (simp add: i_def add.assoc)
    from Suc.IH [OF True this] show ?thesis
      using True by (subst tree_branch_cnt.simps) (simp add: sh i)
  next
    case False
    then have "count < 2 ^ (depth + 2 * 2 ^ k)" by (simp add: i_def)
    from Suc.IH [OF Suc.prems(1) this] show ?thesis
      using False by (subst tree_branch_cnt.simps) (simp add: sh i)
  qed
  then show ?case by (simp only: i_def)
qed

lemma tree_hash_cnt_loop_pow:
  assumes "2 ^ e < count \<or> e = 1" and "0 < e"
  shows "\<exists>f. tree_hash_cnt_loop count (2 ^ e) = 2 ^ f \<and> count \<le> 2 ^ f \<and> e \<le> f \<and> (f = e \<or> 2 ^ (f - 1) < count)"
proof (induction "count - 2 ^ e" arbitrary: e rule: less_induct)
  case less
  show ?case
  proof (cases "2 ^ e < count")
    case True
    then have "count - 2 ^ Suc e < count - 2 ^ e" by (intro diff_less_mono2) auto
    then obtain f where f: "tree_hash_cnt_loop count (2 ^ Suc e) = 2 ^ f" "count \<le> 2 ^ f" "Suc e \<le> f"
      "f = Suc e \<or> 2 ^ (f - 1) < count"
      using less by blast
    moreover have "tree_hash_cnt_loop count (2 ^ e) = tree_hash_cnt_loop count (2 ^ Suc e)"
      using True by (subst tree_hash_cnt_loop.simps) (simp add: push_bit_eq_mult mult.commute)
    ultimately show ?thesis using True by (intro exI [of _ f]) auto
  next
    case False
    then show ?thesis by (intro exI [of _ e]) (subst tree_hash_cnt_loop.simps, simp)
  qed
qed

lemma tree_hash_cnt_pow:
  assumes "3 \<le> count" and "count \<le> 0x10000000"
  shows "\<exists>e. tree_hash_cnt count = Some (2 ^ e) \<and> 1 \<le> e \<and> 2 ^ e < count \<and> count \<le> 2 ^ Suc e"
proof -
  obtain f where f: "tree_hash_cnt_loop count (2 ^ 1) = 2 ^ f" "count \<le> 2 ^ f" "1 \<le> f"
    "f = 1 \<or> 2 ^ (f - 1) < count"
    using tree_hash_cnt_loop_pow [of 1 count] by auto
  then obtain e where e: "f = Suc (Suc e)"
    using assms(1) by (cases f; cases "f - 1") auto
  have "drop_bit 1 ((2 :: nat) ^ f) = 2 ^ Suc e" by (simp add: e drop_bit_eq_div)
  with f e assms show ?thesis by (intro exI [of _ "Suc e"]) (auto simp: tree_hash_cnt_def)
qed

subsection \<open>The tree as a specification\<close>

text \<open>
  The root of a perfect binary tree over \<open>2 ^ k\<close> leaves, and the leaf row the program uses
  for other counts: with \<open>c\<close> a power of two at most the count, the last leaves are hashed in
  pairs so that \<open>c\<close> nodes remain.
\<close>

fun merkle :: "(blob \<Rightarrow> blob) \<Rightarrow> nat \<Rightarrow> blob list \<Rightarrow> blob" where
  "merkle H 0 xs = xs ! 0"
| "merkle H (Suc k) xs = H (merkle H k (take (2 ^ k) xs) @ merkle H k (drop (2 ^ k) xs))"

fun pairs :: "(blob \<Rightarrow> blob) \<Rightarrow> blob list \<Rightarrow> blob list" where
  "pairs H (a # b # xs) = H (a @ b) # pairs H xs"
| "pairs H xs = []"

definition leaf_row :: "(blob \<Rightarrow> blob) \<Rightarrow> nat \<Rightarrow> blob list \<Rightarrow> blob list" where
  "leaf_row H c xs = take (2 * c - length xs) xs @ pairs H (drop (2 * c - length xs) xs)"

lemma length_pairs [simp]: "length (pairs H xs) = length xs div 2"
  by (induction H xs rule: pairs.induct) auto

lemma pairs_append: "even (length xs) \<Longrightarrow> pairs H (xs @ ys) = pairs H xs @ pairs H ys"
  by (induction H xs rule: pairs.induct) auto

lemma drop_two: "Suc i < length xs \<Longrightarrow> drop i xs = xs ! i # xs ! Suc i # drop (i + 2) xs"
  using Cons_nth_drop_Suc [of i xs] Cons_nth_drop_Suc [of "Suc i" xs] by simp

lemma pairs_take: "pairs H (take (2 * m) xs) = take m (pairs H xs)"
  by (induction H xs arbitrary: m rule: pairs.induct) (auto simp: take_Cons split: nat.splits)

lemma pairs_drop: "pairs H (drop (2 * m) xs) = drop m (pairs H xs)"
  by (induction H xs arbitrary: m rule: pairs.induct) (auto simp: drop_Cons split: nat.splits)

text \<open>Hashing the leaves in pairs and then taking the root is the same as the root itself.\<close>

lemma merkle_pairs: "length xs = 2 ^ Suc k \<Longrightarrow> merkle H (Suc k) xs = merkle H k (pairs H xs)"
proof (induction k arbitrary: xs)
  case 0
  then obtain a b where "xs = [a, b]" by (auto simp: length_Suc_conv numeral_2_eq_2)
  then show ?case by simp
next
  case (Suc k)
  then have "length (take (2 ^ Suc k) xs) = 2 ^ Suc k" "length (drop (2 ^ Suc k) xs) = 2 ^ Suc k" by auto
  from this [THEN Suc.IH] show ?case
    using pairs_take [of H "2 ^ k" xs] pairs_drop [of H "2 ^ k" xs] by simp
qed

lemma length_leaf_row: "c \<le> length xs \<Longrightarrow> length xs \<le> 2 * c \<Longrightarrow> length (leaf_row H c xs) = c"
  by (simp add: leaf_row_def)

text \<open>The row of a power of two is the list itself, and half of it is its pairs.\<close>

lemma leaf_row_self: "leaf_row H (length xs) xs = xs"
  by (simp add: leaf_row_def)

lemma leaf_row_half: "length xs = 2 * c \<Longrightarrow> leaf_row H c xs = pairs H xs"
  by (simp add: leaf_row_def)

definition tree_root :: "(blob \<Rightarrow> blob) \<Rightarrow> blob list \<Rightarrow> nat \<Rightarrow> blob" where
  "tree_root H xs d = merkle H d (leaf_row H (2 ^ d) xs)"

subsection \<open>The loops\<close>

lemma tree_fill_pairs:
  assumes "i + 2 * m = length hashes" and "j + m = length ints"
  shows "tree_fill H hashes (length ints) i j ints =
    Some (length hashes, take j ints @ pairs H (drop i hashes))"
  using assms
proof (induction m arbitrary: i j ints)
  case 0
  then show ?case by (subst tree_fill.simps) simp
next
  case (Suc m)
  let ?h = "H (hashes ! i @ hashes ! Suc i)"
  have "drop i hashes = hashes ! i # hashes ! Suc i # drop (i + 2) hashes"
    by (rule drop_two) (use Suc.prems(1) in simp)
  then have p: "pairs H (drop i hashes) = ?h # pairs H (drop (i + 2) hashes)" by simp
  have "i + (2 + 2 * m) = length hashes" using Suc.prems(1) by (simp only: mult_Suc_right)
  then have lt: "j < length ints" "Suc i < length hashes" using Suc.prems(2) by linarith+
  then have "tree_fill H hashes (length ints) i j ints =
      tree_fill H hashes (length (ints[j := ?h])) (i + 2) (j + 1) (ints[j := ?h])"
    by (subst tree_fill.simps) (simp add: hash_pair_def)
  also have "\<dots> = Some (length hashes, take (j + 1) (ints[j := ?h]) @ pairs H (drop (i + 2) hashes))"
    by (rule Suc.IH) (use Suc.prems in simp_all)
  also have "\<dots> = Some (length hashes, take j ints @ pairs H (drop i hashes))"
    using lt(1) by (simp add: p take_Suc_conv_app_nth)
  finally show ?case .
qed

text \<open>
  One level in place, reading from offset \<open>s\<close>: what is read was not yet overwritten, because
  the writes stay behind the reads.
\<close>

lemma tree_level_pairs:
  assumes "i = s + 2 * j" and "j + m = cnt" and "s + 2 * cnt \<le> length ints"
    and "drop (2 * j) (take (2 * cnt) (drop s ints)) = ys"
  shows "tree_level H cnt i j ints = Some (take j ints @ pairs H ys @ drop cnt ints)"
  using assms
proof (induction m arbitrary: i j ints ys)
  case 0
  then show ?case by (subst tree_level.simps) auto
next
  case (Suc m)
  let ?h = "H (ints ! i @ ints ! Suc i)"
  let ?ints = "ints[j := ?h]"
  have len: "s + 2 * j + 1 < length ints" using Suc.prems by simp
  let ?zs = "take (2 * cnt) (drop s ints)"
  have "drop (2 * j) ?zs = ?zs ! (2 * j) # ?zs ! Suc (2 * j) # drop (2 * j + 2) ?zs"
    by (rule drop_two) (use Suc.prems(2,3) in simp)
  then have "ys = ints ! i # ints ! Suc i # drop (2 * (j + 1)) ?zs"
    using Suc.prems by simp
  moreover have "drop (2 * (j + 1)) (take (2 * cnt) (drop s ?ints)) =
      drop (2 * (j + 1)) (take (2 * cnt) (drop s ints))"
    by (simp add: drop_take)
  ultimately have p: "pairs H ys = ?h # pairs H (drop (2 * (j + 1)) (take (2 * cnt) (drop s ?ints)))"
    by simp
  have "tree_level H cnt i j ints = tree_level H cnt (i + 2) (j + 1) ?ints"
    using Suc.prems by (subst tree_level.simps) (simp add: hash_pair_def)
  also have "\<dots> = Some (take (j + 1) ?ints @ pairs H (drop (2 * (j + 1)) (take (2 * cnt) (drop s ?ints))) @ drop cnt ?ints)"
    by (rule Suc.IH) (use Suc.prems in simp_all)
  also have "\<dots> = Some (take j ints @ pairs H ys @ drop cnt ints)"
    using len Suc.prems(2) by (simp add: p take_Suc_conv_app_nth)
  finally show ?case .
qed

lemma tree_level_row:
  assumes "s + 2 * cnt \<le> length ints"
  shows "tree_level H cnt s 0 ints = Some (pairs H (take (2 * cnt) (drop s ints)) @ drop cnt ints)"
  using tree_level_pairs [of s s 0 cnt cnt ints "take (2 * cnt) (drop s ints)"] assms by simp

lemma tree_hash_loop_root:
  assumes "1 \<le> e" and "2 ^ e \<le> length ints"
  shows "\<exists>ints'. tree_hash_loop H (2 ^ e) ints = Some ints' \<and>
    hash_pair H ints' 0 = Some (merkle H e (take (2 ^ e) ints))"
  using assms
proof (induction e arbitrary: ints)
  case (Suc e)
  show ?case
  proof (cases "e = 0")
    case True
    with Suc.prems(2) obtain a b ys where i: "ints = a # b # ys"
      by (cases ints; cases "tl ints") auto
    have "tree_hash_loop H (2 ^ Suc e) ints = Some ints"
      using True by (subst tree_hash_loop.simps) simp
    moreover have "hash_pair H ints 0 = Some (merkle H (Suc e) (take (2 ^ Suc e) ints))"
      using True by (simp add: i hash_pair_def)
    ultimately show ?thesis by blast
  next
    case False
    define ints1 where "ints1 = pairs H (take (2 * 2 ^ e) ints) @ drop (2 ^ e) ints"
    have c: "drop_bit (Suc 0) ((2 :: nat) ^ Suc e) = 2 ^ e" "2 < (2 :: nat) ^ Suc e"
      using False by (auto simp: drop_bit_eq_div power_strict_increasing_iff [of 2 1 "Suc e", simplified])
    have "tree_level H (2 ^ e) 0 0 ints = Some ints1"
      using tree_level_row [of 0 "2 ^ e" ints H] Suc.prems(2) by (simp add: ints1_def)
    then have "tree_hash_loop H (2 ^ Suc e) ints = tree_hash_loop H (2 ^ e) ints1"
      using c by (subst tree_hash_loop.simps) (simp add: Let_def del: power_Suc)
    moreover have "take (2 ^ e) ints1 = pairs H (take (2 ^ Suc e) ints)" "2 ^ e \<le> length ints1"
      using Suc.prems(2) by (simp_all add: ints1_def)
    ultimately show ?thesis
      using Suc.IH [of ints1] False Suc.prems(2) merkle_pairs [of "take (2 ^ Suc e) ints" e H] by simp
  qed
qed simp

lemma leaf_row_code:
  assumes "cnt \<le> length hashes" and "length hashes \<le> 2 * cnt"
    and "length ints = cnt" and "take (2 * cnt - length hashes) ints = take (2 * cnt - length hashes) hashes"
  shows "tree_fill H hashes cnt (2 * cnt - length hashes) (2 * cnt - length hashes) ints =
    Some (length hashes, leaf_row H cnt hashes)"
  using tree_fill_pairs [of "2 * cnt - length hashes" "length hashes - cnt" hashes
      "2 * cnt - length hashes" ints H] assms by (simp add: leaf_row_def)

lemma tree_hash_with_root:
  assumes "0 < length hashes" and "length hashes \<le> 0x10000000" and "floor_log2 d (length hashes)"
  shows "tree_hash_with H hashes (length hashes) = Some (tree_root H hashes d)"
proof -
  consider (1) "length hashes = 1" | (2) "length hashes = 2" | (3) "3 \<le> length hashes"
    using assms(1) by linarith
  then show ?thesis
  proof cases
    case 1
    then have "d = 0" using floor_log2_unique [OF assms(3), of 0] by (simp add: floor_log2_def)
    then show ?thesis using 1 leaf_row_self [of H hashes] by (simp add: tree_hash_with_def tree_root_def)
  next
    case 2
    then have "d = 1" using floor_log2_unique [OF assms(3), of 1] by (simp add: floor_log2_def)
    moreover obtain a b where "hashes = [a, b]" using 2 by (auto simp: length_Suc_conv numeral_2_eq_2)
    ultimately show ?thesis
      by (simp add: tree_hash_with_def tree_root_def hash_pair_def leaf_row_def)
  next
    case 3
    obtain e where e: "tree_hash_cnt (length hashes) = Some (2 ^ e)" "1 \<le> e" "2 ^ e < length hashes"
      "length hashes \<le> 2 ^ Suc e" using tree_hash_cnt_pow [OF 3 assms(2)] by blast
    have row: "length (leaf_row H (2 ^ e) hashes) = 2 ^ e" using e by (intro length_leaf_row) simp_all
    have root: "merkle H e (leaf_row H (2 ^ e) hashes) = tree_root H hashes d"
    proof (cases "length hashes = 2 ^ Suc e")
      case True
      then have "d = Suc e" using floor_log2_unique [OF assms(3), of "Suc e"] by (simp add: floor_log2_def)
      then show ?thesis using True merkle_pairs [OF True, of H] leaf_row_self [of H hashes]
        by (simp add: tree_root_def leaf_row_half)
    next
      case False
      then have "d = e" using floor_log2_unique [OF assms(3), of e] e by (simp add: floor_log2_def)
      then show ?thesis by (simp add: tree_root_def)
    qed
    let ?n = "2 * 2 ^ e - length hashes"
    let ?ints = "take ?n hashes @ replicate (2 ^ e - ?n) (replicate HASH_SIZE 0)"
    have "tree_fill H hashes (2 ^ e) ?n ?n ?ints = Some (length hashes, leaf_row H (2 ^ e) hashes)"
      by (rule leaf_row_code) (use e in auto)
    moreover obtain ints' where "tree_hash_loop H (2 ^ e) (leaf_row H (2 ^ e) hashes) = Some ints'"
      "hash_pair H ints' 0 = Some (merkle H e (leaf_row H (2 ^ e) hashes))"
      using tree_hash_loop_root [OF e(2), of "leaf_row H (2 ^ e) hashes" H] row by auto
    ultimately show ?thesis using 3 e(1) root assms(1) by (simp add: tree_hash_with_def Let_def)
  qed
qed

subsection \<open>Branches\<close>

text \<open>The root reached from a leaf on the left edge, taking the siblings from the deepest up.\<close>

fun climb :: "(blob \<Rightarrow> blob) \<Rightarrow> blob list \<Rightarrow> nat \<Rightarrow> blob \<Rightarrow> blob" where
  "climb H branch 0 h = h"
| "climb H branch (Suc k) h = climb H branch k (H (h @ branch ! k))"

lemma from_branch_climb:
  "k \<le> length branch \<Longrightarrow>
   \<exists>b. from_branch_loop H branch None k None buffer = Some b \<and>
     H (fst b @ snd b) = climb H branch k (H (fst buffer @ snd buffer))"
  by (induction k arbitrary: buffer) (auto simp: path_bit_def Let_def)

lemma tree_hash_from_branch_climb:
  assumes "depth \<le> length branch"
  shows "tree_hash_from_branch_with H branch depth leaf None = Some (climb H branch depth leaf)"
proof (cases depth)
  case (Suc k)
  then show ?thesis
    using from_branch_climb [of k branch H "(leaf, branch ! k)"] assms
    by (auto simp: tree_hash_from_branch_with_def path_bit_def Let_def)
qed (simp add: tree_hash_from_branch_with_def)

lemma tree_branch_loop_climb:
  assumes "length row = 2 ^ k" and "take (2 ^ k - 1) ints = tl row" and "k \<le> length branch"
  shows "\<exists>br. tree_branch_loop H (2 ^ k) k ints branch = Some br \<and> length br = length branch \<and>
    climb H br k (hd row) = merkle H k row \<and> (\<forall>i \<ge> k. br ! i = branch ! i)"
  using assms
proof (induction k arbitrary: row ints branch)
  case 0
  then show ?case by (auto simp: length_Suc_conv)
next
  case (Suc k)
  obtain a b rest where row: "row = a # b # rest"
  proof -
    have "2 \<le> length row" using Suc.prems(1) one_le_power [of "2 :: nat" k] by simp
    then show ?thesis by (cases row; cases "tl row") (auto intro: that)
  qed
  have lr: "length rest = 2 * 2 ^ k - 2" using Suc.prems(1) row by simp
  have "take (2 * 2 ^ k - 1) ints = b # rest" using Suc.prems(2) row by simp
  moreover have "(2 :: nat) * 2 ^ k - 1 = Suc (2 * (2 ^ k - 1))" using one_le_power [of "2 :: nat" k] by arith
  ultimately obtain ints1 where ints: "ints = b # ints1" and t: "take (2 * (2 ^ k - 1)) ints1 = rest"
    by (cases ints) auto
  have l1: "2 * (2 ^ k - 1) \<le> length ints1"
  proof -
    have "length rest = min (length ints1) (2 * (2 ^ k - 1))" using t by auto
    then show ?thesis using lr by simp
  qed
  let ?ints = "pairs H rest @ drop (2 ^ k - 1) ints" let ?br = "branch[k := b]"
  have lev: "tree_level H (2 ^ k - 1) 1 0 ints = Some ?ints"
    using tree_level_row [of 1 "2 ^ k - 1" ints H] l1 t by (simp add: ints)
  have st: "tree_branch_loop H (2 ^ Suc k) (Suc k) ints branch = tree_branch_loop H (2 ^ k) k ?ints ?br"
    using lev Suc.prems(3) by (simp add: push_bit_eq_mult drop_bit_eq_div Let_def ints)
  have "length (pairs H row) = 2 ^ k" using Suc.prems(1) by simp
  moreover have "take (2 ^ k - 1) ?ints = tl (pairs H row)" using lr by (simp add: row diff_mult_distrib2)
  ultimately obtain br where br: "tree_branch_loop H (2 ^ k) k ?ints ?br = Some br"
    "length br = length ?br" "climb H br k (hd (pairs H row)) = merkle H k (pairs H row)"
    "\<forall>i \<ge> k. br ! i = ?br ! i" using Suc.IH Suc.prems(3) by (metis Suc_leD length_list_update)
  have "br ! k = b" using br(4) Suc.prems(3) by simp
  then have "climb H br (Suc k) (hd row) = merkle H (Suc k) row"
    using br(3) merkle_pairs [OF Suc.prems(1), of H] by (simp add: row)
  moreover have "\<forall>i \<ge> Suc k. br ! i = branch ! i" using br(4) by auto
  ultimately show ?case using st br(1,2) by auto
qed

lemma tree_branch_with_root:
  assumes "0 < length hashes" and "length hashes \<le> 0x10000000" and "floor_log2 d (length hashes)"
    and "d \<le> length branch"
  shows "\<exists>br. tree_branch_with H junk hashes (length hashes) branch = Some br \<and>
    length br = length branch \<and> climb H br d (hashes ! 0) = tree_root H hashes d"
proof -
  let ?c = "2 ^ d :: nat" let ?len = "length hashes"
  have c: "?c \<le> ?len" "?len < 2 * ?c" using assms(3) by (simp_all add: floor_log2_def)
  have "2 ^ 0 \<le> ?len" "?len < 2 ^ (0 + 2 * 2 ^ 5)" using assms(1,2) by (simp_all add: Suc_leI)
  then obtain d' where "tree_branch_cnt ?len (2 ^ 5) (2 ^ 0) 0 = (2 ^ d', d')" "floor_log2 d' ?len"
    using tree_branch_cnt_log by blast
  then have cnt: "tree_branch_cnt ?len 32 1 0 = (?c, d)" using floor_log2_unique [OF assms(3)] by auto
  have dep: "tree_depth ?len = Some d"
    by (rule tree_depth_eq) (use assms(2,3) in simp_all)
  let ?n = "2 * ?c - ?len - 1"
  let ?ints = "take ?n (drop 1 hashes) @ replicate (?c - 1 - ?n) junk"
  have li: "length ?ints = ?c - 1" using c by simp
  have "tree_fill H hashes (length ?ints) (2 * ?c - ?len) ?n ?ints =
      Some (?len, take ?n ?ints @ pairs H (drop (2 * ?c - ?len) hashes))"
    by (rule tree_fill_pairs [where m = "?len - ?c"]) (use c li in linarith)+
  moreover have tk: "take ?n ?ints = take ?n (drop 1 hashes)" using c by simp
  ultimately have fill: "tree_fill H hashes (?c - 1) (2 * ?c - ?len) ?n ?ints =
      Some (?len, take ?n (drop 1 hashes) @ pairs H (drop (2 * ?c - ?len) hashes))"
    unfolding li tk by simp
  have "2 * ?c - ?len = Suc ?n" using c by simp
  then have row: "leaf_row H ?c hashes =
      hashes ! 0 # take ?n (drop 1 hashes) @ pairs H (drop (2 * ?c - ?len) hashes)"
    using assms(1) by (cases hashes) (simp_all add: leaf_row_def)
  have lrow: "length (leaf_row H ?c hashes) = ?c" using c by (intro length_leaf_row) simp_all
  then have "length (take ?n (drop 1 hashes) @ pairs H (drop (2 * ?c - ?len) hashes)) = ?c - 1"
    unfolding row length_Cons by linarith
  then have "take (?c - 1) (take ?n (drop 1 hashes) @ pairs H (drop (2 * ?c - ?len) hashes)) =
      tl (leaf_row H ?c hashes)"
    by (simp only: row list.sel take_all order_refl)
  from tree_branch_loop_climb [OF lrow this assms(4)] show ?thesis
    using assms(1) cnt dep fill by (auto simp: tree_branch_with_def Let_def row tree_root_def push_bit_eq_mult)
qed

subsection \<open>Correctness\<close>

text \<open>
  C4: for every list of 1 up to \<open>2 ^ 28\<close> hashes \<open>tree_hash\<close> stays within its arrays, passes
  its assertions and returns the root of the specified tree: a perfect binary tree of the
  depth that \<open>tree_depth\<close> computes over the leaf row.
\<close>

theorem tree_hash_correct:
  assumes "0 < length hashes" and "length hashes \<le> 0x10000000"
  shows "\<exists>d. tree_depth (length hashes) = Some d \<and>
    2 ^ d \<le> length hashes \<and> length hashes < 2 ^ Suc d \<and>
    tree_hash hashes (length hashes) = Some (tree_root cn_fast_hash hashes d)"
  using tree_depth_log [of "length hashes"] tree_hash_with_root [OF assms] assms
  by (auto simp: tree_hash_def floor_log2_def)

theorem tree_hash_correct_witness:
  "0 < length [[1], [2], [3 :: u8]] \<and> length [[1], [2], [3 :: u8]] \<le> 0x10000000 \<and>
   tree_hash [[1], [2], [3]] 3 = Some (tree_root cn_fast_hash [[1], [2], [3]] 1)"
proof -
  have "\<exists>d. 2 ^ d \<le> (3 :: nat) \<and> 3 < (2 :: nat) ^ Suc d \<and>
      tree_hash [[1], [2], [3]] 3 = Some (tree_root cn_fast_hash [[1], [2], [3]] d)"
    using tree_hash_correct [of "[[1], [2], [3]]"] by (auto simp: numeral_3_eq_3)
  moreover have "d = 1" if "2 ^ d \<le> (3 :: nat)" "3 < (2 :: nat) ^ Suc d" for d
    using floor_log2_unique [of d 3 1] that by (simp add: floor_log2_def)
  ultimately show ?thesis by auto
qed

text \<open>
  C3: the branch that \<open>tree_branch\<close> extracts for the first hash proves it: hashing from that
  leaf along the branch with \<open>tree_hash_from_branch\<close> gives the root that \<open>tree_hash\<close>
  computes, whatever the freshly allocated work array contains.
\<close>

theorem tree_branch_proves_leaf:
  assumes "0 < length hashes" and "length hashes \<le> 0x10000000"
    and "tree_depth (length hashes) = Some depth" and "length branch = depth"
  shows "\<exists>br root. tree_branch junk hashes (length hashes) branch = Some br \<and> length br = depth \<and>
    tree_hash hashes (length hashes) = Some root \<and>
    tree_hash_from_branch br depth (hashes ! 0) None = Some root"
proof -
  have d: "floor_log2 depth (length hashes)" using tree_depth_log [of "length hashes"] assms(1-3) by auto
  obtain br where "tree_branch junk hashes (length hashes) branch = Some br" "length br = depth"
    "climb cn_fast_hash br depth (hashes ! 0) = tree_root cn_fast_hash hashes depth"
    using tree_branch_with_root [OF assms(1,2) d, of branch cn_fast_hash junk] assms(4)
    by (auto simp: tree_branch_def)
  then show ?thesis
    using tree_hash_with_root [OF assms(1,2) d, of cn_fast_hash]
    by (simp add: tree_hash_def tree_hash_from_branch_def tree_hash_from_branch_climb)
qed

theorem tree_branch_proves_leaf_witness:
  "0 < length [[1], [2], [3 :: u8]] \<and> length [[1], [2], [3 :: u8]] \<le> 0x10000000 \<and>
   tree_depth (length [[1], [2], [3 :: u8]]) = Some 1 \<and>
   (\<exists>br root. tree_branch [0] [[1], [2], [3]] 3 [[]] = Some br \<and> length br = 1 \<and>
     tree_hash [[1], [2], [3]] 3 = Some root \<and> tree_hash_from_branch br 1 [1] None = Some root)"
proof -
  have t: "tree_depth (length [[1], [2], [3 :: u8]]) = Some 1"
    by (rule tree_depth_eq) (simp_all add: floor_log2_def)
  show ?thesis
    using tree_branch_proves_leaf [of "[[1], [2], [3]]" 1 "[[]]" "[0]"] t by (simp add: numeral_3_eq_3)
qed

end
