(* ===== verification/Difficulty.thy ===== *)
theory Difficulty
  imports Int_Util
begin

text \<open>
  The proof-of-work check and the difficulty adjustment of
  \<open>cryptonote_basic/difficulty.cpp\<close>. A hash is its 32 bytes, read as four little-endian
  words; timestamps and cumulative difficulties are lists of 64-bit words. A failed
  \<open>assert\<close>, an index out of range and a division by zero are \<open>None\<close>. The floating-point
  branch of \<open>next_difficulty\<close> for block version 4 is an argument of the model.
\<close>

subsection \<open>Constants\<close>

definition DIFFICULTY_TARGET_V2 :: u64 where "DIFFICULTY_TARGET_V2 = 120"
definition DIFFICULTY_TARGET_V1 :: u64 where "DIFFICULTY_TARGET_V1 = 120"
definition DIFFICULTY_WINDOW :: nat where "DIFFICULTY_WINDOW = 720"
definition DIFFICULTY_WINDOW_V2 :: nat where "DIFFICULTY_WINDOW_V2 = 17"
definition DIFFICULTY_WINDOW_V4 :: nat where "DIFFICULTY_WINDOW_V4 = 60"
definition DIFFICULTY_CUT :: nat where "DIFFICULTY_CUT = 60"
definition DIFFICULTY_CUT_V2 :: nat where "DIFFICULTY_CUT_V2 = 6"
definition DIFFICULTY_BLOCKS_COUNT_V2 :: nat where
  "DIFFICULTY_BLOCKS_COUNT_V2 = DIFFICULTY_WINDOW_V2 + DIFFICULTY_CUT_V2 * 2"
definition MAX_AVERAGE_TIMESPAN :: u64 where "MAX_AVERAGE_TIMESPAN = DIFFICULTY_TARGET_V2 * 12"
definition MIN_AVERAGE_TIMESPAN :: u64 where "MIN_AVERAGE_TIMESPAN = DIFFICULTY_TARGET_V2 div 12"

subsection \<open>The proof-of-work check\<close>

text \<open>The portable double-width product; the result is the low and the high word.\<close>

definition mul_portable :: "u64 \<Rightarrow> u64 \<Rightarrow> u64 \<times> u64" where
  "mul_portable a b =
     (let aLow = a AND 0xFFFFFFFF; aHigh = drop_bit 32 a;
          bLow = b AND 0xFFFFFFFF; bHigh = drop_bit 32 b;
          res = aLow * bLow; lowRes1 = res AND 0xFFFFFFFF; carry = drop_bit 32 res;
          res = aHigh * bLow + carry; highResHigh1 = drop_bit 32 res; highResLow1 = res AND 0xFFFFFFFF;
          res = aLow * bHigh; lowRes2 = res AND 0xFFFFFFFF; carry = drop_bit 32 res;
          res = aHigh * bHigh + carry; highResHigh2 = drop_bit 32 res; highResLow2 = res AND 0xFFFFFFFF;
          r = highResLow1 + lowRes2; carry = drop_bit 32 r; low = push_bit 32 r OR lowRes1;
          r = highResHigh1 + highResLow2 + carry; d3 = r AND 0xFFFFFFFF; carry = drop_bit 32 r;
          r = highResHigh2 + carry
      in (low, d3 OR push_bit 32 r))"

definition cadd :: "u64 \<Rightarrow> u64 \<Rightarrow> bool" where
  "cadd a b = (a + b < a)"

definition cadc :: "u64 \<Rightarrow> u64 \<Rightarrow> bool \<Rightarrow> bool" where
  "cadc a b c = (a + b < a \<or> (c \<and> a + b = - 1))"

definition hash_word :: "blob \<Rightarrow> nat \<Rightarrow> u64" where
  "hash_word hash i = ident64 (le_word (take 8 (drop (8 * i) hash)))"

definition check_hash_with :: "(u64 \<Rightarrow> u64 \<Rightarrow> u64 \<times> u64) \<Rightarrow> blob \<Rightarrow> u64 \<Rightarrow> bool" where
  "check_hash_with mul hash difficulty =
     (if hash = replicate 32 0 then False
      else let (top, high) = mul (hash_word hash 3) difficulty
           in if high \<noteq> 0 then False
              else let (low, cur) = mul (hash_word hash 0) difficulty;
                       (low, high) = mul (hash_word hash 1) difficulty;
                       carry = cadd cur low;
                       cur = high;
                       (low, high) = mul (hash_word hash 2) difficulty;
                       carry = cadc cur low carry;
                       carry = cadc high top carry
                   in \<not> carry)"

text \<open>The instance of the 64-bit targets.\<close>

definition check_hash :: "blob \<Rightarrow> u64 \<Rightarrow> bool" where
  "check_hash = check_hash_with mul128"

subsection \<open>The difficulty adjustment\<close>

text \<open>
  Version 5 and later (LWMA-3). The loop state is \<open>prev_max_TS\<close>, \<open>L\<close> and \<open>sum_3_ST\<close>.
\<close>

function lwma3_loop :: "u64 list \<Rightarrow> nat \<Rightarrow> nat \<Rightarrow> u64 \<times> u64 \<times> u64 \<Rightarrow> (u64 \<times> u64 \<times> u64) option" where
  "lwma3_loop timestamps N i (prev_max_TS, L, sum_3_ST) =
     (if i \<le> N
      then if length timestamps \<le> i then None
           else let max_TS = (if prev_max_TS < timestamps ! i then timestamps ! i else prev_max_TS + 1);
                    ST = min (6 * DIFFICULTY_TARGET_V2) (max_TS - prev_max_TS)
                in lwma3_loop timestamps N (i + 1)
                     (max_TS, L + ST * of_nat i, if N - 3 < i then sum_3_ST + ST else sum_3_ST)
      else Some (prev_max_TS, L, sum_3_ST))"
  by pat_completeness auto
termination by (relation "measure (\<lambda>(_, N, i, _). Suc N - i)") auto

declare lwma3_loop.simps [simp del]

definition next_difficulty_v5 :: "u64 list \<Rightarrow> u64 list \<Rightarrow> u64 option" where
  "next_difficulty_v5 timestamps cumulativeDifficulties =
     (let T = DIFFICULTY_TARGET_V2; N = DIFFICULTY_WINDOW_V4
      in if \<not> (length timestamps = length cumulativeDifficulties \<and> length timestamps \<le> N + 1) then None
         else if length timestamps \<le> 10 then Some 10000
         else let N = (if length timestamps < N + 1 then length timestamps - 1 else N)
              in case lwma3_loop timestamps N 1 (timestamps ! 0, 0, 0) of
                   None \<Rightarrow> None
                 | Some (_, L, sum_3_ST) \<Rightarrow>
                     if 100 * 2 * L = 0 then None
                     else let next_D = ((cumulativeDifficulties ! N - cumulativeDifficulties ! 0) * T * (of_nat N + 1) * 99)
                                         div (100 * 2 * L);
                              prev_D = cumulativeDifficulties ! N - cumulativeDifficulties ! (N - 1);
                              next_D = max ((prev_D * 67) div 100) (min next_D ((prev_D * 150) div 100))
                          in Some (if sum_3_ST < (8 * T) div 10 then max next_D ((prev_D * 108) div 100)
                                   else next_D))"

text \<open>\<open>epee::misc_utils::median\<close> on 64-bit words.\<close>

definition median :: "u64 list \<Rightarrow> u64" where
  "median v =
     (if v = [] then 0
      else if length v = 1 then v ! 0
      else let n = length v div 2; v = sort v
           in if odd (length v) then v ! n else (v ! (n - 1) + v ! n) div 2)"

text \<open>
  The window of the sorted timestamps: \<open>cutBegin\<close> and \<open>cutEnd\<close> for a window of \<open>w\<close> entries.
\<close>

definition cut_window :: "nat \<Rightarrow> nat \<Rightarrow> nat \<times> nat" where
  "cut_window w len =
     (if len \<le> w then (0, len) else let cutBegin = (len - w + 1) div 2 in (cutBegin, cutBegin + w))"

text \<open>\<open>std::vector::resize\<close>: cut off, or extended with zeros.\<close>

definition vec_resize :: "nat \<Rightarrow> u64 list \<Rightarrow> u64 list" where
  "vec_resize n v = take n v @ replicate (n - length v) 0"

definition time_spans :: "u64 list \<Rightarrow> nat \<Rightarrow> nat \<Rightarrow> u64 list" where
  "time_spans timestamps len cutBegin =
     map (\<lambda>i. let time_span = timestamps ! (i + 1) - timestamps ! i
              in if time_span = 0 then 1 else time_span)
       [len - cutBegin * 2 - 3..<len - 1]"

definition next_difficulty_v3 :: "u64 list \<Rightarrow> u64 list \<Rightarrow> u64 option" where
  "next_difficulty_v3 timestamps cumulativeDifficulties =
     (let (timestamps, cumulativeDifficulties) =
            (if DIFFICULTY_BLOCKS_COUNT_V2 < length timestamps
             then (vec_resize DIFFICULTY_BLOCKS_COUNT_V2 timestamps,
                   vec_resize DIFFICULTY_BLOCKS_COUNT_V2 cumulativeDifficulties)
             else (timestamps, cumulativeDifficulties));
          len = length timestamps
      in if len \<noteq> length cumulativeDifficulties then None
         else if len \<le> 1 then Some 1
         else let timestamps = sort timestamps;
                  (cutBegin, cutEnd) = cut_window (DIFFICULTY_BLOCKS_COUNT_V2 - 2 * DIFFICULTY_CUT_V2) len
              in if \<not> (cutBegin + 2 \<le> cutEnd \<and> cutEnd \<le> len) then None
                 else let totalTimespan = timestamps ! (cutEnd - 1) - timestamps ! cutBegin;
                          totalTimespan = (if totalTimespan = 0 then 1 else totalTimespan);
                          timespan_median = (if 0 < cutBegin \<and> cutBegin * 2 + 3 \<le> len
                            then median (time_spans timestamps len cutBegin) else 0);
                          timespan_length = of_nat (len - cutBegin * 2 - 1);
                          total_timespan_median = (if 0 < timespan_median then timespan_median * timespan_length
                            else totalTimespan * 7 div 10);
                          adjusted = (totalTimespan * 8 + total_timespan_median * 3) div 10;
                          adjusted = (if MAX_AVERAGE_TIMESPAN * timespan_length < adjusted
                            then MAX_AVERAGE_TIMESPAN * timespan_length else adjusted);
                          adjusted = (if adjusted < MIN_AVERAGE_TIMESPAN * timespan_length
                            then MIN_AVERAGE_TIMESPAN * timespan_length else adjusted);
                          totalWork = cumulativeDifficulties ! (cutEnd - 1) - cumulativeDifficulties ! cutBegin
                      in if totalWork = 0 then None
                         else let (low, high) = mul128 totalWork DIFFICULTY_TARGET_V2
                              in if high \<noteq> 0 \<or> - 1 - low < totalTimespan - 1 then Some 0
                                 else if adjusted = 0 then None
                                 else let next_diff = (low + adjusted - 1) div adjusted
                                      in Some (if next_diff < 1 then 1 else next_diff))"

definition next_difficulty_v1 :: "u64 list \<Rightarrow> u64 list \<Rightarrow> u64 option" where
  "next_difficulty_v1 timestamps cumulativeDifficulties =
     (let (timestamps, cumulativeDifficulties) =
            (if DIFFICULTY_WINDOW < length timestamps
             then (vec_resize DIFFICULTY_WINDOW timestamps, vec_resize DIFFICULTY_WINDOW cumulativeDifficulties)
             else (timestamps, cumulativeDifficulties));
          len = length timestamps
      in if len \<noteq> length cumulativeDifficulties then None
         else if len \<le> 1 then Some 1
         else let timestamps = sort timestamps;
                  (cutBegin, cutEnd) = cut_window (DIFFICULTY_WINDOW - 2 * DIFFICULTY_CUT) len
              in if \<not> (cutBegin + 2 \<le> cutEnd \<and> cutEnd \<le> len) then None
                 else let timeSpan = timestamps ! (cutEnd - 1) - timestamps ! cutBegin;
                          timeSpan = (if timeSpan = 0 then 1 else timeSpan);
                          totalWork = cumulativeDifficulties ! (cutEnd - 1) - cumulativeDifficulties ! cutBegin
                      in if totalWork = 0 then None
                         else let (low, high) = mul128 totalWork DIFFICULTY_TARGET_V1
                              in if high \<noteq> 0 \<or> - 1 - low < timeSpan - 1 then Some 0
                                 else Some ((low + timeSpan - 1) div timeSpan))"

definition next_difficulty ::
    "(u64 list \<Rightarrow> u64 list \<Rightarrow> u64 option) \<Rightarrow> u8 \<Rightarrow> u64 list \<Rightarrow> u64 list \<Rightarrow> u64 option" where
  "next_difficulty lwma_v4 blockMajorVersion timestamps cumulativeDifficulties =
     (if 5 \<le> blockMajorVersion then next_difficulty_v5 timestamps cumulativeDifficulties
      else if blockMajorVersion = 4 then lwma_v4 timestamps cumulativeDifficulties
      else if blockMajorVersion = 3 then next_difficulty_v3 timestamps cumulativeDifficulties
      else next_difficulty_v1 timestamps cumulativeDifficulties)"

subsection \<open>The portable product\<close>

lemma low32: "(x :: u64) AND 0xFFFFFFFF = lo_dword x" and high32: "drop_bit 32 (x :: u64) = hi_dword x"
  by (simp_all add: lo_dword_def hi_dword_def)

lemma dword_split: "unat x = unat (hi_dword x) * 4294967296 + unat (lo_dword x)"
  by (simp add: unat_rules)

lemma unat_dword_less: "unat (hi_dword x) < 4294967296" "unat (lo_dword x) < 4294967296"
  using unat_less_u64 [of x] by (auto simp: unat_rules)

lemma dword_square:
  assumes "a < 4294967296" and "b < 4294967296" and "c < 4294967296"
  shows "a * b + c < (18446744073709551616 :: nat)"
  using mul_dword_bound [OF assms(1,2)] assms(3) by simp

lemma mul_portable_value:
  "unat (fst (mul_portable a b)) + 18446744073709551616 * unat (snd (mul_portable a b)) = unat a * unat b"
proof -
  define X :: nat where "X = 4294967296"
  define aL aH bL bH where ab: "aL = lo_dword a" "aH = hi_dword a" "bL = lo_dword b" "bH = hi_dword b"
  have lt: "unat aL < 4294967296" "unat aH < 4294967296" "unat bL < 4294967296" "unat bH < 4294967296"
    by (simp_all add: ab unat_dword_less)
  define p1 where "p1 = aL * bL"
  define p2 where "p2 = aH * bL + hi_dword p1"
  define p3 where "p3 = aL * bH"
  define p4 where "p4 = aH * bH + hi_dword p3"
  define r1 where "r1 = lo_dword p2 + lo_dword p3"
  define r2 where "r2 = hi_dword p2 + lo_dword p4 + hi_dword r1"
  define r3 where "r3 = hi_dword p4 + hi_dword r2"
  have u1: "unat p1 = unat aL * unat bL" and u3: "unat p3 = unat aL * unat bH"
    using lt dword_square [of _ _ 0] by (simp_all add: p1_def p3_def unat_mult_noov)
  have u2: "unat p2 = unat aH * unat bL + unat (hi_dword p1)"
    and u4: "unat p4 = unat aH * unat bH + unat (hi_dword p3)"
    using lt dword_square [of "unat aH"] dword_square [of "unat aH" _ 0] unat_dword_less
    by (simp_all add: p2_def p4_def unat_add_noov unat_mult_noov)
  have v1: "unat r1 = unat (lo_dword p2) + unat (lo_dword p3)"
    using unat_dword_less [of p2] unat_dword_less [of p3] by (simp add: r1_def unat_add_noov)
  have v2: "unat r2 = unat (hi_dword p2) + unat (lo_dword p4) + unat (hi_dword r1)"
    using unat_dword_less [of p2] unat_dword_less [of p4] unat_dword_less [of r1]
    by (simp add: r2_def unat_add_noov)
  have v3: "unat r3 = unat (hi_dword p4) + unat (hi_dword r2)"
    using unat_dword_less [of p4] unat_dword_less [of r2] by (simp add: r3_def unat_add_noov)
  have low: "unat (push_bit 32 r1 OR lo_dword p1) = unat (lo_dword r1) * X + unat (lo_dword p1)"
  proof -
    have m: "(0xFFFFFFFF :: u64) = mask 32" by (simp add: mask_eq_exp_minus_1)
    have "push_bit 32 r1 = push_bit 32 (lo_dword r1)"
      unfolding lo_dword_def m by (rule bit_word_eqI) (auto simp: bit_simps)
    then show ?thesis
      using unat_push_or [of "lo_dword p1" 32 "lo_dword r1"] unat_dword_less [of p1] unat_dword_less [of r1]
      by (simp add: X_def)
  qed
  have sum: "unat a * unat b = unat (lo_dword p1) + X * unat (lo_dword r1) +
      X * X * (unat (lo_dword r2) + X * unat r3)"
  proof -
    have "unat a = unat aH * X + unat aL" "unat b = unat bH * X + unat bL"
      using dword_split [of a] dword_split [of b] by (simp_all add: ab X_def)
    then have "unat a * unat b = unat p1 + X * (unat aH * unat bL) + X * unat p3 + X * X * (unat aH * unat bH)"
      by (simp add: u1 u3 algebra_simps)
    moreover have s: "unat p1 = X * unat (hi_dword p1) + unat (lo_dword p1)"
      "unat p2 = X * unat (hi_dword p2) + unat (lo_dword p2)"
      "unat p3 = X * unat (hi_dword p3) + unat (lo_dword p3)"
      "unat p4 = X * unat (hi_dword p4) + unat (lo_dword p4)"
      "unat r1 = X * unat (hi_dword r1) + unat (lo_dword r1)"
      "unat r2 = X * unat (hi_dword r2) + unat (lo_dword r2)"
      unfolding X_def mult.commute [of 4294967296] by (rule dword_split)+
    ultimately show ?thesis using u2 u4 v1 v2 v3 by algebra
  qed
  have "unat a * unat b < 18446744073709551616 * 18446744073709551616"
    by (intro mult_strict_mono unat_less_u64) auto
  with sum have "unat r3 < 4294967296" by (simp add: X_def)
  then have high: "unat (lo_dword r2 OR push_bit 32 r3) = unat r3 * X + unat (lo_dword r2)"
    using unat_push_or [of "lo_dword r2" 32 r3] unat_dword_less [of r2]
    by (simp add: X_def or.commute)
  have "mul_portable a b = (push_bit 32 r1 OR lo_dword p1, lo_dword r2 OR push_bit 32 r3)"
    by (simp add: mul_portable_def Let_def low32 high32 ab p1_def p2_def p3_def p4_def r1_def r2_def r3_def)
  then show ?thesis using sum low high by (simp add: X_def)
qed

interpretation mport: wide_mul mul_portable
  by unfold_locales (rule mul_portable_value)

subsection \<open>The check decides the target\<close>

text \<open>The hash as the number its four little-endian words make up.\<close>

definition hash_value :: "blob \<Rightarrow> nat" where
  "hash_value hash = unat (hash_word hash 0) + 18446744073709551616 * (unat (hash_word hash 1) +
     18446744073709551616 * (unat (hash_word hash 2) + 18446744073709551616 * unat (hash_word hash 3)))"

lemma unat_max_u64: "unat (- 1 :: u64) = 18446744073709551615"
  by (simp add: unsigned_minus_1_eq_mask mask_eq_exp_minus_1)

lemma cadc_carry:
  "unat (a + b + of_bool c) + 18446744073709551616 * of_bool (cadc a b c) = unat a + unat b + of_bool c"
proof (cases c)
  case True
  have m: "a + b = - 1 \<longleftrightarrow> unat (a + b) = 18446744073709551615"
    unfolding word_unat_eq_iff unat_max_u64 ..
  have "unat (a + b + 1) = (if a + b = - 1 then 0 else unat (a + b) + 1)"
    using unat_less_u64 [of "a + b"] m by (auto simp: unat_add_noov)
  then show ?thesis
    using True m unat_add_carry [of a b] unat_less_u64 [of a] unat_less_u64 [of b]
    by (auto simp: cadc_def split: if_splits)
qed (use unat_add_carry [of a b] in \<open>auto simp: cadc_def split: if_splits\<close>)

lemma carry_chain_nat:
  fixes B :: nat
  assumes "r1 + B * c1 = h0 + l1" and "r2 + B * c2 = h1 + l2 + c1" and "r3 + B * c3 = h2 + l3 + c2"
    and "l0 < B" and "r1 < B" and "r2 < B" and "r3 < B"
    and "w0 = l0 + B * h0" and "w1 = l1 + B * h1" and "w2 = l2 + B * h2" and "w3 = l3 + B * h3"
  shows "w0 + B * (w1 + B * (w2 + B * w3)) < B * B * B * B \<longleftrightarrow> c3 = 0 \<and> h3 = 0"
proof -
  have "w0 + B * (w1 + B * (w2 + B * w3)) =
      l0 + B * (r1 + B * (r2 + B * r3)) + B * B * B * B * (c3 + h3)"
    using assms(1-3,8-11) by algebra
  moreover have "l0 + B * (r1 + B * (r2 + B * r3)) < B * B * B * B"
  proof -
    have s: "x + B * y < B * m" if "x < B" "y < m" for x y m
    proof -
      have "x + B * y < B * (y + 1)" using that(1) by (simp add: distrib_left)
      also have "\<dots> \<le> B * m" using that(2) by (intro mult_le_mono2) simp
      finally show ?thesis .
    qed
    have "l0 + B * (r1 + B * (r2 + B * r3)) < B * (B * (B * B))"
      using assms(4-7) by (intro s)
    then show ?thesis by (simp add: mult.assoc)
  qed
  ultimately show ?thesis by (cases "c3 + h3") (auto simp: distrib_left)
qed

context wide_mul
begin

lemma check_hash_with_target:
  "check_hash_with mul hash difficulty \<longleftrightarrow>
     hash \<noteq> replicate 32 0 \<and> hash_value hash * unat difficulty < 2 ^ 256"
proof -
  define w where "w = hash_word hash"
  define l h where "l = (\<lambda>i. fst (mul (w i) difficulty))" and "h = (\<lambda>i. snd (mul (w i) difficulty))"
  define c1 c2 c3 where "c1 = cadd (h 0) (l 1)" and "c2 = cadc (h 1) (l 2) c1" and "c3 = cadc (h 2) (l 3) c2"
  let ?B = "18446744073709551616 :: nat"
  have v: "unat (w i) * unat difficulty = unat (l i) + ?B * unat (h i)" for i
    using mul_value [of "w i" difficulty] by (simp add: l_def h_def)
  have s1: "unat (h 0 + l 1) + ?B * of_bool c1 = unat (h 0) + unat (l 1)"
    using cadc_carry [of "h 0" "l 1" False] by (simp add: c1_def cadc_def cadd_def)
  have "unat (w 0) * unat difficulty + ?B * (unat (w 1) * unat difficulty +
      ?B * (unat (w 2) * unat difficulty + ?B * (unat (w 3) * unat difficulty))) < ?B * ?B * ?B * ?B \<longleftrightarrow>
      of_bool c3 = (0 :: nat) \<and> unat (h 3) = 0"
    by (rule carry_chain_nat [OF s1, of "unat (h 1 + l 2 + of_bool c1)" "of_bool c2" "unat (h 1)" "unat (l 2)"
          "unat (h 2 + l 3 + of_bool c2)" "of_bool c3" "unat (h 2)" "unat (l 3)" "unat (l 0)"])
      (use cadc_carry v in \<open>simp_all add: c2_def c3_def unat_less_u64\<close>)
  then have "hash_value hash * unat difficulty < 2 ^ 256 \<longleftrightarrow> \<not> c3 \<and> h 3 = 0"
    by (simp add: hash_value_def w_def algebra_simps unat_eq_zero)
  then show ?thesis
    by (auto simp: check_hash_with_def Let_def split_def c1_def c2_def c3_def l_def h_def w_def)
qed

end

text \<open>
  C12: a block hash passes \<open>check_hash\<close> exactly when it is not the null hash and, as a 256-bit
  little-endian number, its product with the difficulty is below two to the 256: the
  word-by-word multiplication with its carry chain decides the exact comparison. The same
  holds with the portable multiplication of the other targets.
\<close>

theorem check_hash_target:
  "(check_hash hash difficulty \<longleftrightarrow>
     hash \<noteq> replicate 32 0 \<and> hash_value hash * unat difficulty < 2 ^ 256) \<and>
   (check_hash_with mul_portable hash difficulty \<longleftrightarrow> check_hash hash difficulty)"
  unfolding check_hash_def
  by (simp only: m128.check_hash_with_target mport.check_hash_with_target)

subsection \<open>LWMA-3 is total and limited\<close>

text \<open>Every solve time counts at least one and at most six targets, whatever the timestamps.\<close>

lemma solve_time_bounds:
  fixes ts prev :: u64
  defines "mx \<equiv> (if prev < ts then ts else prev + 1)"
  shows "1 \<le> unat (min 720 (mx - prev))" and "unat (min 720 (mx - prev)) \<le> 720"
proof -
  have "mx - prev \<noteq> 0" by (auto simp: mx_def)
  then have "1 \<le> unat (mx - prev)" by (simp add: Suc_leI unat_gt_0)
  then show "1 \<le> unat (min 720 (mx - prev))" "unat (min 720 (mx - prev)) \<le> 720"
    by (auto simp: min_def word_le_nat_alt)
qed

lemma lwma3_loop_bounds:
  assumes "1 \<le> i" and "i \<le> N + 1" and "N \<le> 60" and "N < length ts"
    and "unat L \<le> 43920 * i"
  shows "\<exists>p L' s'. lwma3_loop ts N i (prev, L, s) = Some (p, L', s') \<and>
    unat L + (N + 1 - i) \<le> unat L' \<and> unat L' \<le> 43920 * (N + 1)"
  using assms
proof (induction "N + 1 - i" arbitrary: i prev L s)
  case 0
  then have "i = N + 1" by simp
  with 0 show ?case by (subst lwma3_loop.simps) simp
next
  case (Suc k)
  define mx where "mx = (if prev < ts ! i then ts ! i else prev + 1)"
  define st where "st = min (6 * DIFFICULTY_TARGET_V2) (mx - prev)"
  have st: "1 \<le> unat st" "unat st \<le> 720"
    using solve_time_bounds [of prev "ts ! i"] by (simp_all add: st_def mx_def DIFFICULTY_TARGET_V2_def)
  have iN: "i \<le> N" "i < length ts" using Suc.hyps(2) Suc.prems(4) by linarith+
  have i: "unat (of_nat i :: u64) = i" using Suc.prems by (simp add: unat_of_nat_u64)
  have "unat st * i \<le> 720 * 61" using st Suc by (intro mult_le_mono) simp_all
  then have m: "unat (st * of_nat i) = unat st * i" by (simp add: unat_mult_noov i)
  have L: "unat (L + st * of_nat i) = unat L + unat st * i"
    using \<open>unat st * i \<le> 720 * 61\<close> Suc.prems by (simp add: unat_add_noov m)
  have "1 * 1 \<le> unat st * i" using st(1) Suc.prems(1) by (intro mult_le_mono)
  have le: "unat (L + st * of_nat i) \<le> 43920 * (i + 1)" using L \<open>unat st * i \<le> 720 * 61\<close> Suc.prems(5) by simp
  have "\<exists>p L' s'. lwma3_loop ts N (i + 1) (mx, L + st * of_nat i, if N - 3 < i then s + st else s) = Some (p, L', s') \<and>
      unat (L + st * of_nat i) + (N + 1 - (i + 1)) \<le> unat L' \<and> unat L' \<le> 43920 * (N + 1)"
    by (rule Suc.hyps(1)) (use Suc le in simp_all)
  moreover have "lwma3_loop ts N i (prev, L, s) =
      lwma3_loop ts N (i + 1) (mx, L + st * of_nat i, if N - 3 < i then s + st else s)"
    using iN by (subst lwma3_loop.simps) (simp add: Let_def mx_def st_def)
  moreover have "unat L + (N + 1 - i) \<le> unat (L + st * of_nat i) + (N + 1 - (i + 1))"
    using L \<open>1 * 1 \<le> unat st * i\<close> by linarith
  ultimately show ?case by fastforce
qed

lemma unat_max_word: "unat (max a b :: u64) = max (unat a) (unat b)"
  and unat_min_word: "unat (min a b :: u64) = min (unat a) (unat b)"
  by (auto simp: max_def min_def word_le_nat_alt)

lemma percent: "unat d * k < 18446744073709551616 \<Longrightarrow> k < 18446744073709551616 \<Longrightarrow>
    unat (d * of_nat k div 100 :: u64) = unat d * k div 100"
  by (simp add: unat_div unat_mult_noov unat_of_nat_u64 del: of_nat_numeral)

lemma next_difficulty_v5_limits:
  assumes "length ts = length cds" and "10 < length ts" and "length ts \<le> 61"
    and "prev_D = cds ! (length ts - 1) - cds ! (length ts - 2)"
    and "unat prev_D * 150 < 18446744073709551616"
  shows "\<exists>r. next_difficulty_v5 ts cds = Some r \<and>
    unat prev_D * 67 div 100 \<le> unat r \<and> unat r \<le> unat prev_D * 150 div 100"
proof -
  define N where "N = length ts - 1"
  have N: "(if length ts < 61 then length ts - 1 else 60) = N" "1 \<le> N" "N \<le> 60" "N < length ts"
    using assms(2,3) by (auto simp: N_def)
  obtain p L s where L: "lwma3_loop ts N 1 (ts ! 0, 0, 0) = Some (p, L, s)" "N \<le> unat L" "unat L \<le> 43920 * (N + 1)"
    using lwma3_loop_bounds [of 1 N ts 0 "ts ! 0" 0] N by auto
  have "unat (200 * L) = 200 * unat L" using L(3) N(3) by (simp add: unat_mult_noov)
  then have nz: "200 * L \<noteq> 0" using L(2) N(2) by (auto simp: word_unat_eq_iff)
  have pc: "unat (prev_D * 67 div 100) = unat prev_D * 67 div 100"
    "unat (prev_D * 108 div 100) = unat prev_D * 108 div 100"
    "unat (prev_D * 150 div 100) = unat prev_D * 150 div 100"
    using assms(5) percent [of prev_D 67] percent [of prev_D 108] percent [of prev_D 150] by simp_all
  have ord: "unat prev_D * 67 div 100 \<le> unat prev_D * 150 div 100"
    "unat prev_D * 108 div 100 \<le> unat prev_D * 150 div 100" by (intro div_le_mono; simp)+
  define nD where "nD = (cds ! N - cds ! 0) * 120 * (of_nat N + 1) * 99 div (200 * L)"
  define lim where "lim = max (prev_D * 67 div 100) (min nD (prev_D * 150 div 100))"
  have lim: "unat prev_D * 67 div 100 \<le> unat lim" "unat lim \<le> unat prev_D * 150 div 100"
    using ord by (simp_all add: lim_def unat_max_word unat_min_word pc)
  have "cds ! N - cds ! (N - 1) = prev_D" using assms(4) by (simp add: N_def numeral_2_eq_2)
  then have "next_difficulty_v5 ts cds = Some (if s < 96 then max lim (prev_D * 108 div 100) else lim)"
    using assms(1-3) L(1) nz N(1)
    by (simp add: next_difficulty_v5_def Let_def DIFFICULTY_TARGET_V2_def DIFFICULTY_WINDOW_V4_def lim_def nD_def)
  then show ?thesis using lim ord by (auto simp: unat_max_word pc)
qed

text \<open>
  C13: from block version 5 on, whatever the timestamps, the difficulty computation neither
  divides by zero nor reads out of range, and the new difficulty lies between 67 and 150
  percent of the last block's, as long as 150 times that difficulty fits 64 bits.
\<close>

theorem next_difficulty_limits:
  assumes "5 \<le> version" and "length timestamps = length cumulative"
    and "10 < length timestamps" and "length timestamps \<le> 61"
    and "prev_D = cumulative ! (length timestamps - 1) - cumulative ! (length timestamps - 2)"
    and "unat prev_D * 150 < 18446744073709551616"
  shows "\<exists>r. next_difficulty v4 version timestamps cumulative = Some r \<and>
    unat prev_D * 67 div 100 \<le> unat r \<and> unat r \<le> unat prev_D * 150 div 100"
  using next_difficulty_v5_limits [OF assms(2-6)] assms(1) by (simp add: next_difficulty_def)

theorem next_difficulty_limits_witness:
  "\<exists>r. next_difficulty (\<lambda>_ _. None) 5 (replicate 11 (0 :: u64)) [0, 100, 200, 300, 400, 500, 600, 700, 800, 900, 1000] = Some r \<and>
    67 \<le> unat r \<and> unat r \<le> 150"
  using next_difficulty_limits [of 5 "replicate 11 0" "[0, 100, 200, 300, 400, 500, 600, 700, 800, 900, 1000]" 100 "\<lambda>_ _. None"]
  by simp

subsection \<open>The original rule rounds up exactly\<close>

lemma cut_window_ok:
  assumes "2 \<le> w" and "2 \<le> len"
  shows "fst (cut_window w len) + 2 \<le> snd (cut_window w len)" and "snd (cut_window w len) \<le> len"
  using assms by (auto simp: cut_window_def Let_def)

lemma guarded_ceiling:
  fixes low high span :: u64
  assumes "unat low + 18446744073709551616 * unat high = n" and "1 \<le> unat span"
  shows "(if high \<noteq> 0 \<or> - 1 - low < span - 1 then 0 else (low + span - 1) div span) =
    (of_nat (if n + (unat span - 1) < 18446744073709551616 then (n + (unat span - 1)) div unat span else 0) :: u64)"
proof -
  have s1: "unat (span - 1) = unat span - 1" using assms(2) by (simp add: unat_sub_noov word_le_nat_alt)
  have m1: "unat (- 1 - low) = 18446744073709551615 - unat low"
    using unat_sub_noov [of low "- 1"] unat_max_u64 by simp
  have g: "high \<noteq> 0 \<or> - 1 - low < span - 1 \<longleftrightarrow> \<not> n + (unat span - 1) < 18446744073709551616"
    using assms(1) unat_less_u64 [of low] s1 m1 by (auto simp: word_less_nat_alt unat_eq_zero [symmetric])
  show ?thesis
  proof (cases "n + (unat span - 1) < 18446744073709551616")
    case True
    then have h: "high = 0" using g by auto
    then have "unat (low + (span - 1)) = n + (unat span - 1)"
      using True assms(1) s1 by (simp add: unat_add_noov)
    then have "unat ((low + (span - 1)) div span) = (n + (unat span - 1)) div unat span"
      by (simp add: unat_div)
    then have "(low + (span - 1)) div span = of_nat ((n + (unat span - 1)) div unat span)"
      by (metis of_nat_unat ucast_id)
    then show ?thesis using True g by (simp add: add_diff_eq)
  qed (use g in simp)
qed

text \<open>Before block version 3, on two or more blocks of a window with some work done, the new
  difficulty is the work times the target divided by the time span (at least one second) of
  the cut window of sorted timestamps, rounded up, computed without intermediate overflow;
  it is 0 when the rounding does not fit 64 bits.
\<close>

lemma next_difficulty_original:
  assumes "version < 3" and "length cumulative = length timestamps"
    and "2 \<le> length timestamps" and "length timestamps \<le> 720"
    and "cut_window 600 (length timestamps) = (b, e)"
    and "work = cumulative ! (e - 1) - cumulative ! b" and "work \<noteq> 0"
    and "span = max 1 (unat (sort timestamps ! (e - 1)) - unat (sort timestamps ! b))"
  shows "next_difficulty v4 version timestamps cumulative = Some (of_nat
    (if unat work * 120 + (span - 1) < 18446744073709551616
     then (unat work * 120 + (span - 1)) div span else 0))"
proof -
  define sp where "sp = sort timestamps ! (e - 1) - sort timestamps ! b"
  have be: "b + 2 \<le> e" "e \<le> length timestamps"
    using cut_window_ok [of 600 "length timestamps"] assms(3,5) by simp_all
  then have "sort timestamps ! b \<le> sort timestamps ! (e - 1)"
    by (intro sorted_nth_mono) simp_all
  then have sp: "unat sp = unat (sort timestamps ! (e - 1)) - unat (sort timestamps ! b)"
    by (simp add: sp_def unat_sub_noov)
  define sp1 where "sp1 = (if sp = 0 then 1 else sp)"
  have sp1: "unat sp1 = span" "1 \<le> unat sp1"
    using assms(8) unat_gt_0 [of sp] unfolding sp [symmetric] by (auto simp: sp1_def max_def)
  have v: "unat (fst (mul128 work 120)) + 18446744073709551616 * unat (snd (mul128 work 120)) = unat work * 120"
    using m128.mul_value [of work 120] by simp
  have "next_difficulty_v1 timestamps cumulative =
      Some (if snd (mul128 work 120) \<noteq> 0 \<or> - 1 - fst (mul128 work 120) < sp1 - 1 then 0
            else (fst (mul128 work 120) + sp1 - 1) div sp1)"
    using assms(2-7) be
    by (simp add: next_difficulty_v1_def Let_def DIFFICULTY_WINDOW_def DIFFICULTY_CUT_def
        DIFFICULTY_TARGET_V1_def split_def sp_def sp1_def)
  then have "next_difficulty_v1 timestamps cumulative = Some (of_nat
      (if unat work * 120 + (span - 1) < 18446744073709551616
       then (unat work * 120 + (span - 1)) div span else 0))"
    unfolding guarded_ceiling [OF v sp1(2)] sp1(1) .
  moreover have "\<not> 5 \<le> version \<and> version \<noteq> 4 \<and> version \<noteq> 3"
    using assms(1) by (auto simp: word_le_nat_alt word_less_nat_alt)
  ultimately show ?thesis by (simp add: next_difficulty_def)
qed

lemma next_difficulty_original_witness:
  "next_difficulty (\<lambda>_ _. None) 1 [0, 240] [0, 100] = Some 50"
  using next_difficulty_original [of 1 "[0, 100]" "[0, 240]" 0 2 100 240 "\<lambda>_ _. None"]
  by (simp add: cut_window_def)

end
