(* ===== verification/Block_Reward.thy ===== *)
theory Block_Reward
  imports Difficulty
begin

text \<open>
  The emission: the block subsidy of \<open>cryptonote_basic/cryptonote_basic_impl.cpp\<close>, the check
  of the coinbase transaction in \<open>cryptonote_core/blockchain.cpp\<close> and the capped counter of
  generated coins. Output parameters are part of the result; a failed \<open>assert\<close> and a division
  by zero are \<open>None\<close>.
\<close>

subsection \<open>Definitions\<close>

definition MONEY_SUPPLY :: u64 where "MONEY_SUPPLY = 99948151623421337"
definition EMISSION_SPEED_FACTOR_PER_MINUTE :: int where "EMISSION_SPEED_FACTOR_PER_MINUTE = 20"
definition FINAL_SUBSIDY_PER_MINUTE :: u64 where "FINAL_SUBSIDY_PER_MINUTE = 2900000000"
definition CRYPTONOTE_BLOCK_GRANTED_FULL_REWARD_ZONE_V2 :: u64 where
  "CRYPTONOTE_BLOCK_GRANTED_FULL_REWARD_ZONE_V2 = 1000000"
definition CRYPTONOTE_BLOCK_GRANTED_FULL_REWARD_ZONE_V1 :: u64 where
  "CRYPTONOTE_BLOCK_GRANTED_FULL_REWARD_ZONE_V1 = 20000"
definition CRYPTONOTE_BLOCK_GRANTED_FULL_REWARD_ZONE_V5 :: u64 where
  "CRYPTONOTE_BLOCK_GRANTED_FULL_REWARD_ZONE_V5 = 1000000"

definition get_min_block_size :: "u8 \<Rightarrow> u64" where
  "get_min_block_size version =
     (if version < 2 then CRYPTONOTE_BLOCK_GRANTED_FULL_REWARD_ZONE_V1
      else if version < 6 then CRYPTONOTE_BLOCK_GRANTED_FULL_REWARD_ZONE_V2
      else CRYPTONOTE_BLOCK_GRANTED_FULL_REWARD_ZONE_V5)"

definition get_max_block_size :: u64 where "get_max_block_size = 500000000"

definition get_max_tx_size :: u64 where "get_max_tx_size = 1000000000"

text \<open>The part of \<open>get_block_reward\<close> before the block size is looked at.\<close>

definition block_base_reward :: "u64 \<Rightarrow> u8 \<Rightarrow> u64" where
  "block_base_reward already_generated_coins version =
     (let target = (if version < 2 then DIFFICULTY_TARGET_V1 else DIFFICULTY_TARGET_V2);
          target_minutes = target div 60;
          emission_speed_factor = EMISSION_SPEED_FACTOR_PER_MINUTE - (uint target_minutes - 1);
          orig_already_generated_coins = already_generated_coins;
          already_generated_coins =
            (if version < 8 \<and> 14992413379483553 \<le> orig_already_generated_coins
             then already_generated_coins - 14992032107906461 else already_generated_coins);
          base_reward = drop_bit (nat emission_speed_factor) (MONEY_SUPPLY - already_generated_coins);
          base_reward = (if base_reward < FINAL_SUBSIDY_PER_MINUTE * target_minutes
            then FINAL_SUBSIDY_PER_MINUTE * target_minutes else base_reward)
      in if 0 < orig_already_generated_coins \<and> orig_already_generated_coins < 14992413379483553
         then 14992222743513202 else base_reward)"

text \<open>
  The result is the returned \<open>bool\<close> and \<open>reward\<close>; the last argument is \<open>reward\<close> before the
  call. The premine amount is stored in \<open>reward\<close> even when the call then fails.
\<close>

definition get_block_reward :: "u64 \<Rightarrow> u64 \<Rightarrow> u64 \<Rightarrow> u8 \<Rightarrow> u64 \<Rightarrow> (bool \<times> u64) option" where
  "get_block_reward median_size current_block_size already_generated_coins version reward =
     (let base = block_base_reward already_generated_coins version;
          full_reward_zone = get_min_block_size version;
          median_size = (if median_size < full_reward_zone then full_reward_zone else median_size);
          reward = (if 0 < already_generated_coins \<and> already_generated_coins < 14992413379483553
            then base else reward)
      in if current_block_size \<le> median_size then Some (True, base)
         else if 2 * median_size < current_block_size then Some (False, reward)
         else if \<not> (median_size < 0xFFFFFFFF \<and> current_block_size < 0xFFFFFFFF) then None
         else let multiplicand = (2 * median_size - current_block_size) * current_block_size;
                  (product_lo, product_hi) = mul128 base multiplicand
              in case div128_32 product_hi product_lo (ucast median_size) of
                   None \<Rightarrow> None
                 | Some (_, reward_hi, reward_lo) \<Rightarrow>
                     (case div128_32 reward_hi reward_lo (ucast median_size) of
                        None \<Rightarrow> None
                      | Some (_, reward_hi, reward_lo) \<Rightarrow>
                          if reward_hi \<noteq> 0 \<or> \<not> reward_lo < base then None
                          else Some (True, reward_lo)))"

text \<open>
  \<open>Blockchain::validate_miner_transaction\<close>: the coinbase is its output amounts. The result is
  the returned \<open>bool\<close>, \<open>base_reward\<close> and \<open>partial_block_reward\<close>.
\<close>

definition validate_miner_transaction ::
    "u64 list \<Rightarrow> u64 list \<Rightarrow> u64 \<Rightarrow> u64 \<Rightarrow> u64 \<Rightarrow> u64 \<Rightarrow> u8 \<Rightarrow> (bool \<times> u64 \<times> bool) option" where
  "validate_miner_transaction vout_amounts last_blocks_sizes cumulative_block_size fee base_reward
       already_generated_coins version =
     (let money_in_use = foldl (+) 0 vout_amounts; partial_block_reward = False
      in case get_block_reward (median last_blocks_sizes) cumulative_block_size already_generated_coins version base_reward of
           None \<Rightarrow> None
         | Some (ok, base_reward) \<Rightarrow>
             if \<not> ok then Some (False, base_reward, partial_block_reward)
             else if base_reward + fee < money_in_use then Some (False, base_reward, partial_block_reward)
             else if \<not> money_in_use - fee \<le> base_reward then Some (False, base_reward, partial_block_reward)
             else Some (True, money_in_use - fee,
                        base_reward + fee \<noteq> money_in_use))"

text \<open>The counter of generated coins when a block joins the main chain.\<close>

definition add_generated_coins :: "u64 \<Rightarrow> u64 \<Rightarrow> u64" where
  "add_generated_coins already_generated_coins base_reward =
     (if base_reward < MONEY_SUPPLY - already_generated_coins
      then already_generated_coins + base_reward else MONEY_SUPPLY)"

subsection \<open>The size penalty\<close>

text \<open>
  Rounding down twice by \<open>m\<close> is rounding down once by \<open>m * m\<close>, and the penalised reward stays
  strictly below the base reward.
\<close>

lemma diff_times_sum: "k \<le> m \<Longrightarrow> (m - k) * (m + k) = m * m - k * (k :: nat)"
  by (auto simp: algebra_simps dest!: le_Suc_ex)

lemma penalty_less:
  fixes b m c :: nat
  assumes "m < c" and "c \<le> 2 * m" and "0 < b"
  shows "b * ((2 * m - c) * c) div (m * m) < b"
proof -
  obtain k where k: "c = m + k" "0 < k" "k \<le> m" using assms(1,2) less_imp_add_positive [of m c] by auto
  have "(2 * m - c) * c = (m - k) * (m + k)" using k by simp
  also have "\<dots> = m * m - k * k" by (rule diff_times_sum) (use k in simp)
  also have "\<dots> < m * m" using k by (simp add: mult_strict_mono)
  finally have "b * ((2 * m - c) * c) < b * (m * m)" using assms(3) by simp
  moreover have "0 < m * m" using k by simp
  ultimately show ?thesis by (simp add: less_mult_imp_div_less)
qed

lemma penalty_product_bound:
  fixes m c :: nat
  assumes "m < 4294967295" and "m < c" and "c \<le> 2 * m"
  shows "(2 * m - c) * c \<le> m * m" and "(2 * m - c) * c < 18446744073709551616"
proof -
  obtain k where k: "c = m + k" "k \<le> m" using assms(2,3) less_imp_add_positive [of m c] by auto
  have "(2 * m - c) * c = (m - k) * (m + k)" using k by simp
  also have "\<dots> = m * m - k * k" by (rule diff_times_sum) (use k in simp)
  finally show le: "(2 * m - c) * c \<le> m * m" by simp
  have "m * m \<le> 4294967295 * 4294967295" using assms(1) by (intro mult_le_mono) simp_all
  with le show "(2 * m - c) * c < 18446744073709551616" by simp
qed

lemma base_reward_positive: "0 < unat (block_base_reward a v)"
  by (simp add: block_base_reward_def Let_def FINAL_SUBSIDY_PER_MINUTE_def DIFFICULTY_TARGET_V1_def
      DIFFICULTY_TARGET_V2_def word_less_nat_alt not_less)

lemma div128_32_twice:
  assumes "unat lo + 18446744073709551616 * unat hi = n" and "unat d = m" and "0 < m"
    and "n div (m * m) < 18446744073709551616"
  shows "\<exists>r qh ql r'. div128_32 hi lo d = Some (r, qh, ql) \<and>
    div128_32 qh ql d = Some (r', 0, of_nat (n div (m * m)))"
proof -
  have d: "d \<noteq> 0" using assms(2,3) by auto
  obtain r qh ql where 1: "div128_32 hi lo d = Some (r, qh, ql)"
    "unat qh * 18446744073709551616 + unat ql = n div m"
    using div128_32_value [OF d, of hi lo] assms(1,2) by (auto simp: ac_simps)
  obtain r' qh' ql' where 2: "div128_32 qh ql d = Some (r', qh', ql')"
    "unat qh' * 18446744073709551616 + unat ql' = n div (m * m)"
    using div128_32_value [OF d, of qh ql] 1(2) assms(2) by (auto simp: div_mult2_eq)
  have "unat qh' = 0" by (rule ccontr) (use 2(2) assms(4) in auto)
  moreover from this have "unat ql' = n div (m * m)" using 2(2) by simp
  ultimately have "qh' = 0" "ql' = of_nat (n div (m * m))"
    by (auto simp: unat_eq_zero) (metis of_nat_unat ucast_id)
  then show ?thesis using 1(1) 2(1) by blast
qed

text \<open>The reward in closed form, for sizes that keep the assertions.\<close>

lemma get_block_reward_value:
  assumes "m = max (unat median_size) (unat (get_min_block_size version))"
    and "m < 4294967295" and "unat current_block_size < 4294967295"
  shows "\<exists>old. get_block_reward median_size current_block_size coins version reward = Some
    (let base = unat (block_base_reward coins version); c = unat current_block_size;
         penalised = base * ((2 * m - c) * c) div (m * m)
     in if c \<le> m then (True, of_nat base)
        else if 2 * m < c then (False, old)
        else (True, of_nat penalised)) \<and>
    (unat current_block_size > m \<longrightarrow> unat current_block_size \<le> 2 * m \<longrightarrow>
       unat (block_base_reward coins version) * ((2 * m - unat current_block_size) * unat current_block_size)
         div (m * m) < unat (block_base_reward coins version))"
proof -
  define base where "base = block_base_reward coins version"
  define med where "med = (if median_size < get_min_block_size version then get_min_block_size version else median_size)"
  have med: "unat med = m" using assms(1) by (auto simp: med_def word_less_nat_alt)
  let ?c = "unat current_block_size"
  have mp: "0 < m" using assms(1) by (auto simp: get_min_block_size_def max_def
      CRYPTONOTE_BLOCK_GRANTED_FULL_REWARD_ZONE_V1_def CRYPTONOTE_BLOCK_GRANTED_FULL_REWARD_ZONE_V2_def
      CRYPTONOTE_BLOCK_GRANTED_FULL_REWARD_ZONE_V5_def split: if_splits)
  have two: "unat (2 * med) = 2 * m" using med assms(2) by (simp add: unat_mult_noov)
  have bp: "0 < unat base" unfolding base_def by (rule base_reward_positive)
  consider (small) "?c \<le> m" | (big) "m < ?c" "2 * m < ?c" | (mid) "m < ?c" "?c \<le> 2 * m" by linarith
  then show ?thesis
  proof cases
    case small
    then have "current_block_size \<le> med" using med by (simp add: word_le_nat_alt)
    then have "get_block_reward median_size current_block_size coins version reward = Some (True, base)"
      by (simp add: get_block_reward_def Let_def flip: base_def med_def)
    then show ?thesis using small by (simp add: Let_def flip: base_def)
  next
    case big
    then have "\<not> current_block_size \<le> med" "2 * med < current_block_size"
      using med two by (simp_all add: word_le_nat_alt word_less_nat_alt)
    then have "\<exists>old. get_block_reward median_size current_block_size coins version reward = Some (False, old)"
      by (simp add: get_block_reward_def Let_def flip: base_def med_def)
    then show ?thesis using big by (auto simp: Let_def)
  next
    case mc: mid
    note bnd = penalty_product_bound [OF assms(2) mc]
    have "unat (2 * med - current_block_size) = 2 * m - ?c"
      using mc two by (simp add: unat_sub_noov word_le_nat_alt)
    then have mult: "unat ((2 * med - current_block_size) * current_block_size) = (2 * m - ?c) * ?c"
      using bnd(2) by (simp add: unat_mult_noov)
    let ?p = "mul128 base ((2 * med - current_block_size) * current_block_size)"
    let ?n = "unat base * ((2 * m - ?c) * ?c)"
    have v: "unat (fst ?p) + 18446744073709551616 * unat (snd ?p) = ?n"
      using m128.mul_value [of base "(2 * med - current_block_size) * current_block_size"] by (simp add: mult)
    have less: "?n div (m * m) < unat base" using penalty_less [OF mc bp] .
    have d: "unat (ucast med :: u32) = m" using med assms(2) by (simp add: unat_ucast_u64_u32)
    have lt: "?n div (m * m) < 18446744073709551616" using less unat_less_u64 [of base] by simp
    obtain r qh ql r' where q: "div128_32 (snd ?p) (fst ?p) (ucast med) = Some (r, qh, ql)"
      "div128_32 qh ql (ucast med) = Some (r', 0, of_nat (?n div (m * m)))"
      using div128_32_twice [OF v d mp lt] by blast
    have "of_nat (?n div (m * m)) < base"
      using less lt by (simp add: word_less_nat_alt unat_of_nat_u64)
    moreover have "\<not> current_block_size \<le> med" "\<not> 2 * med < current_block_size"
      "med < 0xFFFFFFFF" "current_block_size < 0xFFFFFFFF"
      using mc med two assms(2,3) by (simp_all add: word_le_nat_alt word_less_nat_alt)
    ultimately have "get_block_reward median_size current_block_size coins version reward =
        Some (True, of_nat (?n div (m * m)))"
      using q by (simp add: get_block_reward_def Let_def split_def flip: base_def med_def)
    then show ?thesis using mc less by (simp add: Let_def flip: base_def)
  qed
qed

text \<open>
  C14: for block and median sizes below \<open>2 ^ 32 - 1\<close> the subsidy is computed without tripping an
  assertion: a block up to the (raised) median gets the base reward, a block above twice the
  median is refused, and in between the reward is the base reward times
  \<open>(2 m - c) c / m\<^sup>2\<close>, rounded down once, which is strictly less than the base reward.
\<close>

theorem block_reward_exact:
  assumes "m = max (unat median_size) (unat (get_min_block_size version))"
    and "m < 4294967295" and "unat current_block_size < 4294967295"
  shows "\<exists>old. get_block_reward median_size current_block_size coins version reward = Some
    (let base = unat (block_base_reward coins version); c = unat current_block_size;
         penalised = base * ((2 * m - c) * c) div (m * m)
     in if c \<le> m then (True, of_nat base)
        else if 2 * m < c then (False, old)
        else (True, of_nat penalised)) \<and>
    (unat current_block_size > m \<longrightarrow> unat current_block_size \<le> 2 * m \<longrightarrow>
       unat (block_base_reward coins version) * ((2 * m - unat current_block_size) * unat current_block_size)
         div (m * m) < unat (block_base_reward coins version))"
  by (rule get_block_reward_value [OF assms])

theorem block_reward_exact_witness:
  "get_block_reward 20000 30000 0 1 0 = Some (True, of_nat (190635970351 * ((2 * 20000 - 30000) * 30000) div (20000 * 20000)))"
proof -
  have b: "unat (block_base_reward 0 1) = 190635970351"
    by (simp add: block_base_reward_def Let_def DIFFICULTY_TARGET_V1_def MONEY_SUPPLY_def
        EMISSION_SPEED_FACTOR_PER_MINUTE_def FINAL_SUBSIDY_PER_MINUTE_def)
  show ?thesis
    using block_reward_exact [of 20000 20000 1 30000 0 0]
    by (simp add: b Let_def get_min_block_size_def CRYPTONOTE_BLOCK_GRANTED_FULL_REWARD_ZONE_V1_def)
qed

subsection \<open>Coinbase and supply\<close>

text \<open>The outputs of a coinbase that passes, as numbers, when their sum fits in a word.\<close>

lemma foldl_add_value:
  "unat a + sum_list (map unat xs) < 2 ^ 64 \<Longrightarrow> unat (foldl (+) a xs) = unat a + sum_list (map unat (xs :: u64 list))"
proof (induction xs arbitrary: a)
  case (Cons x xs)
  then have "unat (a + x) = unat a + unat x" by (simp add: unat_add_noov)
  with Cons.IH [of "a + x"] Cons.prems show ?case by simp
qed simp

lemma coinbase_guards_value:
  fixes paid granted fee :: u64
  assumes "\<not> granted + fee < paid" "paid - fee \<le> granted"
  shows "unat paid \<le> unat granted + unat fee
    \<and> (unat granted + unat fee < 2 ^ 64 \<longrightarrow> unat (paid - fee) + unat fee = unat paid
        \<and> (granted + fee \<noteq> paid \<longleftrightarrow> unat paid < unat granted + unat fee))"
proof (cases "unat granted + unat fee < 2 ^ 64")
  case True
  then have g: "unat (granted + fee) = unat granted + unat fee" by (simp add: unat_add_noov)
  then have le: "unat paid \<le> unat granted + unat fee" using assms(1) by (simp add: word_less_nat_alt)
  have "unat (paid - fee) + unat fee < 2 ^ 64" using assms(2) True by (simp add: word_le_nat_alt)
  from unat_add_noov [OF this [simplified]] have "unat (paid - fee) + unat fee = unat paid" by simp
  moreover have "granted + fee = paid \<longleftrightarrow> unat granted + unat fee = unat paid" by (simp add: word_unat_eq_iff g)
  ultimately show ?thesis using le by auto
next
  case False
  then show ?thesis using unat_less_u64 [of paid] by simp
qed

lemma validate_miner_value:
  assumes "validate_miner_transaction amounts sizes block_size fee old coins version = Some (True, claimed, partial)"
    and "sum_list (map unat amounts) < 2 ^ 64"
  shows "\<exists>granted. get_block_reward (median sizes) block_size coins version old = Some (True, granted) \<and> claimed \<le> granted
    \<and> sum_list (map unat amounts) \<le> unat granted + unat fee
    \<and> (unat granted + unat fee < 2 ^ 64 \<longrightarrow> unat claimed + unat fee = sum_list (map unat amounts)
        \<and> (partial \<longleftrightarrow> sum_list (map unat amounts) < unat granted + unat fee))"
proof -
  have paid: "unat (foldl (+) 0 amounts) = sum_list (map unat amounts)" using foldl_add_value [of 0 amounts] assms(2) by simp
  obtain granted where g: "get_block_reward (median sizes) block_size coins version old = Some (True, granted)"
    "\<not> granted + fee < foldl (+) 0 amounts" "foldl (+) 0 amounts - fee \<le> granted"
    "claimed = foldl (+) 0 amounts - fee" "partial \<longleftrightarrow> granted + fee \<noteq> foldl (+) 0 amounts"
    using assms(1) by (auto simp: validate_miner_transaction_def Let_def split: option.splits prod.splits if_splits)
  from coinbase_guards_value [OF g(2,3)] g(1,3) show ?thesis unfolding g(4,5) paid by blast
qed

text \<open>
  C16: the counter of generated coins never decreases and never passes the money supply, so the
  subtraction in the subsidy formula does not wrap around for it.
\<close>

theorem generated_coins_capped:
  assumes "coins \<le> MONEY_SUPPLY"
  shows "coins \<le> add_generated_coins coins reward \<and> add_generated_coins coins reward \<le> MONEY_SUPPLY \<and>
    unat (add_generated_coins coins reward) = min (unat coins + unat reward) (unat MONEY_SUPPLY)"
proof -
  have d: "unat (MONEY_SUPPLY - coins) = unat MONEY_SUPPLY - unat coins"
    using assms by (rule unat_sub_noov)
  show ?thesis
  proof (cases "reward < MONEY_SUPPLY - coins")
    case True
    then have "unat coins + unat reward < unat MONEY_SUPPLY"
      using d by (simp add: word_less_nat_alt)
    moreover have "unat (coins + reward) = unat coins + unat reward"
      using calculation unat_less_u64 [of MONEY_SUPPLY] by (simp add: unat_add_noov)
    ultimately show ?thesis using True by (simp add: add_generated_coins_def word_le_nat_alt)
  next
    case False
    then show ?thesis
      using d assms by (simp add: add_generated_coins_def word_less_nat_alt word_le_nat_alt)
  qed
qed

theorem generated_coins_capped_witness:
  "(5 :: u64) \<le> MONEY_SUPPLY \<and> unat (add_generated_coins 5 7) = min (5 + 7) (unat MONEY_SUPPLY)"
  using generated_coins_capped [of 5 7] by (simp add: MONEY_SUPPLY_def)

end
