(* ===== verification/Hard_Fork.thy ===== *)
theory Hard_Fork
  imports Cn_Prelude
begin

text \<open>
  The hard fork state machine of \<open>cryptonote_basic/hardfork.cpp\<close>: the table of scheduled
  forks, the rolling window of block votes with its tally, and the index of the current fork.
  The parts of the database it uses (the blocks by height and the table of fork versions by
  height, \<open>set_hard_fork_version\<close> and \<open>get_hard_fork_version\<close>) are fields of the state. An
  exception of the database, a failed \<open>assert\<close> and an index out of range are \<open>None\<close>. Block
  heights are natural numbers; the vote counters and the window arithmetic keep their width.
\<close>

subsection \<open>State\<close>

record block_header =
  major_version :: u8
  minor_version :: u8

record params =
  p_version :: u8
  p_threshold :: u8
  p_height :: nat
  p_time :: int

record hard_fork =
  db_blocks :: "block_header list"
  hf_versions :: "nat \<Rightarrow> u8 option"
  forked_time :: int
  update_time :: int
  window_size :: u64
  default_threshold_percent :: u8
  original_version :: u8
  original_version_till_height :: nat
  heights :: "params list"
  versions :: "u8 list"
  last_versions :: "u32 list"
  current_fork_index :: nat

datatype fork_state = LikelyForked | UpdateNeeded | Ready

subsection \<open>Operations\<close>

definition get_block_vote :: "block_header \<Rightarrow> u8" where
  "get_block_vote b =
     (if 1 \<le> major_version b \<and> major_version b \<le> 3 then major_version b
      else if minor_version b = 0 then 1
      else minor_version b)"

definition get_block_version :: "block_header \<Rightarrow> u8" where
  "get_block_version b = major_version b"

definition db_get_block :: "hard_fork \<Rightarrow> nat \<Rightarrow> block_header option" where
  "db_get_block s h = (if h < length (db_blocks s) then Some (db_blocks s ! h) else None)"

text \<open>The constructor throws on a bad window or threshold.\<close>

definition HardFork_new ::
    "block_header list \<Rightarrow> (nat \<Rightarrow> u8 option) \<Rightarrow> u8 \<Rightarrow> nat \<Rightarrow> int \<Rightarrow> int \<Rightarrow> u64 \<Rightarrow> u8 \<Rightarrow> hard_fork option" where
  "HardFork_new blocks hfs original_ver till_height forked update window default_threshold =
     (if window = 0 then None
      else if 100 < default_threshold then None
      else Some \<lparr>db_blocks = blocks, hf_versions = hfs, forked_time = forked, update_time = update,
        window_size = window, default_threshold_percent = default_threshold,
        original_version = original_ver, original_version_till_height = till_height,
        heights = [], versions = [], last_versions = replicate 256 0, current_fork_index = 0\<rparr>)"

definition add_fork :: "hard_fork \<Rightarrow> u8 \<Rightarrow> nat \<Rightarrow> u8 \<Rightarrow> int \<Rightarrow> bool \<times> hard_fork" where
  "add_fork s version height threshold time =
     (if version = 0 then (False, s)
      else if heights s \<noteq> [] \<and> version \<le> p_version (last (heights s)) then (False, s)
      else if heights s \<noteq> [] \<and> height \<le> p_height (last (heights s)) then (False, s)
      else if heights s \<noteq> [] \<and> time \<le> p_time (last (heights s)) then (False, s)
      else if 100 < threshold then (False, s)
      else (True, s\<lparr>heights := heights s @
        [\<lparr>p_version = version, p_threshold = threshold, p_height = height, p_time = time\<rparr>]\<rparr>))"

definition add_fork_default :: "hard_fork \<Rightarrow> u8 \<Rightarrow> nat \<Rightarrow> int \<Rightarrow> bool \<times> hard_fork" where
  "add_fork_default s version height time = add_fork s version height (default_threshold_percent s) time"

definition get_effective_version :: "hard_fork \<Rightarrow> u8 \<Rightarrow> u8" where
  "get_effective_version s voting_version =
     (if heights s \<noteq> []
      then let max_version = p_version (last (heights s))
           in if max_version < voting_version then max_version else voting_version
      else voting_version)"

definition fork_at :: "hard_fork \<Rightarrow> nat \<Rightarrow> params option" where
  "fork_at s n = (if n < length (heights s) then Some (heights s ! n) else None)"

definition do_check :: "hard_fork \<Rightarrow> u8 \<Rightarrow> u8 \<Rightarrow> bool option" where
  "do_check s block_version voting_version =
     map_option (\<lambda>p. block_version = p_version p \<and> p_version p \<le> voting_version)
       (fork_at s (current_fork_index s))"

definition check :: "hard_fork \<Rightarrow> block_header \<Rightarrow> bool option" where
  "check s block = do_check s (get_block_version block) (get_block_vote block)"

text \<open>
  The loop of \<open>get_voted_fork_index\<close> from the last fork down; the second argument counts the
  entries left, \<open>None\<close> means that no fork qualifies.
\<close>

definition fork_threshold :: "hard_fork \<Rightarrow> params \<Rightarrow> u32" where
  "fork_threshold s p = ucast ((window_size s * ucast (p_threshold p) + 99) div 100)"

fun voted_loop :: "hard_fork \<Rightarrow> nat \<Rightarrow> nat \<Rightarrow> u32 \<Rightarrow> nat option" where
  "voted_loop s height 0 accumulated_votes = None"
| "voted_loop s height (Suc n) accumulated_votes =
     (let p = heights s ! n;
          accumulated_votes = accumulated_votes + last_versions s ! unat (p_version p);
          threshold = fork_threshold s p
      in if p_height p \<le> height \<and> threshold \<le> accumulated_votes then Some n
         else voted_loop s height n accumulated_votes)"

definition get_voted_fork_index :: "hard_fork \<Rightarrow> nat \<Rightarrow> nat" where
  "get_voted_fork_index s height =
     (case voted_loop s height (length (heights s)) 0 of
        Some n \<Rightarrow> n | None \<Rightarrow> current_fork_index s)"

definition do_check_for_height :: "hard_fork \<Rightarrow> u8 \<Rightarrow> u8 \<Rightarrow> nat \<Rightarrow> bool option" where
  "do_check_for_height s block_version voting_version height =
     map_option (\<lambda>p. block_version = p_version p \<and> p_version p \<le> voting_version)
       (fork_at s (get_voted_fork_index s height))"

definition check_for_height :: "hard_fork \<Rightarrow> block_header \<Rightarrow> nat \<Rightarrow> bool option" where
  "check_for_height s block height = do_check_for_height s (get_block_version block) (get_block_vote block) height"

text \<open>\<open>uint8_t voted = get_voted_fork_index(height); if (voted > current_fork_index) ...\<close>\<close>

definition advance_fork :: "hard_fork \<Rightarrow> nat \<Rightarrow> hard_fork" where
  "advance_fork s height =
     (let voted = unat (of_nat (get_voted_fork_index s height) :: u8)
      in if current_fork_index s < voted then s\<lparr>current_fork_index := voted\<rparr> else s)"

text \<open>\<open>last_versions[v]++; versions.push_back(v);\<close>\<close>

definition push_vote :: "hard_fork \<Rightarrow> u8 \<Rightarrow> hard_fork" where
  "push_vote s v =
     s\<lparr>last_versions := (last_versions s)[unat v := last_versions s ! unat v + 1],
       versions := versions s @ [v]\<rparr>"

function drop_votes :: "hard_fork \<Rightarrow> hard_fork option" where
  "drop_votes s =
     (if unat (window_size s) \<le> length (versions s)
      then case versions s of
             [] \<Rightarrow> None
           | old_version # rest \<Rightarrow>
               if last_versions s ! unat old_version = 0 then None
               else drop_votes (s\<lparr>last_versions :=
                      (last_versions s)[unat old_version := last_versions s ! unat old_version - 1],
                      versions := rest\<rparr>)
      else Some s)"
  by pat_completeness auto
termination by (relation "measure (\<lambda>s. length (versions s))") auto

declare drop_votes.simps [simp del]

definition add_version :: "hard_fork \<Rightarrow> u8 \<Rightarrow> u8 \<Rightarrow> nat \<Rightarrow> (bool \<times> hard_fork) option" where
  "add_version s block_version voting_version height =
     (case do_check s block_version voting_version of
        None \<Rightarrow> None
      | Some False \<Rightarrow> Some (False, s)
      | Some True \<Rightarrow>
          let s = s\<lparr>hf_versions := (hf_versions s)(height \<mapsto> p_version (heights s ! current_fork_index s))\<rparr>;
              voting_version = get_effective_version s voting_version
          in case drop_votes s of
               None \<Rightarrow> None
             | Some s \<Rightarrow> Some (True, advance_fork (push_vote s voting_version) (height + 1)))"

definition add_block :: "hard_fork \<Rightarrow> block_header \<Rightarrow> nat \<Rightarrow> (bool \<times> hard_fork) option" where
  "add_block s block height = add_version s (get_block_version block) (get_block_vote block) height"

definition clear_votes :: "hard_fork \<Rightarrow> hard_fork" where
  "clear_votes s = s\<lparr>versions := [], last_versions := replicate 256 0\<rparr>"

text \<open>The votes of the blocks with heights from \<open>h\<close> up to, not including, \<open>to\<close>.\<close>

function scan_votes :: "hard_fork \<Rightarrow> nat \<Rightarrow> nat \<Rightarrow> hard_fork option" where
  "scan_votes s h to =
     (if h < to
      then case db_get_block s h of
             None \<Rightarrow> None
           | Some b \<Rightarrow> scan_votes (push_vote s (get_effective_version s (get_block_vote b))) (h + 1) to
      else Some s)"
  by pat_completeness auto
termination by (relation "measure (\<lambda>(_, h, to). to - h)") auto

text \<open>The blocks above the reorganised height are added again; the results are ignored.\<close>

function add_blocks :: "hard_fork \<Rightarrow> nat \<Rightarrow> nat \<Rightarrow> hard_fork option" where
  "add_blocks s h bc_height =
     (if h < bc_height
      then case db_get_block s h of
             None \<Rightarrow> None
           | Some b \<Rightarrow>
               (case add_block s b h of
                  None \<Rightarrow> None
                | Some (_, s) \<Rightarrow> add_blocks s (h + 1) bc_height)
      else Some s)"
  by pat_completeness auto
termination by (relation "measure (\<lambda>(_, h, to). to - h)") auto

declare scan_votes.simps [simp del] add_blocks.simps [simp del]

fun fork_index_down :: "params list \<Rightarrow> u8 \<Rightarrow> nat \<Rightarrow> nat" where
  "fork_index_down hs start_version 0 = 0"
| "fork_index_down hs start_version (Suc n) =
     (if start_version < p_version (hs ! Suc n) then fork_index_down hs start_version n else Suc n)"

definition reorganize_from_block_height :: "hard_fork \<Rightarrow> nat \<Rightarrow> (bool \<times> hard_fork) option" where
  "reorganize_from_block_height s height =
     (if length (db_blocks s) \<le> height then Some (False, s)
      else let s = clear_votes s;
               w = unat (window_size s);
               rescan_height = (if w - 1 \<le> height then height - (w - 1) else 0)
           in case (if height = 0 then Some (original_version s) else hf_versions s height) of
                None \<Rightarrow> None
              | Some start_version \<Rightarrow>
                  let s = s\<lparr>current_fork_index := fork_index_down (heights s) start_version (current_fork_index s)\<rparr>
                  in case scan_votes s rescan_height (height + 1) of
                       None \<Rightarrow> None
                     | Some s \<Rightarrow>
                         map_option (Pair True) (add_blocks (advance_fork s (height + 1)) (height + 1) (length (db_blocks s))))"

definition reorganize_from_chain_height :: "hard_fork \<Rightarrow> nat \<Rightarrow> (bool \<times> hard_fork) option" where
  "reorganize_from_chain_height s height =
     (if height = 0 then Some (False, s) else reorganize_from_block_height s (height - 1))"

text \<open>The search for the fork of the last block; the counter bounds it by the table.\<close>

function find_fork :: "params list \<Rightarrow> u8 \<Rightarrow> nat \<Rightarrow> nat" where
  "find_fork hs lastv i =
     (if i + 1 < length hs \<and> p_version (hs ! i) \<noteq> lastv then find_fork hs lastv (i + 1) else i)"
  by pat_completeness auto
termination by (relation "measure (\<lambda>(hs, _, i). length hs - i)") auto

declare find_fork.simps [simp del]

definition rescan_from_block_height :: "hard_fork \<Rightarrow> nat \<Rightarrow> (bool \<times> hard_fork) option" where
  "rescan_from_block_height s height =
     (if length (db_blocks s) \<le> height then Some (False, s)
      else case scan_votes (clear_votes s) height (length (db_blocks s)) of
             None \<Rightarrow> None
           | Some s \<Rightarrow>
               (case hf_versions s (length (db_blocks s) - 1) of
                  None \<Rightarrow> None
                | Some lastv \<Rightarrow>
                    let s = s\<lparr>current_fork_index := find_fork (heights s) lastv 0\<rparr>
                    in Some (True, advance_fork s (length (db_blocks s)))))"

definition rescan_from_chain_height :: "hard_fork \<Rightarrow> nat \<Rightarrow> (bool \<times> hard_fork) option" where
  "rescan_from_chain_height s height =
     (if height = 0 then Some (False, s) else rescan_from_block_height s (height - 1))"

definition init_fork :: "hard_fork \<Rightarrow> hard_fork option" where
  "init_fork s =
     (let s = (if heights s = []
               then s\<lparr>heights := [\<lparr>p_version = original_version s, p_threshold = 0, p_height = 0, p_time = 0\<rparr>]\<rparr>
               else s);
          s = (clear_votes s)\<lparr>current_fork_index := 0\<rparr>;
          height = length (db_blocks s); w = unat (window_size s);
          height = (if w < height then height - (w - 1) else 1);
          populate = (hf_versions s 0 = None)
      in if populate
         then map_option (\<lambda>(_, s). s\<lparr>hf_versions := (hf_versions s)(0 \<mapsto> original_version s)\<rparr>)
                (reorganize_from_chain_height s 1)
         else map_option snd (rescan_from_chain_height s height))"

definition get_version_at :: "hard_fork \<Rightarrow> nat \<Rightarrow> u8 option" where
  "get_version_at s height =
     (if height \<le> original_version_till_height s then Some (original_version s)
      else map_option get_block_version (db_get_block s height))"

definition get_state :: "hard_fork \<Rightarrow> int \<Rightarrow> fork_state" where
  "get_state s t =
     (if length (heights s) \<le> 1 then Ready
      else let t_last_fork = p_time (last (heights s))
           in if t_last_fork + forked_time s \<le> t then LikelyForked
              else if t_last_fork + update_time s \<le> t then UpdateNeeded
              else Ready)"

definition get_current_version :: "hard_fork \<Rightarrow> u8 option" where
  "get_current_version s = map_option p_version (fork_at s (current_fork_index s))"

text \<open>A height above the chain fails the assertion.\<close>

definition get_version :: "hard_fork \<Rightarrow> nat \<Rightarrow> u8 option" where
  "get_version s height =
     (if length (db_blocks s) < height then None
      else if height = length (db_blocks s) then get_current_version s
      else hf_versions s height)"

definition get_ideal_version :: "hard_fork \<Rightarrow> u8 option" where
  "get_ideal_version s = (if heights s = [] then None else Some (p_version (last (heights s))))"

fun ideal_loop :: "params list \<Rightarrow> nat \<Rightarrow> nat \<Rightarrow> nat option" where
  "ideal_loop hs height 0 = None"
| "ideal_loop hs height (Suc n) =
     (if p_height (hs ! Suc n) \<le> height then Some (Suc n) else ideal_loop hs height n)"

definition get_ideal_version_at :: "hard_fork \<Rightarrow> nat \<Rightarrow> u8" where
  "get_ideal_version_at s height =
     (case ideal_loop (heights s) height (length (heights s) - 1) of
        Some n \<Rightarrow> p_version (heights s ! n) | None \<Rightarrow> original_version s)"

fun earliest_loop :: "params list \<Rightarrow> u8 \<Rightarrow> nat \<Rightarrow> nat" where
  "earliest_loop hs version 0 = 0"
| "earliest_loop hs version (Suc n) =
     (if p_version (hs ! Suc n) \<le> version then p_height (hs ! Suc n) else earliest_loop hs version n)"

definition get_earliest_ideal_height_for_version :: "hard_fork \<Rightarrow> u8 \<Rightarrow> nat" where
  "get_earliest_ideal_height_for_version s version = earliest_loop (heights s) version (length (heights s) - 1)"

definition get_next_version :: "hard_fork \<Rightarrow> u8" where
  "get_next_version s =
     (case ideal_loop (heights s) (length (db_blocks s)) (length (heights s) - 1) of
        Some n \<Rightarrow> p_version (heights s ! (if n < length (heights s) - 1 then n + 1 else n))
      | None \<Rightarrow> original_version s)"

text \<open>The result: enabled, window, votes, threshold, earliest height, voting version.\<close>

definition get_voting_info :: "hard_fork \<Rightarrow> u8 \<Rightarrow> (bool \<times> u32 \<times> u32 \<times> u32 \<times> nat \<times> u8) option" where
  "get_voting_info s version =
     (case fork_at s (current_fork_index s) of
        None \<Rightarrow> None
      | Some p \<Rightarrow>
          let enabled = version \<le> p_version p;
              window = of_nat (length (versions s));
              votes = foldl (\<lambda>votes n. votes + last_versions s ! n) 0 [unat version..<256];
              threshold = (window * ucast (p_threshold p) + 99) div 100
          in Some (enabled, window, votes, threshold,
               get_earliest_ideal_height_for_version s version, p_version (last (heights s))))"

subsection \<open>The invariant\<close>

text \<open>
  \<open>tally\<close>: every counter is the number of votes for its version in the window. \<open>fork_table\<close>:
  the scheduled forks are strictly ordered in version and height and the current index is one
  of them. \<open>hf_inv\<close> adds that the window is not overfull.
\<close>

definition tally :: "hard_fork \<Rightarrow> bool" where
  "tally s \<longleftrightarrow> length (last_versions s) = 256 \<and>
     (\<forall>v. last_versions s ! unat v = of_nat (count_list (versions s) v))"

definition ordered_forks :: "params list \<Rightarrow> bool" where
  "ordered_forks hs \<longleftrightarrow>
     sorted_wrt (\<lambda>p q. p_version p < p_version q \<and> p_height p < p_height q) hs"

definition fork_table :: "hard_fork \<Rightarrow> bool" where
  "fork_table s \<longleftrightarrow> heights s \<noteq> [] \<and> ordered_forks (heights s) \<and>
     current_fork_index s < length (heights s)"

definition hf_inv :: "hard_fork \<Rightarrow> bool" where
  "hf_inv s \<longleftrightarrow> tally s \<and> fork_table s \<and> length (versions s) \<le> unat (window_size s) \<and>
     0 < unat (window_size s) \<and> unat (window_size s) < 4294967296"

text \<open>The fields that no voting operation changes.\<close>

definition same_setup :: "hard_fork \<Rightarrow> hard_fork \<Rightarrow> bool" where
  "same_setup s s' \<longleftrightarrow> heights s' = heights s \<and> window_size s' = window_size s \<and>
     db_blocks s' = db_blocks s \<and> original_version s' = original_version s"

lemma same_setup_refl [simp]: "same_setup s s"
  by (simp add: same_setup_def)

lemma same_setup_trans: "same_setup s t \<Longrightarrow> same_setup t u \<Longrightarrow> same_setup s u"
  by (simp add: same_setup_def)

lemma ordered_forks_distinct: "ordered_forks hs \<Longrightarrow> distinct (map p_version hs)"
  unfolding ordered_forks_def by (induction hs) auto

lemma ordered_forks_length: "ordered_forks hs \<Longrightarrow> length hs \<le> 256"
proof -
  assume o: "ordered_forks hs"
  then have "distinct (map p_version hs)" by (rule ordered_forks_distinct)
  then have "length hs = card (p_version ` set hs)"
    by (metis distinct_card length_map list.set_map)
  also have "\<dots> \<le> card (UNIV :: u8 set)" by (intro card_mono) simp_all
  finally show ?thesis by (simp add: card_word)
qed

lemma tally_clear [simp]: "tally (clear_votes s)"
  using unat_less_u8 by (simp add: tally_def clear_votes_def)

lemma unat_u8_eq: "unat (v :: u8) = unat w \<longleftrightarrow> v = w"
  by (simp add: word_unat_eq_iff)

lemma tally_push: "tally s \<Longrightarrow> tally (push_vote s v)"
  using unat_less_u8 [of v] by (auto simp: tally_def push_vote_def nth_list_update unat_u8_eq)

lemma push_vote_simps [simp]:
  "versions (push_vote s v) = versions s @ [v]" "same_setup s (push_vote s v)"
  "heights (push_vote s v) = heights s" "window_size (push_vote s v) = window_size s"
  "db_blocks (push_vote s v) = db_blocks s" "original_version (push_vote s v) = original_version s"
  "current_fork_index (push_vote s v) = current_fork_index s" "hf_versions (push_vote s v) = hf_versions s"
  by (simp_all add: push_vote_def same_setup_def)

lemma tally_nonzero:
  assumes "tally s" and "v \<in> set (versions s)" and "length (versions s) < 4294967296"
  shows "last_versions s ! unat v \<noteq> 0"
proof -
  have "0 < count_list (versions s) v" using assms(2) by (metis count_list_0_iff gr0I)
  moreover have "count_list (versions s) v < 4294967296"
    using count_le_length [of "versions s" v] assms(3) by simp
  ultimately have "unat (of_nat (count_list (versions s) v) :: u32) \<noteq> 0"
    by (simp add: unat_of_nat)
  then show ?thesis using assms(1) by (auto simp: tally_def)
qed

lemma drop_votes_tally:
  assumes "tally s" and "length (versions s) < 4294967296" and "0 < unat (window_size s)"
  shows "\<exists>s'. drop_votes s = Some s' \<and> tally s' \<and> length (versions s') < unat (window_size s) \<and>
    same_setup s s' \<and> current_fork_index s' = current_fork_index s"
  using assms
proof (induction s rule: drop_votes.induct)
  case (1 s)
  show ?case
  proof (cases "unat (window_size s) \<le> length (versions s)")
    case True
    then obtain v rest where v: "versions s = v # rest" using 1(4) by (cases "versions s") auto
    define s1 where "s1 = s\<lparr>last_versions := (last_versions s)[unat v := last_versions s ! unat v - 1], versions := rest\<rparr>"
    have nz: "last_versions s ! unat v \<noteq> 0" using tally_nonzero [OF 1(2) _ 1(3)] v by simp
    have "tally s1"
      using 1(2) unat_less_u8 [of v] v by (auto simp: tally_def s1_def nth_list_update unat_u8_eq)
    moreover have "length (versions s1) < 4294967296" "0 < unat (window_size s1)"
      using 1(3,4) v by (simp_all add: s1_def)
    ultimately obtain s' where "drop_votes s1 = Some s'" "tally s'" "length (versions s') < unat (window_size s1)"
      "same_setup s1 s'" "current_fork_index s' = current_fork_index s1"
      using 1(1) [OF True v nz] unfolding s1_def by blast
    moreover have "drop_votes s = drop_votes s1"
      using True v nz by (subst drop_votes.simps) (simp add: s1_def)
    ultimately show ?thesis by (auto simp: s1_def same_setup_def)
  next
    case False
    then show ?thesis using 1(2) by (subst drop_votes.simps) simp
  qed
qed

lemma voted_loop_less: "voted_loop s h n a = Some m \<Longrightarrow> m < n"
  by (induction n arbitrary: a) (auto simp: Let_def less_Suc_eq split: if_splits)

lemma get_voted_fork_index_less: "fork_table s \<Longrightarrow> get_voted_fork_index s h < length (heights s)"
  by (auto simp: get_voted_fork_index_def fork_table_def dest: voted_loop_less split: option.splits)

lemma advance_fork_spec:
  assumes "fork_table s"
  shows "advance_fork s h = s\<lparr>current_fork_index := max (current_fork_index s) (get_voted_fork_index s h)\<rparr>"
proof -
  have "get_voted_fork_index s h < 256"
    using get_voted_fork_index_less [OF assms, of h] ordered_forks_length [of "heights s"] assms
    by (simp add: fork_table_def)
  then show ?thesis
    by (cases "current_fork_index s = get_voted_fork_index s h")
      (auto simp: advance_fork_def unat_of_nat max_def Let_def)
qed

lemma advance_fork_inv:
  assumes "fork_table s"
  shows "fork_table (advance_fork s h)" and "tally s \<Longrightarrow> tally (advance_fork s h)"
    and "versions (advance_fork s h) = versions s" and "same_setup s (advance_fork s h)"
    and "current_fork_index s \<le> current_fork_index (advance_fork s h)"
  using assms get_voted_fork_index_less [OF assms, of h]
  by (simp_all add: advance_fork_spec [OF assms] fork_table_def tally_def same_setup_def)

lemma do_check_defined: "fork_table s \<Longrightarrow> do_check s bv vv =
    Some (bv = p_version (heights s ! current_fork_index s) \<and> p_version (heights s ! current_fork_index s) \<le> vv)"
  by (simp add: do_check_def fork_at_def fork_table_def)

text \<open>
  One block: with the invariant the operation is defined, keeps the invariant and never moves
  the fork index back.
\<close>

lemma add_version_inv:
  assumes "hf_inv s"
  shows "\<exists>ok s'. add_version s bv vv h = Some (ok, s') \<and> hf_inv s' \<and> same_setup s s' \<and>
    current_fork_index s \<le> current_fork_index s'"
proof (cases "do_check s bv vv = Some True")
  case True
  define s1 where "s1 = s\<lparr>hf_versions := (hf_versions s)(h \<mapsto> p_version (heights s ! current_fork_index s))\<rparr>"
  have s1: "tally s1" "length (versions s1) < 4294967296" "0 < unat (window_size s1)"
    "fork_table s1" "same_setup s s1" "current_fork_index s1 = current_fork_index s"
    using assms by (auto simp: hf_inv_def tally_def fork_table_def same_setup_def s1_def)
  obtain s2 where s2: "drop_votes s1 = Some s2" "tally s2" "length (versions s2) < unat (window_size s1)"
    "same_setup s1 s2" "current_fork_index s2 = current_fork_index s1"
    using drop_votes_tally [OF s1(1-3)] by blast
  define s3 where "s3 = push_vote s2 (get_effective_version s1 vv)"
  have s3: "tally s3" "fork_table s3" "same_setup s s3" "current_fork_index s3 = current_fork_index s"
    "length (versions s3) \<le> unat (window_size s)"
    using s1 s2 by (auto simp: s3_def tally_push fork_table_def same_setup_def)
  have "add_version s bv vv h = Some (True, advance_fork s3 (h + 1))"
    using True s2(1) by (simp add: add_version_def Let_def s3_def flip: s1_def)
  moreover have "hf_inv (advance_fork s3 (h + 1))" "same_setup s (advance_fork s3 (h + 1))"
    "current_fork_index s \<le> current_fork_index (advance_fork s3 (h + 1))"
    using advance_fork_inv [OF s3(2), of "h + 1"] s3 assms by (auto simp: hf_inv_def same_setup_def)
  ultimately show ?thesis by blast
next
  case False
  then have "do_check s bv vv = Some False"
    using assms do_check_defined [of s bv vv] by (auto simp: hf_inv_def)
  then have "add_version s bv vv h = Some (False, s)" by (simp add: add_version_def)
  then show ?thesis using assms by auto
qed

lemma scan_votes_spec:
  assumes "tally s" and "to \<le> length (db_blocks s)"
  shows "\<exists>s'. scan_votes s h to = Some s' \<and> tally s' \<and> same_setup s s' \<and>
    length (versions s') = length (versions s) + (to - h) \<and> current_fork_index s' = current_fork_index s \<and>
    hf_versions s' = hf_versions s"
  using assms
proof (induction s h to rule: scan_votes.induct)
  case (1 s h to)
  show ?case
  proof (cases "h < to")
    case True
    let ?s = "push_vote s (get_effective_version s (get_block_vote (db_blocks s ! h)))"
    have b: "db_get_block s h = Some (db_blocks s ! h)" using True 1(3) by (simp add: db_get_block_def)
    obtain s' where "scan_votes ?s (h + 1) to = Some s'" "tally s'" "same_setup ?s s'"
      "length (versions s') = length (versions ?s) + (to - (h + 1))"
      "current_fork_index s' = current_fork_index ?s" "hf_versions s' = hf_versions ?s"
      using 1(1) [OF True b] 1(2,3) by (auto simp: tally_push)
    then show ?thesis
      using True b by (subst scan_votes.simps) (auto simp: same_setup_def)
  next
    case False
    then show ?thesis using 1(2) by (subst scan_votes.simps) simp
  qed
qed

lemma add_blocks_inv:
  assumes "hf_inv s" and "to \<le> length (db_blocks s)"
  shows "\<exists>s'. add_blocks s h to = Some s' \<and> hf_inv s' \<and> same_setup s s'"
  using assms
proof (induction s h to rule: add_blocks.induct)
  case (1 s h to)
  show ?case
  proof (cases "h < to")
    case True
    have b: "db_get_block s h = Some (db_blocks s ! h)" using True 1(3) by (simp add: db_get_block_def)
    obtain ok s1 where s1: "add_block s (db_blocks s ! h) h = Some (ok, s1)" "hf_inv s1" "same_setup s s1"
      using add_version_inv [OF 1(2)] unfolding add_block_def by blast
    obtain s' where "add_blocks s1 (h + 1) to = Some s'" "hf_inv s'" "same_setup s1 s'"
      using 1(1) [OF True b s1(1) refl s1(2)] 1(3) s1(3) by (auto simp: same_setup_def)
    then show ?thesis
      using True b s1 same_setup_trans by (subst add_blocks.simps) auto
  next
    case False
    then show ?thesis using 1(2) by (subst add_blocks.simps) simp
  qed
qed

lemma fork_index_down_le: "fork_index_down hs v n \<le> n"
  by (induction n) (auto intro: le_SucI)

lemma find_fork_less: "i < length hs \<Longrightarrow> find_fork hs v i < length hs"
  by (induction hs v i rule: find_fork.induct) (subst find_fork.simps, auto)

lemma clear_votes_simps [simp]:
  "versions (clear_votes s) = []" "heights (clear_votes s) = heights s"
  "window_size (clear_votes s) = window_size s" "db_blocks (clear_votes s) = db_blocks s"
  "current_fork_index (clear_votes s) = current_fork_index s" "hf_versions (clear_votes s) = hf_versions s"
  "original_version (clear_votes s) = original_version s"
  by (simp_all add: clear_votes_def)

text \<open>
  A reorganisation rebuilds a state that satisfies the invariant from the table of forks alone:
  the old window and tally do not matter. It is undefined only when the database has no fork
  version for the height.
\<close>

definition setup_ok :: "hard_fork \<Rightarrow> bool" where
  "setup_ok s \<longleftrightarrow> fork_table s \<and> 0 < unat (window_size s) \<and> unat (window_size s) < 4294967296"

lemma hf_inv_setup: "hf_inv s \<Longrightarrow> setup_ok s"
  by (simp add: hf_inv_def setup_ok_def)

lemma reorganize_from_block_height_inv:
  assumes "setup_ok s" and "h < length (db_blocks s)" and "h = 0 \<or> hf_versions s h \<noteq> None"
  shows "\<exists>s'. reorganize_from_block_height s h = Some (True, s') \<and> hf_inv s' \<and> same_setup s s'"
proof -
  define w where "w = unat (window_size s)"
  define rescan where "rescan = (if w - 1 \<le> h then h - (w - 1) else 0)"
  obtain start where start: "(if h = 0 then Some (original_version s) else hf_versions s h) = Some start"
    using assms(3) by fastforce
  define s1 where "s1 = (clear_votes s)\<lparr>current_fork_index := fork_index_down (heights s) start (current_fork_index s)\<rparr>"
  have t1: "tally s1" using tally_clear [of s] by (simp add: s1_def tally_def)
  have f1: "fork_table s1" "same_setup s s1" "versions s1 = []"
    using assms(1) fork_index_down_le [of "heights s" start "current_fork_index s"]
    by (auto simp: s1_def fork_table_def same_setup_def setup_ok_def)
  obtain s2 where s2: "scan_votes s1 rescan (h + 1) = Some s2" "tally s2" "same_setup s1 s2"
    "length (versions s2) = h + 1 - rescan" "current_fork_index s2 = current_fork_index s1"
    using scan_votes_spec [OF t1, of "h + 1" rescan] f1 assms(2) by (auto simp: same_setup_def)
  have f2: "fork_table s2" using f1 s2(3,5) by (auto simp: fork_table_def same_setup_def)
  have "h + 1 - rescan \<le> w" using assms(1) by (auto simp: rescan_def w_def setup_ok_def)
  then have "hf_inv (advance_fork s2 (h + 1))"
    using advance_fork_inv [OF f2, of "h + 1"] s2 f1 assms(1)
    by (auto simp: hf_inv_def same_setup_def setup_ok_def w_def)
  moreover have "same_setup s (advance_fork s2 (h + 1))"
    using advance_fork_inv(4) [OF f2, of "h + 1"] s2(3) f1(2) by (blast intro: same_setup_trans)
  ultimately obtain s3 where "add_blocks (advance_fork s2 (h + 1)) (h + 1) (length (db_blocks s2)) = Some s3"
    "hf_inv s3" "same_setup s s3"
    using add_blocks_inv [of "advance_fork s2 (h + 1)" "length (db_blocks s2)" "h + 1"] s2(3) f1(2)
    by (auto simp: same_setup_def)
  moreover have "reorganize_from_block_height s h =
      map_option (Pair True) (add_blocks (advance_fork s2 (h + 1)) (h + 1) (length (db_blocks s2)))"
    using assms(2) s2(1)
    unfolding reorganize_from_block_height_def Let_def clear_votes_simps w_def [symmetric]
      rescan_def [symmetric] start option.case s1_def [symmetric] by simp
  ultimately show ?thesis by simp
qed

lemma rescan_from_block_height_inv:
  assumes "setup_ok s" and "h < length (db_blocks s)" and "length (db_blocks s) - h \<le> unat (window_size s)"
    and "rescan_from_block_height s h = Some (ok, s')"
  shows "hf_inv s' \<and> same_setup s s'"
proof -
  obtain s1 where s1: "scan_votes (clear_votes s) h (length (db_blocks s)) = Some s1" "tally s1"
    "same_setup (clear_votes s) s1" "length (versions s1) = length (db_blocks s) - h"
    using scan_votes_spec [OF tally_clear, of "length (db_blocks s)" s h] by auto
  obtain lastv where s': "s' = advance_fork (s1\<lparr>current_fork_index := find_fork (heights s1) lastv 0\<rparr>) (length (db_blocks s1))"
    using assms(2,4) s1(1) by (auto simp: rescan_from_block_height_def Let_def split: option.splits)
  let ?s2 = "s1\<lparr>current_fork_index := find_fork (heights s1) lastv 0\<rparr>"
  have "heights s1 = heights s" "window_size s1 = window_size s" "same_setup s s1"
    using s1(3) by (simp_all add: same_setup_def)
  then have f: "fork_table ?s2" "tally ?s2" "same_setup s ?s2"
    using assms(1) s1(2) find_fork_less [of 0 "heights s" lastv]
    by (auto simp: fork_table_def setup_ok_def tally_def same_setup_def)
  show ?thesis
    using advance_fork_inv [OF f(1), of "length (db_blocks s1)"] f s1(4) assms(1,3)
    unfolding s' by (auto simp: hf_inv_def same_setup_def setup_ok_def)
qed

subsection \<open>The state machine\<close>

text \<open>
  The life of the object: it is constructed, forks are scheduled, \<open>init\<close> is called; then blocks
  are added and reorganisations happen while the blockchain changes the stored blocks.
\<close>

inductive hf_setup :: "hard_fork \<Rightarrow> bool" where
  setup_new: "HardFork_new blocks hfs ov till ft ut w thr = Some s \<Longrightarrow> unat w < 4294967296 \<Longrightarrow> hf_setup s"
| setup_fork: "hf_setup s \<Longrightarrow> add_fork s v h t tm = (r, s') \<Longrightarrow> hf_setup s'"

inductive hf_ready :: "hard_fork \<Rightarrow> bool" where
  ready_init: "hf_setup s \<Longrightarrow> init_fork s = Some s' \<Longrightarrow> hf_ready s'"
| ready_add: "hf_ready s \<Longrightarrow> add_block s b h = Some (r, s') \<Longrightarrow> hf_ready s'"
| ready_reorg: "hf_ready s \<Longrightarrow> reorganize_from_block_height s h = Some (r, s') \<Longrightarrow> hf_ready s'"
| ready_db: "hf_ready s \<Longrightarrow> hf_ready (s\<lparr>db_blocks := blocks, hf_versions := hfs\<rparr>)"

lemma hf_setup_table:
  "hf_setup s \<Longrightarrow> ordered_forks (heights s) \<and> 0 < unat (window_size s) \<and>
     unat (window_size s) < 4294967296 \<and> current_fork_index s = 0"
proof (induction rule: hf_setup.induct)
  case (setup_new blocks hfs ov till ft ut w thr s)
  then show ?case
    by (auto simp: HardFork_new_def ordered_forks_def unat_gt_0 split: if_splits)
next
  case (setup_fork s v h t tm r s')
  have "p_version p \<le> p_version (last (heights s)) \<and> p_height p \<le> p_height (last (heights s))"
    if "p \<in> set (heights s)" for p
  proof -
    have ne: "heights s \<noteq> []" using that by auto
    then have "ordered_forks (butlast (heights s) @ [last (heights s)])" using setup_fork.IH by simp
    moreover have "p \<in> set (butlast (heights s)) \<or> p = last (heights s)"
      using that ne by (metis append_butlast_last_id in_set_butlastD in_set_conv_decomp rotate1.simps(2)
          set_ConsD set_rotate1)
    ultimately show ?thesis by (auto simp: ordered_forks_def sorted_wrt_append)
  qed
  then have "\<forall>p \<in> set (heights s). p_version p \<le> p_version (last (heights s)) \<and>
      p_height p \<le> p_height (last (heights s))" by blast
  with setup_fork show ?case
    by (auto simp: add_fork_def ordered_forks_def sorted_wrt_append not_le split: if_splits)
      (meson le_less_trans)+
qed

lemma reorganize_result:
  assumes "setup_ok s" and "reorganize_from_block_height s h = Some (r, s')"
  shows "s' = s \<or> hf_inv s' \<and> same_setup s s'"
proof (cases "h < length (db_blocks s)")
  case True
  have "h = 0 \<or> hf_versions s h \<noteq> None"
    using assms(2) True
    by (auto simp: reorganize_from_block_height_def Let_def split: option.splits if_splits)
  from reorganize_from_block_height_inv [OF assms(1) True this] assms(2) show ?thesis by auto
qed (use assms(2) in \<open>simp add: reorganize_from_block_height_def\<close>)

lemma init_fork_inv:
  assumes "hf_setup s" and "init_fork s = Some s'"
  shows "hf_inv s'"
proof -
  define s0 where "s0 = (if heights s = []
    then s\<lparr>heights := [\<lparr>p_version = original_version s, p_threshold = 0, p_height = 0, p_time = 0\<rparr>]\<rparr> else s)"
  define s1 where "s1 = (clear_votes s0)\<lparr>current_fork_index := 0\<rparr>"
  have t: "tally s1" using tally_clear [of s0] by (simp add: s1_def tally_def)
  have ok: "setup_ok s1"
    using hf_setup_table [OF assms(1)] by (auto simp: s1_def s0_def setup_ok_def fork_table_def ordered_forks_def)
  have inv: "hf_inv s1" using t ok by (simp add: hf_inv_def setup_ok_def s1_def)
  define w where "w = unat (window_size s1)"
  define h where "h = (if w < length (db_blocks s1) then length (db_blocks s1) - (w - 1) else 1)"
  have i: "init_fork s = (if hf_versions s1 0 = None
      then map_option (\<lambda>(_, s). s\<lparr>hf_versions := (hf_versions s)(0 \<mapsto> original_version s)\<rparr>)
             (reorganize_from_chain_height s1 1)
      else map_option snd (rescan_from_chain_height s1 h))"
    unfolding init_fork_def Let_def s0_def [symmetric] s1_def [symmetric] w_def h_def ..
  show ?thesis
  proof (cases "hf_versions s1 0 = None")
    case True
    then obtain r s2 where r: "reorganize_from_block_height s1 0 = Some (r, s2)"
      "s' = s2\<lparr>hf_versions := (hf_versions s2)(0 \<mapsto> original_version s2)\<rparr>"
      using assms(2) i by (auto simp: reorganize_from_chain_height_def)
    have "hf_inv s2" using reorganize_result [OF ok r(1)] inv by auto
    then show ?thesis by (simp add: r(2) hf_inv_def tally_def fork_table_def)
  next
    case False
    have h: "0 < h" using ok by (auto simp: h_def w_def setup_ok_def)
    then obtain r where r: "rescan_from_block_height s1 (h - 1) = Some (r, s')"
      using assms(2) i False by (auto simp: rescan_from_chain_height_def)
    show ?thesis
    proof (cases "h - 1 < length (db_blocks s1)")
      case True
      have "length (db_blocks s1) - (h - 1) \<le> unat (window_size s1)"
        using ok by (auto simp: h_def w_def setup_ok_def)
      from rescan_from_block_height_inv [OF ok True this r] show ?thesis ..
    next
      case False
      then show ?thesis using r inv by (simp add: rescan_from_block_height_def)
    qed
  qed
qed

lemma hf_ready_inv: "hf_ready s \<Longrightarrow> hf_inv s"
proof (induction rule: hf_ready.induct)
  case (ready_init s s')
  then show ?case by (rule init_fork_inv)
next
  case (ready_add s b h r s')
  then show ?case
    using add_version_inv [OF ready_add.IH, of "get_block_version b" "get_block_vote b" h]
    by (auto simp: add_block_def)
next
  case (ready_reorg s h r s')
  then show ?case using reorganize_result [OF hf_inv_setup] by blast
next
  case (ready_db s blocks hfs)
  then show ?case by (simp add: hf_inv_def tally_def fork_table_def)
qed

text \<open>
  C10: in every state that the hard fork object can reach once it is initialised, through any
  sequence of added blocks and reorganisations and whatever happens to the stored blocks, the
  counters tally the votes of the window exactly, the window holds at most
  \<open>window_size\<close> votes, the schedule is strictly ordered in version and height, and the current
  index is in range.
\<close>

theorem hard_fork_invariant:
  assumes "hf_ready s"
  shows "hf_inv s"
  using assms by (rule hf_ready_inv)

definition example_fork :: hard_fork where
  "example_fork = \<lparr>db_blocks = [\<lparr>major_version = 1, minor_version = 0\<rparr>], hf_versions = (\<lambda>_. None),
     forked_time = 0, update_time = 0, window_size = 1, default_threshold_percent = 80,
     original_version = 1, original_version_till_height = 0,
     heights = [\<lparr>p_version = 1, p_threshold = 0, p_height = 0, p_time = 0\<rparr>,
                \<lparr>p_version = 2, p_threshold = 0, p_height = 1, p_time = 1\<rparr>],
     versions = [], last_versions = replicate 256 0, current_fork_index = 0\<rparr>"

lemma example_fork_setup: "hf_setup example_fork"
proof -
  let ?b = "[\<lparr>major_version = 1, minor_version = 0\<rparr>]"
  obtain s0 where s0: "HardFork_new ?b (\<lambda>_. None) 1 0 0 0 1 80 = Some s0"
    by (simp add: HardFork_new_def)
  obtain s1 where s1: "add_fork s0 1 0 0 0 = (True, s1)"
    using s0 by (auto simp: HardFork_new_def add_fork_def)
  have s2: "add_fork s1 2 1 0 1 = (True, example_fork)"
    using s0 s1 by (auto simp: HardFork_new_def add_fork_def example_fork_def word_le_nat_alt)
  show ?thesis
    by (rule setup_fork [OF setup_fork [OF setup_new [OF s0] s1] s2]) simp
qed

lemma hf_ready_example: "\<exists>s. hf_ready s"
proof -
  have t: "tally (clear_votes example_fork)" by simp
  have ok: "setup_ok ((clear_votes example_fork)\<lparr>current_fork_index := 0\<rparr>)"
    by (simp add: setup_ok_def fork_table_def ordered_forks_def example_fork_def clear_votes_def)
  obtain s' where "reorganize_from_block_height ((clear_votes example_fork)\<lparr>current_fork_index := 0\<rparr>) 0 = Some (True, s')"
    using reorganize_from_block_height_inv [OF ok, of 0] by (auto simp: example_fork_def)
  then have "init_fork example_fork \<noteq> None"
    by (simp add: init_fork_def Let_def reorganize_from_chain_height_def example_fork_def)
  then obtain s where "init_fork example_fork = Some s" by auto
  then show ?thesis using ready_init [OF example_fork_setup] by blast
qed

theorem hard_fork_invariant_witness:
  "\<exists>s. hf_ready s \<and> hf_inv s"
  using hf_ready_example hard_fork_invariant by blast

subsection \<open>Activation needs the votes\<close>

text \<open>The votes of the window for the versions of the forks from index \<open>m\<close> on.\<close>

definition votes_for :: "hard_fork \<Rightarrow> nat \<Rightarrow> nat" where
  "votes_for s m = length (filter (\<lambda>v. v \<in> p_version ` set (drop m (heights s))) (versions s))"

lemma count_sum_filter:
  "distinct vs \<Longrightarrow> sum_list (map (count_list xs) vs) = length (filter (\<lambda>x. x \<in> set vs) xs)"
proof (induction vs)
  case (Cons v vs)
  have "length (filter (\<lambda>x. x = v \<or> x \<in> set vs) xs) = count_list xs v + length (filter (\<lambda>x. x \<in> set vs) xs)"
    using Cons.prems by (induction xs) auto
  with Cons show ?case by simp
qed simp

lemma of_nat_sum_list: "(of_nat (sum_list xs) :: u32) = sum_list (map of_nat xs)"
  by (induction xs) auto

lemma voted_loop_quorum:
  "voted_loop s h n acc = Some m \<Longrightarrow> n \<le> length (heights s) \<Longrightarrow>
   p_height (heights s ! m) \<le> h \<and> m < n \<and>
   fork_threshold s (heights s ! m) \<le>
     acc + sum_list (map (\<lambda>p. last_versions s ! unat (p_version p)) (drop m (take n (heights s))))"
proof (induction n arbitrary: acc)
  case (Suc n)
  let ?v = "last_versions s ! unat (p_version (heights s ! n))"
  have tk: "take (Suc n) (heights s) = take n (heights s) @ [heights s ! n]"
    using Suc.prems(2) by (simp add: take_Suc_conv_app_nth)
  show ?case
  proof (cases "p_height (heights s ! n) \<le> h \<and> fork_threshold s (heights s ! n) \<le> acc + ?v")
    case True
    then have "m = n" using Suc.prems(1) by (simp add: Let_def)
    with True Suc.prems(2) show ?thesis by (simp add: tk)
  next
    case False
    then have "voted_loop s h n (acc + ?v) = Some m" using Suc.prems(1) by (auto simp: Let_def split: if_splits)
    from Suc.IH [OF this] Suc.prems(2) show ?thesis by (auto simp: tk add.assoc add.commute add.left_commute)
  qed
qed simp

lemma votes_for_tally:
  assumes "tally s" and "ordered_forks (heights s)"
  shows "sum_list (map (\<lambda>p. last_versions s ! unat (p_version p)) (drop m (heights s))) =
    (of_nat (votes_for s m) :: u32)"
proof -
  have "distinct (map p_version (heights s))" using assms(2) by (rule ordered_forks_distinct)
  then have d: "distinct (map p_version (drop m (heights s)))" by (simp add: drop_map [symmetric] distinct_drop)
  have "map (\<lambda>p. last_versions s ! unat (p_version p)) (drop m (heights s)) =
      map of_nat (map (count_list (versions s)) (map p_version (drop m (heights s))))"
    using assms(1) by (simp add: tally_def)
  then show ?thesis
    using count_sum_filter [OF d, of "versions s"] by (simp only: of_nat_sum_list [symmetric]) (simp add: votes_for_def)
qed

lemma add_version_activates:
  assumes "hf_inv s" and "add_version s bv vv h = Some (ok, s')"
    and "current_fork_index s < current_fork_index s'"
  shows "p_height (heights s' ! current_fork_index s') \<le> h + 1 \<and>
    unat (fork_threshold s' (heights s' ! current_fork_index s')) \<le> votes_for s' (current_fork_index s')"
proof -
  have inv': "hf_inv s'" using add_version_inv [OF assms(1), of bv vv h] assms(2) by auto
  obtain s2 v where s': "s' = advance_fork (push_vote s2 v) (h + 1)" "current_fork_index s2 = current_fork_index s"
    "tally s2" "fork_table s2"
  proof -
    define s1 where "s1 = s\<lparr>hf_versions := (hf_versions s)(h \<mapsto> p_version (heights s ! current_fork_index s))\<rparr>"
    have s1: "tally s1" "length (versions s1) < 4294967296" "0 < unat (window_size s1)" "fork_table s1"
      "current_fork_index s1 = current_fork_index s"
      using assms(1) by (auto simp: hf_inv_def tally_def fork_table_def s1_def)
    obtain s2 where "drop_votes s1 = Some s2" "tally s2" "same_setup s1 s2" "current_fork_index s2 = current_fork_index s1"
      using drop_votes_tally [OF s1(1-3)] by blast
    moreover from this have "fork_table s2" using s1(4,5) by (simp add: fork_table_def same_setup_def)
    ultimately show thesis
      using that [of s2 "get_effective_version s1 vv"] assms(2,3) s1(5)
      by (auto simp: add_version_def Let_def s1_def [symmetric] split: option.splits bool.splits)
  qed
  define s3 where "s3 = push_vote s2 v"
  have f3: "fork_table s3" "tally s3" using s'(3,4) by (simp_all add: s3_def tally_push fork_table_def)
  have eq: "s' = s3\<lparr>current_fork_index := max (current_fork_index s3) (get_voted_fork_index s3 (h + 1))\<rparr>"
    using s'(1) advance_fork_spec [OF f3(1)] by (simp add: s3_def)
  have c3: "current_fork_index s3 = current_fork_index s" using s'(2) by (simp add: s3_def)
  then obtain m where m: "voted_loop s3 (h + 1) (length (heights s3)) 0 = Some m" "current_fork_index s' = m"
    using assms(3) eq by (cases "voted_loop s3 (h + 1) (length (heights s3)) 0")
      (auto simp: get_voted_fork_index_def max_def split: if_splits)
  have q: "p_height (heights s3 ! m) \<le> h + 1" "fork_threshold s3 (heights s3 ! m) \<le> (of_nat (votes_for s3 m) :: u32)"
    using voted_loop_quorum [OF m(1)] votes_for_tally [OF f3(2), of m] f3(1) by (simp_all add: fork_table_def)
  have "votes_for s3 m \<le> length (versions s3)" by (simp add: votes_for_def)
  also have "\<dots> < 4294967296" using inv' eq by (auto simp: hf_inv_def)
  finally have "unat (fork_threshold s3 (heights s3 ! m)) \<le> votes_for s3 m"
    using q(2) by (simp add: word_le_nat_alt unat_of_nat)
  then show ?thesis using q(1) m(2) eq by (simp add: votes_for_def fork_threshold_def)
qed

text \<open>
  C11: adding a block never lowers the protocol version in force, and raises it only when the
  new fork's height has come and the votes of the window for that fork or later ones reach the
  fork's threshold.
\<close>

theorem hard_fork_activation:
  assumes "hf_ready s" and "add_block s b h = Some (ok, s')"
  shows "get_current_version s \<noteq> None \<and> get_current_version s' \<noteq> None \<and>
    the (get_current_version s) \<le> the (get_current_version s') \<and>
    (the (get_current_version s) < the (get_current_version s') \<longrightarrow>
       p_height (heights s' ! current_fork_index s') \<le> h + 1 \<and>
       unat (fork_threshold s' (heights s' ! current_fork_index s')) \<le> votes_for s' (current_fork_index s'))"
proof -
  have inv: "hf_inv s" using assms(1) by (rule hf_ready_inv)
  let ?i = "current_fork_index s" let ?j = "current_fork_index s'"
  have a: "hf_inv s'" "same_setup s s'" "?i \<le> ?j"
    using add_version_inv [OF inv, of "get_block_version b" "get_block_vote b" h] assms(2)
    by (auto simp: add_block_def)
  then have hs: "heights s' = heights s" "?i < length (heights s)" "?j < length (heights s)"
    using inv by (auto simp: same_setup_def hf_inv_def fork_table_def)
  then have v: "get_current_version s = Some (p_version (heights s ! ?i))"
    "get_current_version s' = Some (p_version (heights s ! ?j))"
    by (simp_all add: get_current_version_def fork_at_def)
  have lt: "p_version (heights s ! ?i) < p_version (heights s ! ?j)" if "?i < ?j"
  proof -
    have "sorted_wrt (\<lambda>p q. p_version p < p_version q \<and> p_height p < p_height q) (heights s)"
      using inv by (simp add: hf_inv_def fork_table_def ordered_forks_def)
    from sorted_wrt_nth_less [OF this that hs(3)] show ?thesis ..
  qed
  show ?thesis
  proof (cases "?i < ?j")
    case True
    then show ?thesis
      using lt v add_version_activates [OF inv _ True] assms(2) by (auto simp: add_block_def)
  next
    case False
    then have "?i = ?j" using a(3) by simp
    then show ?thesis using v by simp
  qed
qed

text \<open>A table with one fork by vote: version 5 from height 2 on, when 80 percent of the window vote for it.\<close>

definition vote_fork :: hard_fork where
  "vote_fork = \<lparr>db_blocks = [\<lparr>major_version = 4, minor_version = 4\<rparr>], hf_versions = (\<lambda>_. None),
     forked_time = 0, update_time = 0, window_size = 1, default_threshold_percent = 80,
     original_version = 4, original_version_till_height = 0,
     heights = [\<lparr>p_version = 4, p_threshold = 0, p_height = 0, p_time = 0\<rparr>,
                \<lparr>p_version = 5, p_threshold = 80, p_height = 2, p_time = 1\<rparr>],
     versions = [], last_versions = replicate 256 0, current_fork_index = 0\<rparr>"

lemma vote_fork_setup: "hf_setup vote_fork"
proof -
  let ?b = "[\<lparr>major_version = 4, minor_version = 4\<rparr>]"
  obtain s0 where s0: "HardFork_new ?b (\<lambda>_. None) 4 0 0 0 1 80 = Some s0"
    by (simp add: HardFork_new_def)
  obtain s1 where s1: "add_fork s0 4 0 0 0 = (True, s1)"
    using s0 by (auto simp: HardFork_new_def add_fork_def)
  have s2: "add_fork s1 5 2 80 1 = (True, vote_fork)"
    using s0 s1 by (auto simp: HardFork_new_def add_fork_def vote_fork_def word_le_nat_alt)
  show ?thesis
    by (rule setup_fork [OF setup_fork [OF setup_new [OF s0] s1] s2]) simp
qed

lemma vote_fork_activates:
  "init_fork vote_fork \<noteq> None"
  "get_current_version (the (init_fork vote_fork)) = Some 4"
  "map_option (\<lambda>r. get_current_version (snd r)) (add_block (the (init_fork vote_fork)) \<lparr>major_version = 4, minor_version = 5\<rparr> 1) = Some (Some 5)"
  by code_simp+

theorem hard_fork_activation_witness:
  "\<exists>s s' ok. hf_ready s \<and> add_block s \<lparr>major_version = 4, minor_version = 5\<rparr> 1 = Some (ok, s') \<and>
     get_current_version s = Some 4 \<and> get_current_version s' = Some 5 \<and>
     p_height (heights s' ! current_fork_index s') \<le> 2 \<and>
     unat (fork_threshold s' (heights s' ! current_fork_index s')) \<le> votes_for s' (current_fork_index s')"
proof -
  have r: "hf_ready (the (init_fork vote_fork))" using ready_init [OF vote_fork_setup] vote_fork_activates(1) by auto
  obtain ok s' where a: "add_block (the (init_fork vote_fork)) \<lparr>major_version = 4, minor_version = 5\<rparr> 1 = Some (ok, s')"
    "get_current_version s' = Some 5" using vote_fork_activates(3) by auto
  have "(4 :: u8) < 5" by simp
  with hard_fork_activation [OF r a(1)] r a vote_fork_activates(2) show ?thesis by auto
qed

end
