(* ===== verification/Ordered_Set.thy ===== *)
theory Ordered_Set
  imports Cn_Prelude
begin

text \<open>
  The ordered containers of the C++ standard library that the components use, as lists that
  are strictly sorted by a key: \<open>std::set\<close> with a comparison on one member (\<open>set_insert\<close> leaves
  the set alone when an equivalent element is present) and \<open>std::map\<close> (\<open>map_assign\<close> is
  \<open>m[k] = v\<close>, \<open>map_of\<close> is \<open>find\<close>). Iteration runs over the list from the front.
\<close>

fun set_insert :: "('a \<Rightarrow> 'k::linorder) \<Rightarrow> 'a \<Rightarrow> 'a list \<Rightarrow> 'a list" where
  "set_insert key x [] = [x]"
| "set_insert key x (y # ys) =
     (if key x < key y then x # y # ys
      else if key x = key y then y # ys
      else y # set_insert key x ys)"

fun map_assign :: "'k::linorder \<Rightarrow> 'v \<Rightarrow> ('k \<times> 'v) list \<Rightarrow> ('k \<times> 'v) list" where
  "map_assign k v [] = [(k, v)]"
| "map_assign k v ((k', v') # m) =
     (if k < k' then (k, v) # (k', v') # m
      else if k = k' then (k, v) # m
      else (k', v') # map_assign k v m)"

definition strictly_sorted :: "('a \<Rightarrow> 'k::linorder) \<Rightarrow> 'a list \<Rightarrow> bool" where
  "strictly_sorted key xs \<longleftrightarrow> sorted_wrt (\<lambda>x y. key x < key y) xs"

lemma strictly_sorted_Nil [simp]: "strictly_sorted key []"
  by (simp add: strictly_sorted_def)

lemma strictly_sorted_Cons:
  "strictly_sorted key (x # xs) \<longleftrightarrow> (\<forall>y \<in> set xs. key x < key y) \<and> strictly_sorted key xs"
  by (simp add: strictly_sorted_def)

lemma strictly_sorted_filter [intro]: "strictly_sorted key xs \<Longrightarrow> strictly_sorted key (filter P xs)"
  by (simp add: strictly_sorted_def sorted_wrt_filter)

lemma strictly_sorted_append:
  "strictly_sorted key (xs @ ys) \<longleftrightarrow>
     strictly_sorted key xs \<and> strictly_sorted key ys \<and> (\<forall>x \<in> set xs. \<forall>y \<in> set ys. key x < key y)"
  by (simp add: strictly_sorted_def sorted_wrt_append)

lemma strictly_sorted_key_unique:
  "strictly_sorted key xs \<Longrightarrow> x \<in> set xs \<Longrightarrow> y \<in> set xs \<Longrightarrow> key x = key y \<Longrightarrow> x = y"
proof (induction xs)
  case (Cons z zs)
  then show ?case
    by (metis set_ConsD strictly_sorted_Cons less_irrefl)
qed simp

lemma set_insert_in: "set (set_insert key x xs) \<subseteq> insert x (set xs)"
  by (induction xs) auto

lemma set_insert_present:
  "strictly_sorted key xs \<Longrightarrow> key x \<in> key ` set xs \<Longrightarrow> set_insert key x xs = xs"
  by (induction xs) (auto simp: strictly_sorted_Cons)

lemma set_insert_absent: "key x \<notin> key ` set xs \<Longrightarrow> set (set_insert key x xs) = insert x (set xs)"
  by (induction xs) auto

lemma strictly_sorted_insert: "strictly_sorted key xs \<Longrightarrow> strictly_sorted key (set_insert key x xs)"
proof (induction xs)
  case (Cons y ys)
  then show ?case
    using set_insert_in [of key x ys] less_trans [of "key x" "key y"]
    by (auto simp: strictly_sorted_Cons)
qed (simp add: strictly_sorted_Cons)

lemma map_of_map_assign: "map_of (map_assign k v m) = (map_of m)(k \<mapsto> v)"
  by (induction m) (auto simp: fun_eq_iff)

lemma map_assign_keys: "fst ` set (map_assign k v m) = insert k (fst ` set m)"
  by (induction k v m rule: map_assign.induct) (simp_all add: insert_commute)

lemma map_assign_in: "set (map_assign k v m) \<subseteq> insert (k, v) (set m)"
  by (induction k v m rule: map_assign.induct) auto

lemma strictly_sorted_assign: "strictly_sorted fst m \<Longrightarrow> strictly_sorted fst (map_assign k v m)"
proof (induction m)
  case (Cons p m)
  obtain k' v' where p: "p = (k', v')" by (cases p)
  show ?case
    using Cons map_assign_in [of k v m] less_trans [of k k']
    by (fastforce simp: p strictly_sorted_Cons)
qed (simp add: strictly_sorted_Cons)

text \<open>
  The contract of an ordered set that its users rely on, and what follows from it.
\<close>

locale ordered_set =
  fixes key :: "'a \<Rightarrow> 'k::linorder" and ins :: "'a \<Rightarrow> 'a list \<Rightarrow> 'a list" and ok :: "'a list \<Rightarrow> bool"
  assumes ok_sorted: "ok xs \<Longrightarrow> strictly_sorted key xs"
    and ok_Nil: "ok []"
    and ok_ins: "ok xs \<Longrightarrow> ok (ins x xs)"
    and ok_erase: "ok xs \<Longrightarrow> ok (filter P xs)"
    and ins_present: "ok xs \<Longrightarrow> key x \<in> key ` set xs \<Longrightarrow> ins x xs = xs"
    and ins_absent: "ok xs \<Longrightarrow> key x \<notin> key ` set xs \<Longrightarrow> set (ins x xs) = insert x (set xs)"
begin

lemma key_unique: "ok xs \<Longrightarrow> x \<in> set xs \<Longrightarrow> y \<in> set xs \<Longrightarrow> key x = key y \<Longrightarrow> x = y"
  by (rule strictly_sorted_key_unique [OF ok_sorted])

lemma key_mem_ins: "ok xs \<Longrightarrow> key ` set (ins x xs) = insert (key x) (key ` set xs)"
  by (cases "key x \<in> key ` set xs") (auto simp: ins_present ins_absent)

lemma set_ins: "ok xs \<Longrightarrow> set (ins x xs) = (if key x \<in> key ` set xs then set xs else insert x (set xs))"
  by (simp add: ins_present ins_absent)

lemma hd_least: "ok xs \<Longrightarrow> x \<in> set xs \<Longrightarrow> key (hd xs) \<le> key x"
  using ok_sorted [of xs] by (cases xs) (auto simp: strictly_sorted_Cons less_imp_le)

lemma distinct_ok: "ok xs \<Longrightarrow> distinct xs"
proof -
  assume "ok xs"
  then have "strictly_sorted key xs" by (rule ok_sorted)
  then show ?thesis by (induction xs) (auto simp: strictly_sorted_Cons)
qed

end

end
