(* ===== verification/Checkpoints.thy ===== *)
theory Checkpoints
  imports Ordered_Set
begin

text \<open>
  The checkpoints of \<open>cryptonote_basic/checkpoints.cpp\<close> with the hexadecimal parser of
  \<open>contrib/epee\<close> they use. \<open>m_points\<close> is a sorted association list. The content of the
  checkpoint file and the DNS records are arguments; a read of an empty container is \<open>None\<close>.
\<close>

type_synonym checkpoints = "(u64 \<times> blob) list"

subsection \<open>Parsing of hashes\<close>

text \<open>
  \<open>strtoul(byte_str, &endptr, 16)\<close> on a string of two characters, accepted when all of it is
  consumed: two digits, a sign or a blank before one digit (the minus sign makes the value
  negative as a \<open>long\<close> and is refused unless the digit is zero). An empty string of hexadecimal
  digits leaves \<open>endptr\<close> at the start.
\<close>

definition hex_digit :: "u8 \<Rightarrow> nat option" where
  "hex_digit c =
     (if 48 \<le> c \<and> c \<le> 57 then Some (unat c - 48)
      else if 97 \<le> c \<and> c \<le> 102 then Some (unat c - 87)
      else if 65 \<le> c \<and> c \<le> 70 then Some (unat c - 55)
      else None)"

definition is_space :: "u8 \<Rightarrow> bool" where
  "is_space c \<longleftrightarrow> c = 32 \<or> (9 \<le> c \<and> c \<le> 13)"

definition hex_byte :: "u8 \<Rightarrow> u8 \<Rightarrow> u8 option" where
  "hex_byte a b =
     (case (hex_digit a, hex_digit b) of
        (Some x, Some y) \<Rightarrow> Some (of_nat (16 * x + y))
      | (None, Some y) \<Rightarrow>
          if is_space a \<or> a = 43 then Some (of_nat y)
          else if a = 45 \<and> y = 0 then Some 0
          else None
      | _ \<Rightarrow> None)"

fun parse_hexstr_loop :: "blob \<Rightarrow> blob option" where
  "parse_hexstr_loop [] = Some []"
| "parse_hexstr_loop [a] = None"
| "parse_hexstr_loop (a # b # s) =
     (case hex_byte a b of
        None \<Rightarrow> None
      | Some v \<Rightarrow> map_option (\<lambda>res. v # res) (parse_hexstr_loop s))"

definition parse_hexstr_to_binbuff :: "blob \<Rightarrow> blob option" where
  "parse_hexstr_to_binbuff s = (if odd (length s) then None else parse_hexstr_loop s)"

definition parse_tpod_from_hex_string :: "nat \<Rightarrow> blob \<Rightarrow> blob option" where
  "parse_tpod_from_hex_string sizeof_pod str_hash =
     (case parse_hexstr_to_binbuff str_hash of
        None \<Rightarrow> None
      | Some buf \<Rightarrow> if length buf \<noteq> sizeof_pod then None else Some buf)"

subsection \<open>Operations\<close>

definition add_checkpoint :: "checkpoints \<Rightarrow> u64 \<Rightarrow> blob \<Rightarrow> bool \<times> checkpoints" where
  "add_checkpoint m_points height hash_str =
     (case parse_tpod_from_hex_string 32 hash_str of
        None \<Rightarrow> (False, m_points)
      | Some h \<Rightarrow>
          (case map_of m_points height of
             Some h' \<Rightarrow> if h = h' then (True, map_assign height h m_points) else (False, m_points)
           | None \<Rightarrow> (True, map_assign height h m_points)))"

definition is_in_checkpoint_zone :: "checkpoints \<Rightarrow> u64 \<Rightarrow> bool" where
  "is_in_checkpoint_zone m_points height \<longleftrightarrow> m_points \<noteq> [] \<and> height \<le> fst (last m_points)"

text \<open>The result and \<open>is_a_checkpoint\<close>.\<close>

definition check_block :: "checkpoints \<Rightarrow> u64 \<Rightarrow> blob \<Rightarrow> bool \<times> bool" where
  "check_block m_points height h =
     (case map_of m_points height of
        None \<Rightarrow> (True, False)
      | Some h' \<Rightarrow> if h' = h then (True, True) else (False, True))"

definition is_alternative_block_allowed :: "checkpoints \<Rightarrow> u64 \<Rightarrow> u64 \<Rightarrow> bool" where
  "is_alternative_block_allowed m_points blockchain_height block_height =
     (if block_height = 0 then False
      else let before = takeWhile (\<lambda>p. fst p \<le> blockchain_height) m_points
           in if before = [] then True
              else fst (last before) < block_height)"

fun max_element_from :: "u64 \<Rightarrow> checkpoints \<Rightarrow> u64" where
  "max_element_from best [] = best"
| "max_element_from best ((k, _) # m) = max_element_from (if best < k then k else best) m"

definition get_max_height :: "checkpoints \<Rightarrow> u64 option" where
  "get_max_height m_points =
     (case m_points of [] \<Rightarrow> None | (k, _) # m \<Rightarrow> Some (max_element_from k m))"

fun check_for_conflicts :: "checkpoints \<Rightarrow> checkpoints \<Rightarrow> bool" where
  "check_for_conflicts m_points [] = True"
| "check_for_conflicts m_points ((k, h) # other) =
     (case map_of m_points k of
        Some h' \<Rightarrow> if h \<noteq> h' then False else check_for_conflicts m_points other
      | None \<Rightarrow> check_for_conflicts m_points other)"

fun add_checkpoints :: "checkpoints \<Rightarrow> (u64 \<times> blob) list \<Rightarrow> bool \<times> checkpoints" where
  "add_checkpoints m_points [] = (True, m_points)"
| "add_checkpoints m_points ((height, hash) # rest) =
     (let (ok, m_points) = add_checkpoint m_points height hash
      in if ok then add_checkpoints m_points rest else (False, m_points))"

definition default_checkpoints :: "(u64 \<times> blob) list" where
  "default_checkpoints =
    [(1, map of_char ''6044dcbb7fdbf3615ec4d618c667ac8f0ee0082cda621d00e8ccc577ab915749''),
     (10, map of_char ''fa81ba4e9649e577eb8afa5bb52b025a5cdf7857b199e0e52b51f5ec44d4caf1''),
     (100, map of_char ''dd7fe42eb8b5824e95bf95c091bbeea2367f1e3fcb21b30f7a087872f5540795''),
     (1000, map of_char ''95e016693e0422dbfec51e74342bebcad7b7684f04040c559b9284f937ad1d32''),
     (10000, map of_char ''9c4b950f0439d9beb1051d6e39374291300d8cc4c3223aa8d432c04e291b591a''),
     (25000, map of_char ''965d533cef5baab75424a58748eada049b5af6ec587fab619810fe38f43e6ed6''),
     (50000, map of_char ''8c518cc2740c8678b9e685dc9a159f966899ec9c2ee49c3f229e3f5464dd5e1e''),
     (56000, map of_char ''0a647610abfad692ee81b2a33e6c2958c7d298e9fd1a5c02526209b341f92d1f''),
     (76501, map of_char ''be1ccf38a7a9f5509303f594c65192b4cb611e38507c0aca1810f38e55cfd0a1''),
     (100000, map of_char ''52648fe3c9b2485c0823652d46c9900fa9593e10db75cac6ba3f13adc9d78ec8''),
     (110000, map of_char ''099d1185f1fdd5f0023400bf5b868782fbd0c4d7362fc906e577af2415378dfd''),
     (1480026, map of_char ''d7c1998e4c3b722d84dbba5be0bbe068b5be2b0b6368c59d9765674c466c9b8e'')]"

definition init_default_checkpoints :: "checkpoints \<Rightarrow> bool \<times> checkpoints" where
  "init_default_checkpoints m_points = add_checkpoints m_points default_checkpoints"

text \<open>
  The file: \<open>None\<close> when it does not exist, else its lines of height and hash. The highest
  checkpoint is read from the map, which must not be empty.
\<close>

definition load_checkpoints_from_json :: "checkpoints \<Rightarrow> (u64 \<times> blob) list option \<Rightarrow> (bool \<times> checkpoints) option" where
  "load_checkpoints_from_json m_points file =
     (case file of
        None \<Rightarrow> Some (True, m_points)
      | Some hashlines \<Rightarrow>
          (case get_max_height m_points of
             None \<Rightarrow> None
           | Some prev_max_height \<Rightarrow>
               Some (add_checkpoints m_points (filter (\<lambda>(height, _). \<not> height \<le> prev_max_height) hashlines))))"

text \<open>
  The DNS records; \<open>None\<close> when they could not be fetched. A record is split at the first
  colon; one whose height or hash does not parse is skipped. \<open>parse_height\<close> is the extraction
  of an unsigned number from a string stream.
\<close>

definition dns_entry :: "(blob \<Rightarrow> u64 option) \<Rightarrow> blob \<Rightarrow> (u64 \<times> blob) option" where
  "dns_entry parse_height record =
     (if 58 \<in> set record
      then let pos = length (takeWhile (\<lambda>c. c \<noteq> 58) record);
               hashStr = drop (pos + 1) record
           in case parse_height (take pos record) of
                None \<Rightarrow> None
              | Some height \<Rightarrow>
                  (case parse_tpod_from_hex_string 32 hashStr of
                     None \<Rightarrow> None | Some _ \<Rightarrow> Some (height, hashStr))
      else None)"

definition load_checkpoints_from_dns ::
    "(blob \<Rightarrow> u64 option) \<Rightarrow> checkpoints \<Rightarrow> blob list option \<Rightarrow> bool \<times> checkpoints" where
  "load_checkpoints_from_dns parse_height m_points records =
     (case records of
        None \<Rightarrow> (True, m_points)
      | Some records \<Rightarrow> add_checkpoints m_points (List.map_filter (dns_entry parse_height) records))"

definition load_new_checkpoints ::
    "(blob \<Rightarrow> u64 option) \<Rightarrow> checkpoints \<Rightarrow> (u64 \<times> blob) list option \<Rightarrow> bool \<Rightarrow> blob list option \<Rightarrow> (bool \<times> checkpoints) option" where
  "load_new_checkpoints parse_height m_points file dns records =
     (case load_checkpoints_from_json m_points file of
        None \<Rightarrow> None
      | Some (res, m_points) \<Rightarrow>
          if dns
          then let (res', m_points) = load_checkpoints_from_dns parse_height m_points records
               in Some (res \<and> res', m_points)
          else Some (res, m_points))"

subsection \<open>Invariant: the points are sorted, and a point is never replaced\<close>

lemma add_checkpoint_sorted:
  "strictly_sorted fst m \<Longrightarrow> strictly_sorted fst (snd (add_checkpoint m height s))"
  by (auto simp: add_checkpoint_def strictly_sorted_assign split: option.splits)

lemma add_checkpoint_extends: "map_of m \<subseteq>\<^sub>m map_of (snd (add_checkpoint m height s))"
  by (auto simp: add_checkpoint_def map_of_map_assign map_le_def split: option.splits)

lemma add_checkpoint_fst:
  "fst (add_checkpoint m height s) \<longleftrightarrow>
     (\<exists>h. parse_tpod_from_hex_string 32 s = Some h \<and> map_of m height \<in> {None, Some h})"
  by (auto simp: add_checkpoint_def split: option.splits)

lemma add_checkpoint_stored:
  "fst (add_checkpoint m height s) \<Longrightarrow>
     map_of (snd (add_checkpoint m height s)) height = parse_tpod_from_hex_string 32 s"
  by (auto simp: add_checkpoint_def map_of_map_assign split: option.splits if_splits)

lemma add_checkpoints_sorted:
  "strictly_sorted fst m \<Longrightarrow> strictly_sorted fst (snd (add_checkpoints m ps))"
proof (induction m ps rule: add_checkpoints.induct)
  case (2 m height hash rest)
  then show ?case
    using add_checkpoint_sorted [of m height hash]
    by (auto split: prod.splits)
qed simp

lemma add_checkpoints_extends: "map_of m \<subseteq>\<^sub>m map_of (snd (add_checkpoints m ps))"
proof (induction m ps rule: add_checkpoints.induct)
  case (2 m height hash rest)
  then show ?case
    using add_checkpoint_extends [of m height hash]
    by (auto split: prod.splits intro: map_le_trans)
qed simp

lemma add_checkpoints_stored:
  "fst (add_checkpoints m ps) \<Longrightarrow> (height, s) \<in> set ps \<Longrightarrow>
     map_of (snd (add_checkpoints m ps)) height = parse_tpod_from_hex_string 32 s
     \<and> parse_tpod_from_hex_string 32 s \<noteq> None"
proof (induction m ps rule: add_checkpoints.induct)
  case (2 m height' hash rest)
  obtain ok m' where a: "add_checkpoint m height' hash = (ok, m')" by fastforce
  from 2(2) a have ok: "ok" and rest: "fst (add_checkpoints m' rest)" by (auto split: if_splits)
  have stored: "map_of m' height' = parse_tpod_from_hex_string 32 hash"
      "parse_tpod_from_hex_string 32 hash \<noteq> None"
    using add_checkpoint_stored [of m height' hash] add_checkpoint_fst [of m height' hash] a ok by auto
  show ?case
  proof (cases "(height, s) = (height', hash)")
    case True
    then show ?thesis
      using a ok stored add_checkpoints_extends [of m' rest] by (auto simp: map_le_def dom_def)
  next
    case False
    then show ?thesis using 2(1) [OF a [symmetric] refl ok rest] 2(3) a ok by auto
  qed
qed simp

lemma load_json_sorted:
  "strictly_sorted fst m \<Longrightarrow> load_checkpoints_from_json m file = Some (r, m') \<Longrightarrow> strictly_sorted fst m'"
  using add_checkpoints_sorted [of m]
  by (auto simp: load_checkpoints_from_json_def split: option.splits) (metis snd_conv)

lemma load_json_extends:
  "load_checkpoints_from_json m file = Some (r, m') \<Longrightarrow> map_of m \<subseteq>\<^sub>m map_of m'"
  using add_checkpoints_extends [of m]
  by (auto simp: load_checkpoints_from_json_def split: option.splits) (metis snd_conv)

lemma load_dns_sorted:
  "strictly_sorted fst m \<Longrightarrow> strictly_sorted fst (snd (load_checkpoints_from_dns ph m records))"
  by (auto simp: load_checkpoints_from_dns_def add_checkpoints_sorted split: option.splits)

lemma load_dns_extends: "map_of m \<subseteq>\<^sub>m map_of (snd (load_checkpoints_from_dns ph m records))"
  by (auto simp: load_checkpoints_from_dns_def add_checkpoints_extends split: option.splits)

lemma get_max_height_None: "get_max_height m = None \<longleftrightarrow> m = []"
  by (auto simp: get_max_height_def split: list.splits)

subsection \<open>Queries\<close>

lemma last_greatest:
  "strictly_sorted fst m \<Longrightarrow> p \<in> set m \<Longrightarrow> fst p \<le> fst (last m)"
  by (induction m) (auto simp: strictly_sorted_Cons less_imp_le)

lemma takeWhile_le_sorted:
  "strictly_sorted fst m \<Longrightarrow> set (takeWhile (\<lambda>p. fst p \<le> b) m) = {p \<in> set m. fst p \<le> b}"
proof (induction m)
  case (Cons q m)
  then show ?case by (auto simp: strictly_sorted_Cons)
qed simp

lemma strictly_sorted_takeWhile:
  "strictly_sorted key m \<Longrightarrow> strictly_sorted key (takeWhile P m)"
  by (induction m) (auto simp: strictly_sorted_Cons dest: set_takeWhileD)

lemma zone_iff:
  "strictly_sorted fst m \<Longrightarrow> is_in_checkpoint_zone m height \<longleftrightarrow> (\<exists>k \<in> fst ` set m. height \<le> k)"
  using last_greatest [of m] by (force simp: is_in_checkpoint_zone_def intro: order_trans)

lemma alternative_iff:
  assumes "strictly_sorted fst m"
  shows "is_alternative_block_allowed m b h \<longleftrightarrow> h \<noteq> 0 \<and> (\<forall>k \<in> fst ` set m. k \<le> b \<longrightarrow> k < h)"
proof -
  let ?t = "takeWhile (\<lambda>p. fst p \<le> b) m"
  have s: "strictly_sorted fst ?t" using assms by (rule strictly_sorted_takeWhile)
  have "?t \<noteq> [] \<Longrightarrow> fst (last ?t) < h \<longleftrightarrow> (\<forall>p \<in> set ?t. fst p < h)"
    using last_greatest [OF s] last_in_set [of ?t] by (blast intro: le_less_trans)
  then show ?thesis
    using takeWhile_le_sorted [OF assms, of b]
    by (auto simp: is_alternative_block_allowed_def Let_def)
qed

lemma max_element_from_sorted:
  "strictly_sorted fst ((k, v) # m) \<Longrightarrow> max_element_from k m = fst (last ((k, v) # m))"
proof (induction m arbitrary: k v)
  case (Cons p m)
  then show ?case using Cons.IH [of "fst p" "snd p"] by (cases p) (auto simp: strictly_sorted_Cons)
qed simp

lemma get_max_height_last:
  "strictly_sorted fst m \<Longrightarrow> m \<noteq> [] \<Longrightarrow> get_max_height m = Some (fst (last m))"
proof (cases m)
  case (Cons p rest)
  then show "strictly_sorted fst m \<Longrightarrow> ?thesis"
    using max_element_from_sorted [of "fst p" "snd p" rest] by (auto simp: get_max_height_def split: prod.splits)
qed simp

lemma get_max_height_Max:
  assumes "strictly_sorted fst m" "m \<noteq> []"
  shows "get_max_height m = Some (Max (fst ` set m))"
  using last_greatest [OF assms(1)] last_in_set [OF assms(2)]
  by (auto simp: get_max_height_last [OF assms] intro!: Max_eqI [symmetric])

lemma check_for_conflicts_iff:
  "check_for_conflicts m other \<longleftrightarrow> (\<forall>(k, h) \<in> set other. map_of m k \<in> {None, Some h})"
  by (induction m other rule: check_for_conflicts.induct) (auto split: option.splits if_splits)

subsection \<open>Properties\<close>

lemma load_new_cases:
  assumes "load_new_checkpoints ph m file dns records = Some (r, m')"
  obtains r1 m1 where "load_checkpoints_from_json m file = Some (r1, m1)"
    and "m' = (if dns then snd (load_checkpoints_from_dns ph m1 records) else m1)"
    and "r = (if dns then r1 \<and> fst (load_checkpoints_from_dns ph m1 records) else r1)"
proof -
  obtain r1 m1 where j: "load_checkpoints_from_json m file = Some (r1, m1)"
    using assms unfolding load_new_checkpoints_def
    by (cases "load_checkpoints_from_json m file") auto
  show thesis
  proof (rule that [OF j])
  qed (use assms in \<open>simp_all add: load_new_checkpoints_def j case_prod_beta Let_def split: if_splits\<close>)
qed

lemma load_new_sorted:
  assumes "strictly_sorted fst m" "load_new_checkpoints ph m file dns records = Some (r, m')"
  shows "strictly_sorted fst m'"
  using assms(2)
proof (rule load_new_cases)
  fix r1 m1 assume j: "load_checkpoints_from_json m file = Some (r1, m1)"
    and m': "m' = (if dns then snd (load_checkpoints_from_dns ph m1 records) else m1)"
  show ?thesis using load_json_sorted [OF assms(1) j] load_dns_sorted [of m1 ph records] by (simp add: m')
qed

lemma load_new_extends:
  assumes "load_new_checkpoints ph m file dns records = Some (r, m')"
  shows "map_of m \<subseteq>\<^sub>m map_of m'"
  using assms
proof (rule load_new_cases)
  fix r1 m1 assume j: "load_checkpoints_from_json m file = Some (r1, m1)"
    and m': "m' = (if dns then snd (load_checkpoints_from_dns ph m1 records) else m1)"
  show ?thesis
    using load_json_extends [OF j] load_dns_extends [of m1 ph records] by (simp add: m' map_le_trans)
qed

lemma load_new_total: "m \<noteq> [] \<Longrightarrow> load_new_checkpoints ph m file dns records \<noteq> None"
  by (auto simp: load_new_checkpoints_def load_checkpoints_from_json_def get_max_height_None
           split: option.splits prod.splits)

text \<open> C17: loading new checkpoints over a set that holds the compiled-in ones always returns a
  result; whatever the file and the DNS records contain, no checkpoint that was there is
  dropped or changed, the map stays sorted, and when success is reported every line of the file
  above the previous maximum is stored with its parsed hash.\<close>

theorem checkpoints_never_replaced:
  assumes "strictly_sorted fst m" and "m \<noteq> []"
  shows "\<exists>r m'. load_new_checkpoints parse_height m file dns records = Some (r, m')
      \<and> strictly_sorted fst m'
      \<and> (\<forall>k h. map_of m k = Some h \<longrightarrow> map_of m' k = Some h)
      \<and> (r \<longrightarrow> (\<forall>hashlines k s. file = Some hashlines \<longrightarrow> (k, s) \<in> set hashlines \<longrightarrow> fst (last m) < k \<longrightarrow>
              (\<exists>h. parse_tpod_from_hex_string 32 s = Some h \<and> map_of m' k = Some h)))"
proof -
  obtain r m' where l: "load_new_checkpoints parse_height m file dns records = Some (r, m')"
    using load_new_total [OF assms(2), of parse_height "file" dns records] by auto
  have stored: "\<exists>h. parse_tpod_from_hex_string 32 s = Some h \<and> map_of m' k = Some h"
    if "r" "file = Some hashlines" "(k, s) \<in> set hashlines" "fst (last m) < k" for hashlines k s
    using l
  proof (rule load_new_cases)
    fix r1 m1 assume j: "load_checkpoints_from_json m file = Some (r1, m1)"
      and m': "m' = (if dns then snd (load_checkpoints_from_dns parse_height m1 records) else m1)"
      and r: "r = (if dns then r1 \<and> fst (load_checkpoints_from_dns parse_height m1 records) else r1)"
    have add: "add_checkpoints m (filter (\<lambda>(height, _). \<not> height \<le> fst (last m)) hashlines) = (r1, m1)"
      using j by (simp add: load_checkpoints_from_json_def that(2) get_max_height_last assms)
    have "r1" using \<open>r\<close> r by (auto split: if_splits)
    then have "map_of m1 k = parse_tpod_from_hex_string 32 s \<and> parse_tpod_from_hex_string 32 s \<noteq> None"
      using that(3,4) add_checkpoints_stored [of m "filter (\<lambda>(height, _). \<not> height \<le> fst (last m)) hashlines" k s]
      by (simp add: add)
    then show ?thesis
      using load_dns_extends [of m1 parse_height records] by (auto simp: m' map_le_def dom_def)
  qed
  show ?thesis
    using l stored load_new_sorted [OF assms(1) l] load_new_extends [OF l]
    by (auto simp: map_le_def dom_def)
qed

definition example_points :: checkpoints where
  "example_points = [(5, replicate 32 1), (9, replicate 32 2)]"

theorem checkpoints_never_replaced_witness:
  "\<exists>r m'. load_new_checkpoints (\<lambda>_. Some 5) example_points (Some [(12, replicate 64 48)]) True (Some [])
      = Some (r, m') \<and> map_of m' 5 = Some (replicate 32 1)"
proof -
  have "strictly_sorted fst example_points" "example_points \<noteq> []" "map_of example_points 5 = Some (replicate 32 1)"
    by (simp_all add: example_points_def strictly_sorted_Cons)
  then show ?thesis
    using checkpoints_never_replaced [of example_points "\<lambda>_. Some 5" "Some [(12, replicate 64 48)]" True "Some []"]
    by blast
qed

text \<open>The queries: a height is in the checkpoint zone when some checkpoint is at or above
  it, an alternative block is allowed when it is not the genesis block and lies above every
  checkpoint the chain has already passed, the maximum height is the greatest checkpoint, and a
  block is refused exactly when its height has a checkpoint with another hash.\<close>

lemma checkpoint_queries:
  assumes "strictly_sorted fst m"
  shows "(is_in_checkpoint_zone m height \<longleftrightarrow> (\<exists>k \<in> fst ` set m. height \<le> k))
    \<and> (is_alternative_block_allowed m chain_height height \<longleftrightarrow>
           height \<noteq> 0 \<and> (\<forall>k \<in> fst ` set m. k \<le> chain_height \<longrightarrow> k < height))
    \<and> (m \<noteq> [] \<longrightarrow> get_max_height m = Some (Max (fst ` set m)))
    \<and> (fst (check_block m height h) \<longleftrightarrow> (\<forall>h'. (height, h') \<in> set m \<longrightarrow> h' = h))"
proof (intro conjI impI)
  show "is_in_checkpoint_zone m height \<longleftrightarrow> (\<exists>k \<in> fst ` set m. height \<le> k)"
    by (rule zone_iff [OF assms])
  show "is_alternative_block_allowed m chain_height height \<longleftrightarrow>
           height \<noteq> 0 \<and> (\<forall>k \<in> fst ` set m. k \<le> chain_height \<longrightarrow> k < height)"
    by (rule alternative_iff [OF assms])
  show "get_max_height m = Some (Max (fst ` set m))" if "m \<noteq> []"
    using that by (rule get_max_height_Max [OF assms])
  have "(height, h') \<in> set m \<longleftrightarrow> map_of m height = Some h'" for h'
    using strictly_sorted_key_unique [OF assms, of "(height, h')"]
    by (auto dest: map_of_SomeD simp: weak_map_of_SomeI) (metis fst_conv map_of_SomeD prod.inject weak_map_of_SomeI)
  then show "fst (check_block m height h) \<longleftrightarrow> (\<forall>h'. (height, h') \<in> set m \<longrightarrow> h' = h)"
    by (auto simp: check_block_def split: option.splits)
qed

lemma checkpoint_queries_witness:
  "is_alternative_block_allowed example_points 7 6 \<and> \<not> is_alternative_block_allowed example_points 7 5
   \<and> is_in_checkpoint_zone example_points 9 \<and> get_max_height example_points = Some 9"
proof -
  have s: "strictly_sorted fst example_points" by (simp add: example_points_def strictly_sorted_Cons)
  have k: "fst ` set example_points = {5, 9}" by (simp add: example_points_def)
  show ?thesis
    using checkpoint_queries [OF s, of 9 7 "[]"] checkpoint_queries [OF s, of 6 7 "[]"]
      checkpoint_queries [OF s, of 5 7 "[]"]
    by (simp add: k) (simp add: example_points_def)
qed

subsection \<open>The compiled-in checkpoints\<close>

definition hex_chars :: string where
  "hex_chars = ''0123456789abcdef''"

lemma hex_digit_char: "c \<in> set hex_chars \<Longrightarrow> hex_digit (of_char c) \<noteq> None"
proof -
  have "list_all (\<lambda>c. hex_digit (of_char c) \<noteq> None) hex_chars" by code_simp
  then show "c \<in> set hex_chars \<Longrightarrow> hex_digit (of_char c) \<noteq> None" by (simp add: list_all_iff)
qed

lemma parse_hexstr_chars:
  "even (length s) \<Longrightarrow> set s \<subseteq> set hex_chars \<Longrightarrow>
     \<exists>h. parse_hexstr_loop (map of_char s) = Some h \<and> length h = length s div 2"
proof (induction s rule: induct_list012)
  case (3 a b s)
  then obtain x y where "hex_digit (of_char a) = Some x" "hex_digit (of_char b) = Some y"
    using hex_digit_char by fastforce
  with 3 show ?case by (auto simp: hex_byte_def)
qed simp_all

lemma parse_tpod_chars:
  "length s = 64 \<Longrightarrow> set s \<subseteq> set hex_chars \<Longrightarrow> \<exists>h. parse_tpod_from_hex_string 32 (map of_char s) = Some h"
  using parse_hexstr_chars [of s] by (auto simp: parse_tpod_from_hex_string_def parse_hexstr_to_binbuff_def)

lemma add_checkpoint_keys:
  "fst (add_checkpoint m k s) \<Longrightarrow> fst ` set (snd (add_checkpoint m k s)) = insert k (fst ` set m)"
  by (auto simp: add_checkpoint_def map_assign_keys split: option.splits if_splits)

lemma add_checkpoints_fresh:
  "distinct (map fst ps) \<Longrightarrow> fst ` set ps \<inter> fst ` set m = {} \<Longrightarrow>
     \<forall>(k, s) \<in> set ps. parse_tpod_from_hex_string 32 s \<noteq> None \<Longrightarrow>
     fst (add_checkpoints m ps) \<and> fst ` set (snd (add_checkpoints m ps)) = fst ` set m \<union> fst ` set ps"
proof (induction m ps rule: add_checkpoints.induct)
  case (2 m k s ps)
  obtain ok m' where a: "add_checkpoint m k s = (ok, m')" by fastforce
  have "map_of m k = None" using 2(3) by (auto simp: map_of_eq_None_iff)
  then have ok: "ok" using add_checkpoint_fst [of m k s] 2(4) by (auto simp: a)
  have keys: "fst ` set m' = insert k (fst ` set m)" using add_checkpoint_keys [of m k s] by (simp add: a ok)
  show ?case using 2(1) [OF a [symmetric] refl ok] 2(2-4) by (auto simp: a ok keys)
qed simp


lemma default_checkpoints_parse:
  "\<forall>(k, s) \<in> set default_checkpoints. parse_tpod_from_hex_string 32 s \<noteq> None"
proof -
  have p: "parse_tpod_from_hex_string 32 (map of_char s) \<noteq> None"
    if "length s = 64 \<and> set s \<subseteq> set hex_chars" for s
    using parse_tpod_chars [of s] that by auto
  show ?thesis
    unfolding default_checkpoints_def list.set(2) ball_simps(7) prod.case
    by (intro conjI p) (simp_all add: hex_chars_def)
qed

text \<open> The compiled-in checkpoints load without conflict into an empty set, and the
  highest of them is 1480026.\<close>

lemma default_checkpoints_load:
  "fst (init_default_checkpoints []) \<and> strictly_sorted fst (snd (init_default_checkpoints []))
   \<and> get_max_height (snd (init_default_checkpoints [])) = Some 1480026"
proof -
  have sorted: "strictly_sorted fst (snd (init_default_checkpoints []))"
    by (simp add: init_default_checkpoints_def add_checkpoints_sorted)
  have "distinct (map fst default_checkpoints)" by (simp add: default_checkpoints_def)
  then have *: "fst (init_default_checkpoints [])"
      "fst ` set (snd (init_default_checkpoints [])) = fst ` set default_checkpoints"
    using add_checkpoints_fresh [of default_checkpoints "[]"] default_checkpoints_parse
    by (simp_all add: init_default_checkpoints_def)
  then have "snd (init_default_checkpoints []) \<noteq> []" by (auto simp: default_checkpoints_def)
  moreover have "Max (fst ` set default_checkpoints) = (1480026 :: u64)"
    by (simp add: default_checkpoints_def max_def)
  ultimately show ?thesis using * sorted get_max_height_Max [OF sorted] by simp
qed

end
