(* ===== verification/Decimal.thy ===== *)
theory Decimal
  imports Cn_Prelude
begin

text \<open>
  Unsigned decimal numbers as text: \<open>std::to_string\<close>, and the parser
  \<open>string_tools::get_xtype_from_string\<close> for \<open>uint64_t\<close>.
\<close>

fun decimal :: "nat \<Rightarrow> string" where
  "decimal n = (if n < 10 then [char_of (48 + n)] else decimal (n div 10) @ [char_of (48 + n mod 10)])"

declare decimal.simps [simp del]

definition is_digit :: "char \<Rightarrow> bool" where
  "is_digit c \<longleftrightarrow> 48 \<le> (of_char c :: nat) \<and> (of_char c :: nat) \<le> 57"

definition dec_value :: "string \<Rightarrow> nat" where
  "dec_value s = foldl (\<lambda>v c. 10 * v + (of_char c - 48)) 0 s"

text \<open>\<open>lexical_cast\<close> refuses an empty string and a number that does not fit.\<close>

definition get_xtype_from_string :: "string \<Rightarrow> u64 option" where
  "get_xtype_from_string s =
     (if \<not> list_all is_digit s then None
      else if s = [] then None
      else if 2 ^ 64 \<le> dec_value s then None
      else Some (of_nat (dec_value s)))"

lemma digit_char: "n < 10 \<Longrightarrow> of_char (char_of (48 + n :: nat)) = (48 + n :: nat)"
  by (simp add: of_char_of)

lemma is_digit_char: "n < 10 \<Longrightarrow> is_digit (char_of (48 + n :: nat))"
  by (simp add: is_digit_def digit_char)

lemma is_digit_zero: "is_digit CHR ''0''"
  by (simp add: is_digit_def)

lemma decimal_digits: "list_all is_digit (decimal n)"
proof (induction n rule: decimal.induct)
  case (1 n)
  show ?case
  proof (cases "n < 10")
    case True
    then show ?thesis by (subst decimal.simps) (simp add: is_digit_char)
  next
    case False
    then show ?thesis using 1 by (subst decimal.simps) (simp add: is_digit_char)
  qed
qed

lemma dec_value_decimal: "dec_value (decimal n) = n"
proof (induction n rule: decimal.induct)
  case (1 n)
  show ?case
  proof (cases "n < 10")
    case True
    then show ?thesis by (subst decimal.simps) (simp add: dec_value_def digit_char)
  next
    case False
    then have "foldl (\<lambda>v c. 10 * v + (of_char c - 48)) 0 (decimal (n div 10)) = n div 10"
      using 1 by (simp add: dec_value_def)
    with False show ?thesis by (subst decimal.simps) (simp add: dec_value_def digit_char)
  qed
qed

lemma decimal_not_Nil: "decimal n \<noteq> []"
  by (subst decimal.simps) simp

lemma dec_value_zeros: "dec_value (replicate k CHR ''0'' @ s) = dec_value s"
  by (induction k) (simp_all add: dec_value_def)

lemma get_xtype_decimal: "get_xtype_from_string (replicate k CHR ''0'' @ decimal (unat v)) = Some v"
  using decimal_digits [of "unat v"] unat_less_u64 [of v]
  by (simp add: get_xtype_from_string_def dec_value_zeros dec_value_decimal decimal_not_Nil is_digit_zero list_all_append)
     (simp add: list_all_iff is_digit_zero)

end
