(* ===== verification/Block_Queue.thy ===== *)
theory Block_Queue
  imports Ordered_Set Decimal
begin

text \<open>
  The queue of block spans of \<open>cryptonote_protocol/block_queue.cpp\<close>, which the synchronisation
  uses to share the download of the chain between connections. The set of spans, ordered by
  start height, is a list that is strictly sorted by it. A rate is the bit pattern of its
  float; a time is \<open>None\<close> for the date \<open>not_a_date_time\<close>. The mutex makes every operation one step.
\<close>

type_synonym uuid = blob

record block_complete_entry =
  entry_block :: blob
  entry_txs :: "blob list"

record span =
  start_block_height :: u64
  span_hashes :: "blob list"
  span_blocks :: "block_complete_entry list"
  connection_id :: uuid
  nblocks :: u64
  span_rate :: u32
  span_size :: u64
  span_time :: "int option"

type_synonym block_queue = "span list"

definition span_filled :: "u64 \<Rightarrow> block_complete_entry list \<Rightarrow> uuid \<Rightarrow> u32 \<Rightarrow> u64 \<Rightarrow> span" where
  "span_filled height bcel conn rate sz =
     \<lparr> start_block_height = height, span_hashes = [], span_blocks = bcel, connection_id = conn,
       nblocks = of_nat (length bcel), span_rate = rate, span_size = sz, span_time = None \<rparr>"

definition span_scheduled :: "u64 \<Rightarrow> u64 \<Rightarrow> uuid \<Rightarrow> int option \<Rightarrow> span" where
  "span_scheduled height n conn t =
     \<lparr> start_block_height = height, span_hashes = [], span_blocks = [], connection_id = conn,
       nblocks = n, span_rate = 0, span_size = 0, span_time = t \<rparr>"

abbreviation insert_span :: "span \<Rightarrow> block_queue \<Rightarrow> block_queue" where
  "insert_span \<equiv> set_insert start_block_height"

subsection \<open>Operations\<close>

fun remove_span :: "block_queue \<Rightarrow> u64 \<Rightarrow> (blob list) option \<times> block_queue" where
  "remove_span [] height = (None, [])"
| "remove_span (s # q) height =
     (if start_block_height s = height then (Some (span_hashes s), q)
      else let (r, q') = remove_span q height in (r, s # q'))"

text \<open>The first match is erased and inserted again with the new hashes.\<close>

fun find_span :: "block_queue \<Rightarrow> u64 \<Rightarrow> uuid \<Rightarrow> (span \<times> block_queue) option" where
  "find_span [] height conn = None"
| "find_span (s # q) height conn =
     (if start_block_height s = height \<and> connection_id s = conn then Some (s, q)
      else map_option (\<lambda>(x, q'). (x, s # q')) (find_span q height conn))"

definition set_span_hashes :: "block_queue \<Rightarrow> u64 \<Rightarrow> uuid \<Rightarrow> blob list \<Rightarrow> block_queue" where
  "set_span_hashes q start_height conn hashes =
     (case find_span q start_height conn of
        None \<Rightarrow> q
      | Some (s, q') \<Rightarrow> insert_span (s\<lparr>span_hashes := hashes\<rparr>) q')"

definition add_blocks_filled ::
    "block_queue \<Rightarrow> u64 \<Rightarrow> block_complete_entry list \<Rightarrow> uuid \<Rightarrow> u32 \<Rightarrow> u64 \<Rightarrow> block_queue" where
  "add_blocks_filled q height bcel conn rate sz =
     (let (hashes, q) = remove_span q height;
          q = insert_span (span_filled height bcel conn rate sz) q
      in case hashes of
           None \<Rightarrow> q
         | Some hashes \<Rightarrow> set_span_hashes q height conn hashes)"

definition add_blocks_scheduled :: "block_queue \<Rightarrow> u64 \<Rightarrow> u64 \<Rightarrow> uuid \<Rightarrow> int option \<Rightarrow> block_queue" where
  "add_blocks_scheduled q height n conn t = insert_span (span_scheduled height n conn t) q"

fun flush_spans :: "block_queue \<Rightarrow> uuid \<Rightarrow> bool \<Rightarrow> block_queue" where
  "flush_spans [] conn everything = []"
| "flush_spans (s # q) conn everything =
     (if connection_id s = conn \<and> (everything \<or> length (span_blocks s) = 0)
      then flush_spans q conn everything
      else s # flush_spans q conn everything)"

definition is_blockchain_placeholder :: "span \<Rightarrow> bool" where
  "is_blockchain_placeholder s \<longleftrightarrow> connection_id s = replicate 16 0"

definition flush_stale_spans :: "block_queue \<Rightarrow> uuid list \<Rightarrow> block_queue" where
  "flush_stale_spans q live_connections =
     (let stale = (\<lambda>j. connection_id j \<notin> set live_connections \<and> length (span_blocks j) = 0)
      in case q of
           [] \<Rightarrow> []
         | s # q' \<Rightarrow>
             if is_blockchain_placeholder s then s # filter (\<lambda>j. \<not> stale j) q'
             else filter (\<lambda>j. \<not> stale j) q)"

definition remove_spans :: "block_queue \<Rightarrow> uuid \<Rightarrow> u64 \<Rightarrow> block_queue" where
  "remove_spans q conn height =
     filter (\<lambda>j. \<not> (connection_id j = conn \<and> start_block_height j \<le> height)) q"

fun max_block_height_from :: "u64 \<Rightarrow> block_queue \<Rightarrow> u64" where
  "max_block_height_from height [] = height"
| "max_block_height_from height (s # q) =
     (let h = start_block_height s + nblocks s - 1
      in max_block_height_from (if height < h then h else height) q)"

definition get_max_block_height :: "block_queue \<Rightarrow> u64" where
  "get_max_block_height q = max_block_height_from 0 q"

fun requested :: "block_queue \<Rightarrow> blob \<Rightarrow> bool" where
  "requested [] hash = False"
| "requested (s # q) hash = (if hash \<in> set (span_hashes s) then True else requested q hash)"

fun skip_requested :: "block_queue \<Rightarrow> blob list \<Rightarrow> u64 \<Rightarrow> blob list \<times> u64" where
  "skip_requested q [] start = ([], start)"
| "skip_requested q (h # hs) start =
     (if requested q h then skip_requested q hs (start + 1) else (h # hs, start))"

fun collect_hashes :: "blob list \<Rightarrow> u64 \<Rightarrow> u64 \<Rightarrow> blob list \<times> u64" where
  "collect_hashes [] max_blocks len = ([], len)"
| "collect_hashes (h # hs) max_blocks len =
     (if len < max_blocks
      then let (hashes, len') = collect_hashes hs max_blocks (len + 1) in (h # hashes, len')
      else ([], len))"

definition reserve_span ::
    "block_queue \<Rightarrow> u64 \<Rightarrow> u64 \<Rightarrow> u64 \<Rightarrow> uuid \<Rightarrow> blob list \<Rightarrow> int option \<Rightarrow> (u64 \<times> u64) \<times> block_queue" where
  "reserve_span q first_block_height last_block_height max_blocks conn block_hashes t =
     (if last_block_height < first_block_height \<or> max_blocks = 0 then ((0, 0), q)
      else let start = last_block_height - of_nat (length block_hashes) + 1;
               (i, start) = skip_requested q block_hashes start;
               (hashes, len) = collect_hashes i max_blocks 0
           in if len = 0 then ((0, 0), q)
              else let q = add_blocks_scheduled q start len conn t;
                       q = set_span_hashes q start conn hashes
                   in ((start, len), q))"

definition after_placeholder :: "block_queue \<Rightarrow> block_queue" where
  "after_placeholder q = (case q of [] \<Rightarrow> [] | s # q' \<Rightarrow> if is_blockchain_placeholder s then q' else q)"

definition get_start_gap_span :: "block_queue \<Rightarrow> u64 \<times> u64" where
  "get_start_gap_span q =
     (case q of
        [] \<Rightarrow> (0, 0)
      | i # q' \<Rightarrow>
          if \<not> is_blockchain_placeholder i then (0, 0)
          else let current_height = start_block_height i + nblocks i - 1
               in case q' of
                    [] \<Rightarrow> (0, 0)
                  | j # _ \<Rightarrow>
                      let first_span_height = start_block_height j
                      in if first_span_height \<le> current_height + 1 then (0, 0)
                         else (current_height + 1, first_span_height - current_height - 1))"

text \<open>The outputs of a query are \<open>None\<close> where the caller's variables are left alone.\<close>

definition get_next_span_if_scheduled ::
    "block_queue \<Rightarrow> (u64 \<times> u64) \<times> (blob list \<times> uuid \<times> int option) option" where
  "get_next_span_if_scheduled q =
     (case after_placeholder q of
        [] \<Rightarrow> ((0, 0), None)
      | i # _ \<Rightarrow>
          if span_blocks i \<noteq> [] then ((0, 0), None)
          else ((start_block_height i, nblocks i), Some (span_hashes i, connection_id i, span_time i)))"

fun next_span_from :: "block_queue \<Rightarrow> bool \<Rightarrow> (u64 \<times> block_complete_entry list \<times> uuid) option" where
  "next_span_from [] filled = None"
| "next_span_from (i # q) filled =
     (if \<not> filled \<or> span_blocks i \<noteq> []
      then Some (start_block_height i, span_blocks i, connection_id i)
      else next_span_from q filled)"

definition get_next_span :: "block_queue \<Rightarrow> bool \<Rightarrow> (u64 \<times> block_complete_entry list \<times> uuid) option" where
  "get_next_span q filled = next_span_from (after_placeholder q) filled"

text \<open>The result \<open>Some filled\<close> is a return value true.\<close>

definition has_next_span :: "block_queue \<Rightarrow> uuid \<Rightarrow> bool option" where
  "has_next_span q conn =
     (case after_placeholder q of
        [] \<Rightarrow> None
      | i # _ \<Rightarrow> if connection_id i \<noteq> conn then None else Some (span_blocks i \<noteq> []))"

definition get_data_size :: "block_queue \<Rightarrow> u64" where
  "get_data_size q = foldl (\<lambda>sz s. sz + span_size s) 0 q"

fun filled_prefix :: "block_queue \<Rightarrow> nat" where
  "filled_prefix [] = 0"
| "filled_prefix (i # q) = (if span_blocks i \<noteq> [] then Suc (filled_prefix q) else 0)"

definition get_num_filled_spans_prefix :: "block_queue \<Rightarrow> nat" where
  "get_num_filled_spans_prefix q = filled_prefix (after_placeholder q)"

fun get_num_filled_spans :: "block_queue \<Rightarrow> nat" where
  "get_num_filled_spans [] = 0"
| "get_num_filled_spans (s # q) = (if span_blocks s \<noteq> [] then 1 else 0) + get_num_filled_spans q"

text \<open>\<open>hashes.back()\<close> of a span with as many hashes as blocks; \<open>None\<close> for an empty list.\<close>

fun last_known_from :: "blob \<Rightarrow> u64 \<Rightarrow> block_queue \<Rightarrow> uuid \<Rightarrow> blob option" where
  "last_known_from hash highest [] conn = Some hash"
| "last_known_from hash highest (s # q) conn =
     (if connection_id s \<noteq> conn then last_known_from hash highest q conn
      else let h = start_block_height s + nblocks s - 1
           in if highest < h \<and> of_nat (length (span_hashes s)) = nblocks s
              then if span_hashes s = [] then None
                   else last_known_from (last (span_hashes s)) h q conn
              else last_known_from hash highest q conn)"

definition get_last_known_hash :: "block_queue \<Rightarrow> uuid \<Rightarrow> blob option" where
  "get_last_known_hash q conn = last_known_from (replicate 32 0) 0 q conn"

fun has_spans :: "block_queue \<Rightarrow> uuid \<Rightarrow> bool" where
  "has_spans [] conn = False"
| "has_spans (s # q) conn = (if connection_id s = conn then True else has_spans q conn)"

definition get_overview :: "block_queue \<Rightarrow> string" where
  "get_overview q =
     (case q of
        [] \<Rightarrow> ''[]''
      | i # q' \<Rightarrow>
          ''['' @ decimal (unat (start_block_height i + nblocks i - 1)) @ '':''
          @ concat (map (\<lambda>s. if span_blocks s = [] then ''.'' else ''o'') q') @ '']'')"

text \<open>\<open>foreach\<close> with a visitor that changes a state; the boolean is the result.\<close>

fun foreach_from :: "(span \<Rightarrow> 's \<Rightarrow> bool \<times> 's) \<Rightarrow> block_queue \<Rightarrow> 's \<Rightarrow> bool \<times> 's" where
  "foreach_from f [] st = (True, st)"
| "foreach_from f (i # q) st =
     (let (ok, st) = f i st in if ok then foreach_from f q st else (False, st))"

definition foreach :: "(span \<Rightarrow> 's \<Rightarrow> bool \<times> 's) \<Rightarrow> bool \<Rightarrow> block_queue \<Rightarrow> 's \<Rightarrow> bool \<times> 's" where
  "foreach f include_blockchain_placeholder q st =
     foreach_from f (if include_blockchain_placeholder then q else after_placeholder q) st"

subsection \<open>The set of spans\<close>

abbreviation queue_ok :: "block_queue \<Rightarrow> bool" where
  "queue_ok \<equiv> strictly_sorted start_block_height"

interpretation spans: ordered_set start_block_height insert_span queue_ok
  by unfold_locales
     (auto simp: strictly_sorted_insert set_insert_present set_insert_absent)

lemma filter_other_heights:
  "\<forall>y \<in> set q. start_block_height s < start_block_height y \<Longrightarrow>
     filter (\<lambda>y. start_block_height y \<noteq> start_block_height s) q = q"
  by (auto simp: filter_id_conv)

lemma remove_span_eq:
  "queue_ok q \<Longrightarrow> snd (remove_span q height) = filter (\<lambda>s. start_block_height s \<noteq> height) q"
proof (induction q height rule: remove_span.induct)
  case (2 s q height)
  then show ?case
    by (cases "start_block_height s = height")
       (auto simp: strictly_sorted_Cons case_prod_beta Let_def filter_other_heights)
qed simp

lemma remove_span_hashes:
  "queue_ok q \<Longrightarrow> fst (remove_span q height) = Some hs \<longleftrightarrow>
     (\<exists>s \<in> set q. start_block_height s = height \<and> span_hashes s = hs)"
proof (induction q height rule: remove_span.induct)
  case (2 s q height)
  then show ?case
    by (cases "start_block_height s = height") (auto simp: strictly_sorted_Cons case_prod_beta Let_def)
qed simp

lemma find_span_Some:
  "queue_ok q \<Longrightarrow> find_span q height conn = Some (s, q') \<Longrightarrow>
     s \<in> set q \<and> start_block_height s = height \<and> connection_id s = conn
     \<and> q' = filter (\<lambda>s. start_block_height s \<noteq> height) q"
proof (induction q height conn arbitrary: q' rule: find_span.induct)
  case (2 x q height conn)
  show ?case
  proof (cases "start_block_height x = height \<and> connection_id x = conn")
    case True
    with 2 show ?thesis by (auto simp: strictly_sorted_Cons filter_other_heights)
  next
    case False
    with 2(3) obtain q1 where f: "find_span q height conn = Some (s, q1)" and q': "q' = x # q1"
      by (auto simp: map_option_case split: option.splits)
    have "queue_ok q" using 2(2) by (simp add: strictly_sorted_Cons)
    from 2(1) [OF False this f] q' 2(2) show ?thesis by (auto simp: strictly_sorted_Cons)
  qed
qed simp

lemma find_span_None:
  "find_span q height conn = None \<longleftrightarrow>
     (\<forall>s \<in> set q. start_block_height s = height \<longrightarrow> connection_id s \<noteq> conn)"
  by (induction q height conn rule: find_span.induct) (auto split: if_splits)

lemma set_span_hashes_set:
  assumes "queue_ok q" and "s \<in> set q" and "start_block_height s = height" and "connection_id s = conn"
  shows "set (set_span_hashes q height conn hs) =
           insert (s\<lparr>span_hashes := hs\<rparr>) {s \<in> set q. start_block_height s \<noteq> height}"
proof -
  have "find_span q height conn \<noteq> None" using assms by (auto simp: find_span_None)
  then obtain s' q' where f: "find_span q height conn = Some (s', q')" by auto
  from find_span_Some [OF assms(1) f] have "s' = s"
    using assms spans.key_unique [OF assms(1), of s' s] by auto
  moreover have "set (insert_span (s\<lparr>span_hashes := hs\<rparr>) q') = insert (s\<lparr>span_hashes := hs\<rparr>) (set q')"
    using find_span_Some [OF assms(1) f] assms(3) by (intro set_insert_absent) auto
  ultimately show ?thesis using find_span_Some [OF assms(1) f] f by (simp add: set_span_hashes_def)
qed

lemma set_span_hashes_none:
  "\<forall>s \<in> set q. start_block_height s = height \<longrightarrow> connection_id s \<noteq> conn \<Longrightarrow> set_span_hashes q height conn hs = q"
  by (simp add: set_span_hashes_def find_span_None [THEN iffD2])

lemma set_span_hashes_ok: "queue_ok q \<Longrightarrow> queue_ok (set_span_hashes q height conn hs)"
  using find_span_Some [of q height conn]
  by (auto simp: set_span_hashes_def split: option.splits intro!: spans.ok_ins)

lemma set_span_hashes_keys:
  "queue_ok q \<Longrightarrow> start_block_height ` set (set_span_hashes q height conn hs) = start_block_height ` set q"
proof (cases "find_span q height conn")
  case (Some p)
  assume ok: "queue_ok q"
  obtain s q' where p: "p = (s, q')" by (cases p)
  from find_span_Some [OF ok Some [unfolded p]]
  show ?thesis using set_span_hashes_set [OF ok, of s height conn hs] by auto
qed (simp add: set_span_hashes_def)

lemma flush_spans_eq:
  "flush_spans q conn everything = filter (\<lambda>s. \<not> (connection_id s = conn \<and> (everything \<or> span_blocks s = []))) q"
  by (induction q conn everything rule: flush_spans.induct) auto

lemma flush_stale_spans_ok: "queue_ok q \<Longrightarrow> queue_ok (flush_stale_spans q live)"
  by (auto simp: flush_stale_spans_def Let_def strictly_sorted_Cons split: list.splits)

lemma remove_span_ok: "queue_ok q \<Longrightarrow> queue_ok (snd (remove_span q height))"
  by (simp add: remove_span_eq strictly_sorted_filter)

lemma add_blocks_filled_set:
  assumes "queue_ok q"
  shows "set (add_blocks_filled q height bcel conn rate sz) =
           insert ((span_filled height bcel conn rate sz)
                     \<lparr>span_hashes := (case fst (remove_span q height) of None \<Rightarrow> [] | Some hs \<Rightarrow> hs)\<rparr>)
                  {s \<in> set q. start_block_height s \<noteq> height}"
    and "queue_ok (add_blocks_filled q height bcel conn rate sz)"
proof -
  let ?s = "span_filled height bcel conn rate sz"
  let ?q = "filter (\<lambda>s. start_block_height s \<noteq> height) q"
  have [simp]: "start_block_height ?s = height" "connection_id ?s = conn" "span_hashes ?s = []"
    by (simp_all add: span_filled_def)
  have ok: "queue_ok (insert_span ?s ?q)" using assms by (simp add: spans.ok_ins strictly_sorted_filter)
  have ins: "set (insert_span ?s ?q) = insert ?s (set ?q)" by (rule set_insert_absent) auto
  have eq: "add_blocks_filled q height bcel conn rate sz =
      (case fst (remove_span q height) of None \<Rightarrow> insert_span ?s ?q
       | Some hs \<Rightarrow> set_span_hashes (insert_span ?s ?q) height conn hs)"
    using remove_span_eq [OF assms, of height] by (simp add: add_blocks_filled_def case_prod_beta Let_def)
  show "queue_ok (add_blocks_filled q height bcel conn rate sz)"
    using ok by (auto simp: eq set_span_hashes_ok split: option.splits)
  have upd: "?s\<lparr>span_hashes := []\<rparr> = ?s" by (simp add: span_filled_def)
  show "set (add_blocks_filled q height bcel conn rate sz) =
           insert (?s\<lparr>span_hashes := (case fst (remove_span q height) of None \<Rightarrow> [] | Some hs \<Rightarrow> hs)\<rparr>)
                  {s \<in> set q. start_block_height s \<noteq> height}"
    using set_span_hashes_set [OF ok, of ?s height conn]
    by (auto simp: eq ins upd split: option.splits)
qed

subsection \<open>Reservation\<close>

lemma requested_iff: "requested q h \<longleftrightarrow> (\<exists>s \<in> set q. h \<in> set (span_hashes s))"
  by (induction q) auto

lemma skip_requested_eq:
  "skip_requested q hs start =
     (dropWhile (requested q) hs, start + of_nat (length (takeWhile (requested q) hs)))"
  by (induction q hs start rule: skip_requested.induct) (auto simp: algebra_simps)

lemma collect_hashes_eq:
  "unat len + length hs < 2 ^ 64 \<Longrightarrow> len \<le> max_blocks \<Longrightarrow>
     collect_hashes hs max_blocks len =
       (take (unat max_blocks - unat len) hs, len + of_nat (min (unat max_blocks - unat len) (length hs)))"
proof (induction hs max_blocks len rule: collect_hashes.induct)
  case (2 h hs max_blocks len)
  show ?case
  proof (cases "len < max_blocks")
    case True
    have u: "unat (len + 1) = unat len + 1"
      using 2(2) True unat_add_noov [of len 1] by simp
    have "len + 1 \<le> max_blocks" using True u by (simp add: word_le_nat_alt word_less_nat_alt)
    with 2(1) [OF True] 2(2) u
    have ih: "collect_hashes hs max_blocks (len + 1) =
       (take (unat max_blocks - (unat len + 1)) hs, len + 1 + of_nat (min (unat max_blocks - (unat len + 1)) (length hs)))"
      by simp
    have d: "unat max_blocks - unat len = Suc (unat max_blocks - (unat len + 1))"
      using True by (simp add: word_less_nat_alt)
    show ?thesis using True ih by (simp add: d)
  next
    case False
    then have "unat max_blocks - unat len = 0" using 2(3) by (simp add: word_less_nat_alt)
    with False show ?thesis by simp
  qed
qed simp

lemma reserve_span_cases:
  fixes q :: block_queue and last_height :: u64
  assumes "length hs < 2 ^ 64"
  defines "fresh \<equiv> dropWhile (requested q) hs"
  defines "start \<equiv> last_height - of_nat (length hs) + 1 + of_nat (length (takeWhile (requested q) hs))"
  shows "reserve_span q first_height last_height max_blocks conn hs t =
     (if last_height < first_height \<or> max_blocks = 0 \<or> fresh = [] then ((0, 0), q)
      else let len = of_nat (min (unat max_blocks) (length fresh))
           in ((start, len),
               set_span_hashes (add_blocks_scheduled q start len conn t) start conn (take (unat max_blocks) fresh)))"
proof (cases "last_height < first_height \<or> max_blocks = 0")
  case False
  have l: "length fresh < 2 ^ 64"
    using assms(1) length_dropWhile_le [of "requested q" hs] by (simp add: fresh_def)
  have c: "collect_hashes fresh max_blocks 0 =
      (take (unat max_blocks) fresh, of_nat (min (unat max_blocks) (length fresh)))"
    using collect_hashes_eq [of 0 fresh max_blocks] l by simp
  have "unat max_blocks \<noteq> 0" using False by (simp add: unat_eq_zero)
  then have z: "(of_nat (min (unat max_blocks) (length fresh)) :: u64) = 0 \<longleftrightarrow> fresh = []"
    using l unat_of_nat_u64 [of "min (unat max_blocks) (length fresh)"]
    by (auto simp: min_def unat_eq_zero [symmetric] split: if_splits)
  show ?thesis using False z
    by (simp add: reserve_span_def skip_requested_eq c fresh_def [symmetric] start_def [symmetric] Let_def)
next
  case True
  then show ?thesis by (auto simp: reserve_span_def)
qed

lemma reserve_span_ok:
  "queue_ok q \<Longrightarrow> queue_ok (snd (reserve_span q a b mx conn hs t))"
  by (auto simp: reserve_span_def add_blocks_scheduled_def Let_def spans.ok_ins set_span_hashes_ok split: prod.splits)

subsection \<open>Every reachable queue is well formed\<close>

inductive queue_reachable :: "block_queue \<Rightarrow> bool" where
  reach_empty: "queue_reachable []"
| reach_filled: "queue_reachable q \<Longrightarrow> queue_reachable (add_blocks_filled q height bcel conn rate sz)"
| reach_scheduled: "queue_reachable q \<Longrightarrow> queue_reachable (add_blocks_scheduled q height n conn t)"
| reach_flush: "queue_reachable q \<Longrightarrow> queue_reachable (flush_spans q conn everything)"
| reach_stale: "queue_reachable q \<Longrightarrow> queue_reachable (flush_stale_spans q live)"
| reach_remove: "queue_reachable q \<Longrightarrow> queue_reachable (snd (remove_span q height))"
| reach_remove_all: "queue_reachable q \<Longrightarrow> queue_reachable (remove_spans q conn height)"
| reach_reserve: "queue_reachable q \<Longrightarrow> queue_reachable (snd (reserve_span q a b mx conn hs t))"
| reach_hashes: "queue_reachable q \<Longrightarrow> queue_reachable (set_span_hashes q height conn hs)"

definition span_ok :: "span \<Rightarrow> bool" where
  "span_ok s \<longleftrightarrow> span_blocks s = [] \<or> nblocks s = of_nat (length (span_blocks s))"

definition queue_inv :: "block_queue \<Rightarrow> bool" where
  "queue_inv q \<longleftrightarrow> queue_ok q \<and> (\<forall>s \<in> set q. span_ok s)"

lemma queue_inv_filter: "queue_inv q \<Longrightarrow> queue_inv (filter P q)"
  by (auto simp: queue_inv_def)

lemma queue_inv_insert: "queue_inv q \<Longrightarrow> span_ok s \<Longrightarrow> queue_inv (insert_span s q)"
  using set_insert_in [of start_block_height s q] by (auto simp: queue_inv_def spans.ok_ins)

lemma queue_inv_set_span_hashes: "queue_inv q \<Longrightarrow> queue_inv (set_span_hashes q height conn hs)"
  unfolding set_span_hashes_def
proof (cases "find_span q height conn")
  case (Some p)
  assume inv: "queue_inv q"
  obtain s q' where p: "p = (s, q')" by (cases p)
  from find_span_Some [OF _ Some [unfolded p]] inv have "s \<in> set q" "queue_inv q'"
    using queue_inv_filter [OF inv] by (auto simp: queue_inv_def)
  moreover from this inv have "span_ok (s\<lparr>span_hashes := hs\<rparr>)" by (auto simp: queue_inv_def span_ok_def)
  ultimately show "queue_inv (case find_span q height conn of None \<Rightarrow> q
       | Some (s, q') \<Rightarrow> insert_span (s\<lparr>span_hashes := hs\<rparr>) q')"
    by (simp add: Some p queue_inv_insert)
qed simp

lemma queue_inv_filled: "queue_inv q \<Longrightarrow> queue_inv (add_blocks_filled q height bcel conn rate sz)"
  using add_blocks_filled_set [of q height bcel conn rate sz]
  by (auto simp: queue_inv_def span_ok_def span_filled_def)

lemma queue_inv_scheduled: "queue_inv q \<Longrightarrow> queue_inv (add_blocks_scheduled q height n conn t)"
  by (simp add: add_blocks_scheduled_def queue_inv_insert span_ok_def span_scheduled_def)

lemma queue_inv_stale: "queue_inv q \<Longrightarrow> queue_inv (flush_stale_spans q live)"
  using flush_stale_spans_ok [of q live]
  by (auto simp: queue_inv_def flush_stale_spans_def Let_def split: list.splits if_splits)

lemma queue_inv_reserve: "queue_inv q \<Longrightarrow> queue_inv (snd (reserve_span q a b mx conn hs t))"
  by (auto simp: reserve_span_def Let_def queue_inv_scheduled queue_inv_set_span_hashes split: prod.splits)

lemma queue_inv_reachable: "queue_reachable q \<Longrightarrow> queue_inv q"
proof (induction rule: queue_reachable.induct)
  case (reach_remove q height)
  then show ?case using queue_inv_filter [OF reach_remove.IH] by (simp add: queue_inv_def remove_span_eq)
qed (auto simp: queue_inv_filled queue_inv_scheduled queue_inv_stale queue_inv_reserve queue_inv_set_span_hashes
       flush_spans_eq remove_spans_def queue_inv_filter, simp add: queue_inv_def)

lemma next_span_from_None: "next_span_from q filled = None \<longleftrightarrow> (\<forall>s \<in> set q. filled \<and> span_blocks s = [])"
  by (induction q) auto

lemma next_span_from_Some:
  "queue_ok q \<Longrightarrow> next_span_from q filled = Some (h, b, c) \<Longrightarrow>
     \<exists>s \<in> set q. (filled \<longrightarrow> span_blocks s \<noteq> []) \<and> start_block_height s = h \<and> span_blocks s = b \<and> connection_id s = c
       \<and> (\<forall>s' \<in> set q. (filled \<longrightarrow> span_blocks s' \<noteq> []) \<longrightarrow> h \<le> start_block_height s')"
proof (induction q)
  case (Cons s q)
  then show ?case
    by (cases "\<not> filled \<or> span_blocks s \<noteq> []") (auto simp: strictly_sorted_Cons less_imp_le)
qed simp

lemma after_placeholder_ok: "queue_ok q \<Longrightarrow> queue_ok (after_placeholder q)"
  by (auto simp: after_placeholder_def strictly_sorted_Cons split: list.splits)

subsection \<open>Properties\<close>

text \<open>
  What the queue stands for: a map from start heights to spans. Every operation is an operation on
  this map, whatever the representation.
\<close>

definition spans_at :: "block_queue \<Rightarrow> u64 \<rightharpoonup> span" where
  "spans_at q = map_of (map (\<lambda>s. (start_block_height s, s)) q)"

definition keep_spans :: "(span \<Rightarrow> bool) \<Rightarrow> (u64 \<rightharpoonup> span) \<Rightarrow> (u64 \<rightharpoonup> span)" where
  "keep_spans P m = (\<lambda>h. case m h of None \<Rightarrow> None | Some s \<Rightarrow> if P s then Some s else None)"

text \<open>The placeholder of the local chain, when it is the span with the lowest start.\<close>

definition lowest_placeholder :: "(u64 \<rightharpoonup> span) \<Rightarrow> span \<Rightarrow> bool" where
  "lowest_placeholder m s \<longleftrightarrow> is_blockchain_placeholder s \<and> (\<forall>h \<in> dom m. start_block_height s \<le> h)"

lemma spans_at_iff: "queue_ok q \<Longrightarrow> spans_at q h = Some s \<longleftrightarrow> s \<in> set q \<and> start_block_height s = h"
proof (induction q)
  case (Cons x q)
  then show ?case by (auto simp: spans_at_def strictly_sorted_Cons)
qed (simp add: spans_at_def)

lemma spans_at_dom: "dom (spans_at q) = start_block_height ` set q"
  by (simp add: spans_at_def dom_map_of_conv_image_fst image_image)

lemma keep_spans_Some [simp]: "keep_spans P m h = Some s \<longleftrightarrow> m h = Some s \<and> P s"
  by (auto simp: keep_spans_def split: option.splits)

lemma spans_at_eqI:
  assumes "queue_ok q" "\<And>h s. m h = Some s \<longleftrightarrow> s \<in> set q \<and> start_block_height s = h"
  shows "spans_at q = m"
proof
  fix h
  have "spans_at q h = Some s \<longleftrightarrow> m h = Some s" for s by (simp add: assms(2) spans_at_iff [OF assms(1)])
  then show "spans_at q h = m h" by (metis not_None_eq)
qed

lemma spans_at_filter: "queue_ok q \<Longrightarrow> spans_at (filter P q) = keep_spans P (spans_at q)"
  by (rule spans_at_eqI) (auto simp: spans_at_iff)

lemma spans_at_scheduled:
  assumes "queue_ok q"
  shows "spans_at (add_blocks_scheduled q height n conn t) =
    (if height \<in> dom (spans_at q) then spans_at q else (spans_at q)(height \<mapsto> span_scheduled height n conn t))"
proof (cases "height \<in> dom (spans_at q)")
  case True
  then have "start_block_height (span_scheduled height n conn t) \<in> start_block_height ` set q"
    by (simp add: spans_at_dom span_scheduled_def)
  with True show ?thesis by (simp add: add_blocks_scheduled_def set_insert_present [OF assms])
next
  case False
  let ?s = "span_scheduled height n conn t"
  have k: "start_block_height ?s = height" by (simp add: span_scheduled_def)
  have i: "set (insert_span ?s q) = insert ?s (set q)" using False by (intro set_insert_absent) (simp add: spans_at_dom k)
  have "spans_at (insert_span ?s q) = (spans_at q)(height \<mapsto> ?s)"
    using False spans.ok_ins [OF assms, of ?s] by (intro spans_at_eqI) (auto simp: i k spans_at_iff [OF assms] spans_at_dom)
  with False show ?thesis by (simp add: add_blocks_scheduled_def)
qed

lemma spans_at_hashes:
  assumes "queue_ok q"
  shows "spans_at (set_span_hashes q height conn hs) =
    (case spans_at q height of
       None \<Rightarrow> spans_at q
     | Some s \<Rightarrow> if connection_id s = conn then (spans_at q)(height \<mapsto> s\<lparr>span_hashes := hs\<rparr>) else spans_at q)"
proof (cases "\<exists>s \<in> set q. start_block_height s = height \<and> connection_id s = conn")
  case True
  then obtain s where s: "s \<in> set q" "start_block_height s = height" "connection_id s = conn" by blast
  then have at: "spans_at q height = Some s" by (simp add: spans_at_iff [OF assms])
  have "spans_at (set_span_hashes q height conn hs) = (spans_at q)(height \<mapsto> s\<lparr>span_hashes := hs\<rparr>)"
    using s by (intro spans_at_eqI [OF set_span_hashes_ok [OF assms]])
      (auto simp: set_span_hashes_set [OF assms s] spans_at_iff [OF assms] split: if_splits)
  then show ?thesis by (simp add: at s(3))
next
  case False
  then show ?thesis by (auto simp: set_span_hashes_none spans_at_iff [OF assms] split: option.splits)
qed

lemma remove_span_fst:
  assumes "queue_ok q"
  shows "fst (remove_span q height) = map_option span_hashes (spans_at q height)"
proof (cases "spans_at q height")
  case (Some s)
  then have "fst (remove_span q height) = Some (span_hashes s)" using remove_span_hashes [OF assms, of height] by (auto simp: spans_at_iff [OF assms])
  then show ?thesis by (simp add: Some)
next
  case None
  then have "fst (remove_span q height) \<noteq> Some hs" for hs
    using remove_span_hashes [OF assms, of height hs] spans_at_iff [OF assms, of height] by auto
  then show ?thesis using None by (cases "fst (remove_span q height)") auto
qed

lemma remove_span_snd: "queue_ok q \<Longrightarrow> spans_at (snd (remove_span q height)) = (spans_at q)(height := None)"
  by (intro spans_at_eqI [OF remove_span_ok]) (auto simp: remove_span_eq spans_at_iff)

lemma spans_at_filled:
  assumes "queue_ok q"
  shows "spans_at (add_blocks_filled q height bcel conn rate sz) = (spans_at q)(height \<mapsto>
    (span_filled height bcel conn rate sz)\<lparr>span_hashes := (case spans_at q height of None \<Rightarrow> [] | Some s \<Rightarrow> span_hashes s)\<rparr>)"
proof -
  have "(case fst (remove_span q height) of None \<Rightarrow> [] | Some hs \<Rightarrow> hs) = (case spans_at q height of None \<Rightarrow> [] | Some s \<Rightarrow> span_hashes s)"
    by (simp add: remove_span_fst [OF assms] split: option.split)
  note f = add_blocks_filled_set [OF assms, of height bcel conn rate sz, unfolded this]
  show ?thesis by (intro spans_at_eqI [OF f(2)]) (auto simp: f(1) span_filled_def spans_at_iff [OF assms] split: if_splits)
qed

lemma spans_at_stale:
  assumes "queue_ok q"
  shows "spans_at (flush_stale_spans q live) =
    keep_spans (\<lambda>s. connection_id s \<in> set live \<or> span_blocks s \<noteq> [] \<or> lowest_placeholder (spans_at q) s) (spans_at q)"
proof (cases q)
  case Nil
  then show ?thesis by (simp add: flush_stale_spans_def spans_at_def keep_spans_def)
next
  case (Cons x q')
  let ?P = "\<lambda>s. connection_id s \<in> set live \<or> span_blocks s \<noteq> []"
  have "lowest_placeholder (spans_at q) x \<longleftrightarrow> is_blockchain_placeholder x" "\<And>s. s \<in> set q' \<Longrightarrow> \<not> lowest_placeholder (spans_at q) s"
    using assms by (auto simp: lowest_placeholder_def spans_at_dom Cons strictly_sorted_Cons less_imp_le)
  then have "filter (\<lambda>s. ?P s \<or> lowest_placeholder (spans_at q) s) q = (if is_blockchain_placeholder x then x # filter ?P q' else filter ?P q)"
    by (auto simp: Cons intro: filter_cong)
  then have "flush_stale_spans q live = filter (\<lambda>s. ?P s \<or> lowest_placeholder (spans_at q) s) q"
    by (simp add: flush_stale_spans_def Cons Let_def)
  then show ?thesis by (simp add: spans_at_filter [OF assms])
qed

text \<open> C18: the queue implements a map from start heights to spans. In every queue that the operations
  reach, the list holds the spans of the map in the order of their heights, and each operation has its
  effect on the map: scheduling keeps a span that is already at the height; adding blocks replaces it
  and keeps its hashes; setting hashes changes the span only for the connection that owns it; a removal
  by height returns its hashes; a flush drops the spans of a connection, the filled ones only when
  everything is flushed; a removal by connection drops its spans up to the height; and a stale flush
  drops the unfilled spans of connections that are gone, but not the placeholder of the local chain.\<close>

theorem queue_refines_map:
  assumes "queue_reachable q"
  shows "strictly_sorted start_block_height q \<and> set q = ran (spans_at q)
    \<and> spans_at (add_blocks_scheduled q height n conn t) =
        (if height \<in> dom (spans_at q) then spans_at q else (spans_at q)(height \<mapsto> span_scheduled height n conn t))
    \<and> spans_at (add_blocks_filled q height bcel conn rate sz) = (spans_at q)(height \<mapsto>
        (span_filled height bcel conn rate sz)\<lparr>span_hashes := (case spans_at q height of None \<Rightarrow> [] | Some s \<Rightarrow> span_hashes s)\<rparr>)
    \<and> spans_at (set_span_hashes q height conn hs) =
        (case spans_at q height of
           None \<Rightarrow> spans_at q
         | Some s \<Rightarrow> if connection_id s = conn then (spans_at q)(height \<mapsto> s\<lparr>span_hashes := hs\<rparr>) else spans_at q)
    \<and> fst (remove_span q height) = map_option span_hashes (spans_at q height)
    \<and> spans_at (snd (remove_span q height)) = (spans_at q)(height := None)
    \<and> spans_at (flush_spans q conn everything) =
        keep_spans (\<lambda>s. connection_id s \<noteq> conn \<or> \<not> everything \<and> span_blocks s \<noteq> []) (spans_at q)
    \<and> spans_at (remove_spans q conn height) =
        keep_spans (\<lambda>s. connection_id s \<noteq> conn \<or> height < start_block_height s) (spans_at q)
    \<and> spans_at (flush_stale_spans q live) =
        keep_spans (\<lambda>s. connection_id s \<in> set live \<or> span_blocks s \<noteq> [] \<or> lowest_placeholder (spans_at q) s) (spans_at q)"
proof -
  have ok: "queue_ok q" using queue_inv_reachable [OF assms] by (simp add: queue_inv_def)
  have r: "set q = ran (spans_at q)" by (auto simp: ran_def spans_at_iff [OF ok])
  have f: "spans_at (flush_spans q conn everything) =
      keep_spans (\<lambda>s. connection_id s \<noteq> conn \<or> \<not> everything \<and> span_blocks s \<noteq> []) (spans_at q)"
    unfolding flush_spans_eq spans_at_filter [OF ok] by (rule arg_cong [of _ _ "\<lambda>P. keep_spans P (spans_at q)"]) auto
  have s: "spans_at (remove_spans q conn height) =
      keep_spans (\<lambda>s. connection_id s \<noteq> conn \<or> height < start_block_height s) (spans_at q)"
    unfolding remove_spans_def spans_at_filter [OF ok] by (rule arg_cong [of _ _ "\<lambda>P. keep_spans P (spans_at q)"]) auto
  show ?thesis
    by (intro conjI ok r f s spans_at_scheduled [OF ok] spans_at_filled [OF ok] spans_at_hashes [OF ok] remove_span_fst [OF ok]
        remove_span_snd [OF ok] spans_at_stale [OF ok])
qed

definition example_queue :: block_queue where
  "example_queue = add_blocks_scheduled (add_blocks_scheduled [] 7 2 [1] None) 5 2 [2] None"

lemma example_queue_eq: "example_queue = [span_scheduled 5 2 [2] None, span_scheduled 7 2 [1] None]"
  by (simp add: example_queue_def add_blocks_scheduled_def span_scheduled_def)

lemma example_queue_reachable: "queue_reachable example_queue"
  unfolding example_queue_def by (intro reach_scheduled reach_empty)

theorem queue_refines_map_witness:
  "queue_reachable example_queue \<and> set (flush_spans example_queue [2] False) = {span_scheduled 7 2 [1] None}
     \<and> spans_at (flush_spans example_queue [2] False) 5 = None"
proof -
  have "spans_at (flush_spans example_queue [2] False) =
      keep_spans (\<lambda>s. connection_id s \<noteq> [2] \<or> \<not> False \<and> span_blocks s \<noteq> []) (spans_at example_queue)"
    using queue_refines_map [OF example_queue_reachable] by blast
  then show ?thesis
    using example_queue_reachable by (simp add: example_queue_eq keep_spans_def spans_at_def span_scheduled_def)
qed

text \<open> C19: a reservation skips the hashes that are already requested, takes at most the
  allowed number of the following ones, and, unless a span already starts at the height it
  computes, adds exactly one span with these hashes, after which all of them are requested; it
  reserves nothing exactly when the range is empty or every hash is already requested.\<close>

theorem reserve_span_correct:
  assumes "queue_ok q" and "length hs < 2 ^ 64"
    and "reserve_span q first_height last_height max_blocks conn hs t = ((start, len), q')"
  defines "fresh \<equiv> take (unat max_blocks) (dropWhile (requested q) hs)"
  shows "(len = 0 \<longleftrightarrow> last_height < first_height \<or> max_blocks = 0 \<or> (\<forall>h \<in> set hs. requested q h))
    \<and> (len = 0 \<longrightarrow> q' = q)
    \<and> (len \<noteq> 0 \<longrightarrow> unat len = length fresh
         \<and> start = last_height - of_nat (length hs) + 1 + of_nat (length (takeWhile (requested q) hs))
         \<and> (start \<notin> start_block_height ` set q \<longrightarrow>
              set q' = insert ((span_scheduled start len conn t)\<lparr>span_hashes := fresh\<rparr>) (set q)
              \<and> (\<forall>h \<in> set fresh. requested q' h)))"
proof -
  let ?d = "dropWhile (requested q) hs"
  have all: "?d = [] \<longleftrightarrow> (\<forall>h \<in> set hs. requested q h)" by (simp add: dropWhile_eq_Nil_conv)
  show ?thesis
  proof (cases "last_height < first_height \<or> max_blocks = 0 \<or> ?d = []")
    case True
    with assms(2,3) show ?thesis by (auto simp: reserve_span_cases all)
  next
    case False
    let ?s = "span_scheduled start len conn t"
    from assms(3) [unfolded reserve_span_cases [OF assms(2)] if_not_P [OF False] Let_def] have len: "len = of_nat (min (unat max_blocks) (length ?d))"
      and start: "start = last_height - of_nat (length hs) + 1 + of_nat (length (takeWhile (requested q) hs))"
      and q': "q' = set_span_hashes (add_blocks_scheduled q start len conn t) start conn fresh"
      by (auto simp: fresh_def)
    have "length ?d < 2 ^ 64" using assms(2) length_dropWhile_le [of "requested q" hs] by simp
    then have ul: "unat len = length fresh"
      using unat_of_nat_u64 [of "min (unat max_blocks) (length ?d)"] by (simp add: len fresh_def min.commute)
    have "unat max_blocks \<noteq> 0" using False by (simp add: unat_eq_zero)
    then have "length fresh \<noteq> 0" using False by (simp add: fresh_def)
    then have "len \<noteq> 0" using ul by auto
    moreover have "set q' = insert (?s\<lparr>span_hashes := fresh\<rparr>) (set q)" if "start \<notin> start_block_height ` set q"
    proof -
      have k: "start_block_height ?s = start" "connection_id ?s = conn" by (simp_all add: span_scheduled_def)
      have i: "set (insert_span ?s q) = insert ?s (set q)" using that by (intro set_insert_absent) (simp add: k)
      show ?thesis
        using set_span_hashes_set [OF spans.ok_ins [OF assms(1), of ?s], of ?s start conn fresh] that
        by (auto simp: q' add_blocks_scheduled_def i k)
    qed
    ultimately show ?thesis using False ul start all by (auto simp: requested_iff)
  qed
qed

theorem reserve_span_correct_witness:
  "unat (snd (fst (reserve_span [] 5 6 10 [1] [[0], [1]] None))) = 2"
proof -
  obtain start len q' where r: "reserve_span [] 5 6 10 [1] [[0], [1]] None = ((start, len), q')" by (metis prod.exhaust)
  have "\<not> (6 :: u64) < 5" "(10 :: u64) \<noteq> 0" by simp_all
  moreover have "length (take (unat (10 :: u64)) (dropWhile (requested []) [[0], [1]])) = 2" by simp
  ultimately show ?thesis using reserve_span_correct [OF _ _ r] by (auto simp: r)
qed

text \<open> C20: the span handed to the verification is the filled span with the lowest start
  height behind the placeholder of the local chain, and there is none exactly when no span there
  is filled; after blocks have been added at a height the queue holds exactly them at that height,
  with the hashes that were reserved there, and every other span unchanged.\<close>

theorem filled_span_delivered:
  fixes q :: block_queue and height :: u64 and conn :: uuid and rate :: u32 and sz :: u64
  assumes "queue_ok q" and "bcel \<noteq> []"
  defines "q' \<equiv> add_blocks_filled q height bcel conn rate sz"
  shows "(\<exists>s \<in> set q'. start_block_height s = height \<and> span_blocks s = bcel \<and> connection_id s = conn
            \<and> (\<forall>s0 \<in> set q. start_block_height s0 = height \<longrightarrow> span_hashes s = span_hashes s0))
    \<and> (\<forall>s. start_block_height s \<noteq> height \<longrightarrow> (s \<in> set q' \<longleftrightarrow> s \<in> set q))
    \<and> (get_next_span q' True = None \<longleftrightarrow> (\<forall>s \<in> set (after_placeholder q'). span_blocks s = []))
    \<and> (\<forall>h b c. get_next_span q' True = Some (h, b, c) \<longrightarrow>
         b \<noteq> [] \<and> (\<forall>s \<in> set (after_placeholder q'). span_blocks s \<noteq> [] \<longrightarrow> h \<le> start_block_height s)
         \<and> (\<exists>s \<in> set q'. start_block_height s = h \<and> span_blocks s = b \<and> connection_id s = c))"
proof (intro conjI allI impI)
  let ?hs = "case fst (remove_span q height) of None \<Rightarrow> [] | Some hs \<Rightarrow> hs"
  let ?s = "(span_filled height bcel conn rate sz)\<lparr>span_hashes := ?hs\<rparr>"
  note set' = add_blocks_filled_set(1) [OF assms(1), of height bcel conn rate sz, folded q'_def]
  have ok: "queue_ok (after_placeholder q')"
    using add_blocks_filled_set(2) [OF assms(1), of height bcel conn rate sz]
    by (simp add: q'_def after_placeholder_ok)
  have "\<forall>s0 \<in> set q. start_block_height s0 = height \<longrightarrow> ?hs = span_hashes s0"
  proof (intro ballI impI)
    fix s0 assume "s0 \<in> set q" "start_block_height s0 = height"
    then have "fst (remove_span q height) = Some (span_hashes s0)"
      using remove_span_hashes [OF assms(1), of height "span_hashes s0"] by blast
    then show "?hs = span_hashes s0" by simp
  qed
  then show "\<exists>s \<in> set q'. start_block_height s = height \<and> span_blocks s = bcel \<and> connection_id s = conn
            \<and> (\<forall>s0 \<in> set q. start_block_height s0 = height \<longrightarrow> span_hashes s = span_hashes s0)"
    by (intro bexI [of _ ?s]) (auto simp: set' span_filled_def)
  show "s \<in> set q' \<longleftrightarrow> s \<in> set q" if "start_block_height s \<noteq> height" for s
    using that by (auto simp: set' span_filled_def)
  show "get_next_span q' True = None \<longleftrightarrow> (\<forall>s \<in> set (after_placeholder q'). span_blocks s = [])"
    by (simp add: get_next_span_def next_span_from_None)
  fix h b c assume "get_next_span q' True = Some (h, b, c)"
  from next_span_from_Some [OF ok, of True h b c] this
  obtain s where s: "s \<in> set (after_placeholder q')" "span_blocks s \<noteq> []" "start_block_height s = h" "span_blocks s = b"
      "connection_id s = c" "\<forall>s' \<in> set (after_placeholder q'). span_blocks s' \<noteq> [] \<longrightarrow> h \<le> start_block_height s'"
    by (auto simp: get_next_span_def)
  have "set (after_placeholder q') \<subseteq> set q'" by (auto simp: after_placeholder_def split: list.splits if_splits)
  with s show "b \<noteq> []" "\<forall>s \<in> set (after_placeholder q'). span_blocks s \<noteq> [] \<longrightarrow> h \<le> start_block_height s"
      "\<exists>s \<in> set q'. start_block_height s = h \<and> span_blocks s = b \<and> connection_id s = c"
    by auto
qed

theorem filled_span_delivered_witness:
  "\<exists>s \<in> set (add_blocks_filled example_queue 7 [\<lparr>entry_block = [9], entry_txs = []\<rparr>] [1] 0 1).
     start_block_height s = 7 \<and> span_blocks s = [\<lparr>entry_block = [9], entry_txs = []\<rparr>]"
proof -
  have "queue_ok example_queue" by (simp add: example_queue_eq strictly_sorted_Cons span_scheduled_def)
  from filled_span_delivered [OF this, of "[\<lparr>entry_block = [9], entry_txs = []\<rparr>]" 7 "[1]" 0 1]
  show ?thesis by auto
qed

text \<open> A reservation reports success also when another connection's span already starts at the height
  it computed; \<open>std::set::insert\<close> then leaves the queue as it was.\<close>

lemma reserve_span_not_recorded:
  "let q = set_span_hashes (add_blocks_scheduled [] 5 1 [1] None) 5 [1] [[0]]
   in reserve_span q 5 5 10 [2] [[7]] None = ((5, 1), q)"
  by (simp add: reserve_span_def add_blocks_scheduled_def set_span_hashes_def span_scheduled_def)

end
