(* ===== verification/Serialization.thy ===== *)
theory Serialization
  imports Varint "HOL-Library.Monad_Syntax"
begin

text \<open>
  The binary archives of \<open>serialization/\<close>. A reading archive is a function from the remaining
  input to the value and the rest of the input, or \<open>None\<close> once the stream is no longer good:
  every macro of the serialization language tests \<open>stream().good()\<close> after the field and returns
  false. A writing archive appends to a string stream, which never fails, so the output of a
  field is a byte list. \<open>serialize_uvarint\<close> reads through a buffer iterator, which does not
  change the state of the stream, and ignores the result code of \<open>read_varint\<close>.
\<close>

type_synonym 'a reader = "blob \<Rightarrow> ('a \<times> blob) option"

subsection \<open>Reading\<close>

text \<open>\<open>serialize_uint\<close> of one byte.\<close>

fun read_byte :: "u8 reader" where
  "read_byte [] = None"
| "read_byte (c # s) = Some (c, s)"

text \<open>\<open>serialize_uint\<close> of \<open>width\<close> bytes, with \<open>ret += b << shift\<close>.\<close>

fun read_uint :: "nat \<Rightarrow> nat \<Rightarrow> 'a::len word \<Rightarrow> 'a word reader" where
  "read_uint 0 shift ret s = Some (ret, s)"
| "read_uint (Suc width) shift ret s =
     do { (b, s) \<leftarrow> read_byte s; read_uint width (shift + 8) (ret + push_bit shift (ucast b)) s }"

definition read_blob :: "nat \<Rightarrow> blob reader" where
  "read_blob len s = (if length s < len then None else Some (take len s, drop len s))"

definition read_uvarint :: "'a::len word reader" where
  "read_uvarint s = (let (_, v, s) = read_varint s in Some (v, s))"

fun read_array :: "'a reader \<Rightarrow> nat \<Rightarrow> ('a list) reader" where
  "read_array rd 0 s = Some ([], s)"
| "read_array rd (Suc n) s =
     do { (x, s) \<leftarrow> rd s; (xs, s) \<leftarrow> read_array rd n s; Some (x # xs, s) }"

definition read_vector :: "'a reader \<Rightarrow> ('a list) reader" where
  "read_vector rd s =
     do { (cnt :: u64, s) \<leftarrow> read_uvarint s;
          if length s < unat cnt then None else read_array rd (unat cnt) s }"

definition read_string :: "blob reader" where
  "read_string s =
     do { (len :: u64, s) \<leftarrow> read_uvarint s;
          if length s < unat len then None else read_blob (unat len) s }"

text \<open>\<open>std::vector<crypto::signature>\<close> has no length prefix; its size is set by the caller.\<close>

definition read_signatures :: "nat \<Rightarrow> (blob list) reader" where
  "read_signatures cnt s =
     (if length s < cnt * 64 then None else read_array (read_blob 64) cnt s)"

text \<open>\<open>parse_binary\<close>: the whole input must be consumed.\<close>

definition parse_binary :: "'a reader \<Rightarrow> blob \<Rightarrow> 'a option" where
  "parse_binary rd blob =
     (case rd blob of Some (v, []) \<Rightarrow> Some v | _ \<Rightarrow> None)"

subsection \<open>Writing\<close>

fun write_uint :: "nat \<Rightarrow> 'a::len word \<Rightarrow> blob" where
  "write_uint 0 v = []"
| "write_uint (Suc width) v = ucast (v AND 0xff) # write_uint width (drop_bit 8 v)"

definition write_vector :: "('a \<Rightarrow> blob) \<Rightarrow> 'a list \<Rightarrow> blob" where
  "write_vector wr xs = write_varint (of_nat (length xs) :: u64) @ concat (map wr xs)"

definition write_string :: "blob \<Rightarrow> blob" where
  "write_string str = write_varint (of_nat (length str) :: u64) @ str"

subsection \<open>The contract of a field\<close>

text \<open>
  An encoding is read back after it has been written, whatever follows it, and what is read is
  well formed, so writing it again and reading that gives the same value. A field takes at
  least one byte, which the sanity check of the vectors relies on. An array of encodings is an
  encoding and a vector of fields is a field.
\<close>

locale codec =
  fixes wr :: "'a \<Rightarrow> blob" and rd :: "'a reader" and ok :: "'a \<Rightarrow> bool"
  assumes read_back: "ok x \<Longrightarrow> rd (wr x @ rest) = Some (x, rest)"
    and read_ok: "rd s = Some (x, rest) \<Longrightarrow> ok x"
begin

lemma prefix_free: "ok x \<Longrightarrow> ok y \<Longrightarrow> wr x @ r = wr y @ r' \<Longrightarrow> x = y \<and> r = r'"
  by (metis read_back option.inject prod.inject)

lemma array_back:
  "list_all ok xs \<Longrightarrow> read_array rd (length xs) (concat (map wr xs) @ rest) = Some (xs, rest)"
  by (induction xs) (auto simp: read_back)

lemma array_ok:
  "read_array rd n s = Some (xs, rest) \<Longrightarrow> length xs = n \<and> list_all ok xs"
  by (induction n arbitrary: s xs) (auto simp: Option.bind_eq_Some_conv dest: read_ok)

lemma parse_back: "ok x \<Longrightarrow> parse_binary rd (wr x) = Some x"
  using read_back [of x "[]"] by (simp add: parse_binary_def)

lemma parse_ok: "parse_binary rd b = Some x \<Longrightarrow> ok x"
  by (auto simp: parse_binary_def split: option.splits list.splits prod.splits dest: read_ok)

lemma parse_stable: "parse_binary rd b = Some x \<Longrightarrow> parse_binary rd (wr x) = Some x"
  by (intro parse_back parse_ok)

end

locale field = codec +
  assumes not_Nil: "ok x \<Longrightarrow> wr x \<noteq> []"
begin

lemma concat_length: "list_all ok xs \<Longrightarrow> length xs \<le> length (concat (map wr xs))"
proof (induction xs)
  case (Cons x xs)
  then have "wr x \<noteq> []" by (simp add: not_Nil)
  then show ?case using Cons by (cases "wr x") auto
qed simp

end

lemma array_codec:
  "codec wr rd ok \<Longrightarrow>
     codec (\<lambda>xs. concat (map wr xs)) (read_array rd n) (\<lambda>xs. length xs = n \<and> list_all ok xs)"
  by (rule codec.intro) (auto simp: codec.array_back dest: codec.array_ok)

lemma read_uvarint_back: "read_uvarint (write_varint v @ rest) = Some (v, rest)"
  using read_write_loop [of v 0 v 0 rest]
  by (simp add: read_uvarint_def read_varint_def read_varint_bits_def)

lemma read_blob_back: "length x = n \<Longrightarrow> read_blob n (x @ rest) = Some (x, rest)"
  by (simp add: read_blob_def)

lemma read_blob_length: "read_blob n s = Some (x, rest) \<Longrightarrow> length x = n"
  by (auto simp: read_blob_def split: if_splits)

lemma blob_codec: "codec (\<lambda>h. h) (read_blob n) (\<lambda>h. length h = n)"
  by (rule codec.intro) (auto simp: read_blob_back dest: read_blob_length)

interpretation varint_field: field write_varint read_uvarint "\<lambda>_. True"
  by unfold_locales (simp_all add: read_uvarint_back write_varint_not_Nil)

interpretation byte_field: field "\<lambda>b. [b]" read_byte "\<lambda>_. True"
  by unfold_locales simp_all

interpretation hash_field: field "\<lambda>h. h" "read_blob 32" "\<lambda>h. length h = 32"
  by unfold_locales (auto simp: read_blob_back dest: read_blob_length)

interpretation signature_field: field "\<lambda>h. h" "read_blob 64" "\<lambda>h. length h = 64"
  by unfold_locales (auto simp: read_blob_back dest: read_blob_length)

lemma vector_field:
  assumes "field wr rd ok"
  shows "field (write_vector wr) (read_vector rd) (\<lambda>xs. length xs < 2 ^ 64 \<and> list_all ok xs)"
proof
  have c: "codec wr rd ok" using assms by (rule field.axioms)
  fix xs rest
  show "read_vector rd (write_vector wr xs @ rest) = Some (xs, rest)" if ok: "length xs < 2 ^ 64 \<and> list_all ok xs"
  proof -
    have u: "unat (of_nat (length xs) :: u64) = length xs" using ok by (simp add: unat_of_nat_u64)
    have "length xs \<le> length (concat (map wr xs) @ rest)"
      using field.concat_length [OF assms, of xs] ok by simp
    then show ?thesis
      using codec.array_back [OF c, of xs rest] ok
      by (simp add: read_vector_def write_vector_def read_uvarint_back u)
  qed
  show "length xs < 2 ^ 64 \<and> list_all ok xs" if "read_vector rd s = Some (xs, rest)" for s
    using that codec.array_ok [OF c]
    by (auto simp: read_vector_def Option.bind_eq_Some_conv unat_less_u64 split: if_splits)
  show "write_vector wr xs \<noteq> []" by (simp add: write_vector_def write_varint_not_Nil)
qed

interpretation string_field: field write_string read_string "\<lambda>s. length s < 2 ^ 64"
proof
  fix s rest :: blob
  show "read_string (write_string s @ rest) = Some (s, rest)" if "length s < 2 ^ 64"
  proof -
    have u: "unat (of_nat (length s) :: u64) = length s" using that by (simp add: unat_of_nat_u64)
    show ?thesis by (simp add: read_string_def write_string_def read_uvarint_back u read_blob_back)
  qed
  show "length s < 2 ^ 64" if "read_string inp = Some (s, rest)" for inp
    using that by (auto simp: read_string_def Option.bind_eq_Some_conv unat_less_u64 split: if_splits dest!: read_blob_length)
  show "write_string s \<noteq> []" by (simp add: write_string_def write_varint_not_Nil)
qed

interpretation bytes_field: field "write_vector (\<lambda>b. [b])" "read_vector read_byte" "\<lambda>bs. length bs < 2 ^ 64 \<and> list_all (\<lambda>_. True) bs"
  by (rule vector_field) (rule byte_field.field_axioms)

interpretation hashes_field: field "write_vector (\<lambda>h. h)" "read_vector (read_blob 32)" "\<lambda>hs. length hs < 2 ^ 64 \<and> list_all (\<lambda>h. length h = 32) hs"
  by (rule vector_field) (rule hash_field.field_axioms)

interpretation varints_field: field "write_vector (write_varint :: u64 \<Rightarrow> blob)" "read_vector read_uvarint" "\<lambda>vs. length vs < 2 ^ 64 \<and> list_all (\<lambda>_. True) vs"
  by (rule vector_field) (rule varint_field.field_axioms)

lemma signatures_codec:
  "codec concat (read_signatures n) (\<lambda>sigs. length sigs = n \<and> list_all (\<lambda>h. length h = 64) sigs)"
proof
  fix sigs rest
  show "read_signatures n (concat sigs @ rest) = Some (sigs, rest)"
    if ok: "length sigs = n \<and> list_all (\<lambda>h. length h = 64) sigs"
  proof -
    have "length (concat sigs) = length sigs * 64" using conjunct2 [OF ok] by (induction sigs) auto
    then show ?thesis using signature_field.array_back [OF conjunct2 [OF ok], of rest] ok
      by (simp add: read_signatures_def)
  qed
  show "length sigs = n \<and> list_all (\<lambda>h. length h = 64) sigs" if "read_signatures n s = Some (sigs, rest)" for s
    using that signature_field.array_ok by (auto simp: read_signatures_def split: if_splits)
qed

text \<open>A fixed-width integer is read back.\<close>

lemma read_uint_back:
  "unat v < 2 ^ (8 * w) \<Longrightarrow>
     read_uint w shift ret (write_uint w (v :: 'a::len word) @ rest) = Some (ret + push_bit shift v, rest)"
proof (induction w arbitrary: shift ret v)
  case 0
  then have "v = 0" by (simp add: unat_eq_zero)
  then show ?case by simp
next
  case (Suc w)
  have m: "(0xff :: 'a word) = mask 8" by (simp add: mask_eq_exp_minus_1)
  have low: "ucast (ucast (v AND 0xff) :: u8) = take_bit 8 v"
    unfolding m by (rule bit_word_eqI) (auto simp: bit_simps)
  have "unat (drop_bit 8 v) < 2 ^ (8 * w)"
    using Suc.prems by (simp add: unat_drop_bit less_mult_imp_div_less power_add mult.commute)
  note ih = Suc.IH [OF this, of "shift + 8" "ret + push_bit shift (take_bit 8 v)"]
  have "v = push_bit 8 (drop_bit 8 v) + take_bit 8 v" by (rule bits_ident [symmetric])
  then have "push_bit shift v = push_bit shift (take_bit 8 v) + push_bit (shift + 8) (drop_bit 8 v)"
    by (metis add.commute push_bit_add push_bit_push_bit)
  with ih show ?case by (simp add: low add.assoc)
qed

interpretation uint32_field: field "write_uint 4" "read_uint 4 0 0" "\<lambda>_ :: u32. True"
proof
  fix v :: u32 and rest
  show "read_uint 4 0 0 (write_uint 4 v @ rest) = Some (v, rest)"
    using read_uint_back [of v 4 0 0 rest] unat_less_u32 [of v] by simp
  show "write_uint 4 v \<noteq> []" by (simp add: numeral_eq_Suc)
qed simp

end
