(* ===== verification/Transaction.thy ===== *)
theory Transaction
  imports Serialization Keccak
begin

text \<open>
  Transactions of \<open>cryptonote_basic/cryptonote_basic.h\<close> with their ring signatures of
  \<open>ringct/rctTypes.h\<close>, their binary serialization and their hashes
  (\<open>cryptonote_format_utils.cpp\<close>). A public key, hash, key image or \<open>rct::key\<close> is a list of 32
  bytes, a signature of 64 bytes. The members that are rebuilt and never serialized (\<open>message\<close>,
  \<open>mixRing\<close>, \<open>II\<close>, \<open>senderPk\<close>) and the cached hash are left out; \<open>dest\<close> of an output key is kept
  and is zero after parsing, as \<open>vector::resize\<close> leaves it.
\<close>

subsection \<open>Types\<close>

record txout_to_script =
  script_keys :: "blob list"
  script :: blob

datatype txout_target_v =
    Txout_to_script txout_to_script
  | Txout_to_scripthash blob
  | Txout_to_key blob

record txin_to_key =
  in_amount :: u64
  key_offsets :: "u64 list"
  k_image :: blob

datatype txin_v =
    Txin_gen u64
  | Txin_to_script blob u64 blob
  | Txin_to_scripthash blob u64 txout_to_script blob
  | Txin_to_key txin_to_key

record tx_out =
  out_amount :: u64
  target :: txout_target_v

record ecdhTuple =
  ecdh_mask :: blob
  ecdh_amount :: blob

record ctkey =
  ct_dest :: blob
  ct_mask :: blob

record rangeSig =
  asig :: blob
  Ci :: blob

record mgSig =
  ss :: "blob list list"
  cc :: blob

record rctSig =
  rct_type :: u8
  txnFee :: u64
  pseudoOuts :: "blob list"
  ecdhInfo :: "ecdhTuple list"
  outPk :: "ctkey list"
  rangeSigs :: "rangeSig list"
  MGs :: "mgSig list"

record transaction_prefix =
  version :: u64
  unlock_time :: u64
  vin :: "txin_v list"
  vout :: "tx_out list"
  extra :: blob

record transaction = transaction_prefix +
  signatures :: "blob list list"
  rct_signatures :: rctSig

definition RCTTypeNull :: u8 where "RCTTypeNull = 0"
definition RCTTypeFull :: u8 where "RCTTypeFull = 1"
definition RCTTypeSimple :: u8 where "RCTTypeSimple = 2"
definition CURRENT_TRANSACTION_VERSION :: u64 where "CURRENT_TRANSACTION_VERSION = 2"

definition rct_null :: rctSig where
  "rct_null = \<lparr> rct_type = RCTTypeNull, txnFee = 0, pseudoOuts = [], ecdhInfo = [], outPk = [],
     rangeSigs = [], MGs = [] \<rparr>"

subsection \<open>Inputs and outputs\<close>

definition write_to_script :: "txout_to_script \<Rightarrow> blob" where
  "write_to_script t = write_vector (\<lambda>k. k) (script_keys t) @ write_vector (\<lambda>b. [b]) (script t)"

definition read_to_script :: "txout_to_script reader" where
  "read_to_script s =
     do { (keys, s) \<leftarrow> read_vector (read_blob 32) s; (scr, s) \<leftarrow> read_vector read_byte s;
          Some (\<lparr> script_keys = keys, script = scr \<rparr>, s) }"

fun write_target :: "txout_target_v \<Rightarrow> blob" where
  "write_target (Txout_to_script t) = 0 # write_to_script t"
| "write_target (Txout_to_scripthash h) = 1 # h"
| "write_target (Txout_to_key k) = 2 # k"

definition read_target :: "txout_target_v reader" where
  "read_target s =
     do { (t, s) \<leftarrow> read_byte s;
          if t = 0 then do { (x, s) \<leftarrow> read_to_script s; Some (Txout_to_script x, s) }
          else if t = 1 then do { (x, s) \<leftarrow> read_blob 32 s; Some (Txout_to_scripthash x, s) }
          else if t = 2 then do { (x, s) \<leftarrow> read_blob 32 s; Some (Txout_to_key x, s) }
          else None }"

definition write_tx_out :: "tx_out \<Rightarrow> blob" where
  "write_tx_out out = write_varint (out_amount out) @ write_target (target out)"

definition read_tx_out :: "tx_out reader" where
  "read_tx_out s =
     do { (amount, s) \<leftarrow> read_uvarint s; (t, s) \<leftarrow> read_target s;
          Some (\<lparr> out_amount = amount, target = t \<rparr>, s) }"

fun write_txin :: "txin_v \<Rightarrow> blob" where
  "write_txin (Txin_gen height) = 0xff # write_varint height"
| "write_txin (Txin_to_script prev prevout sigset) =
     0 # prev @ write_varint prevout @ write_vector (\<lambda>b. [b]) sigset"
| "write_txin (Txin_to_scripthash prev prevout scr sigset) =
     1 # prev @ write_varint prevout @ write_to_script scr @ write_vector (\<lambda>b. [b]) sigset"
| "write_txin (Txin_to_key k) =
     2 # write_varint (in_amount k) @ write_vector write_varint (key_offsets k) @ k_image k"

definition read_txin :: "txin_v reader" where
  "read_txin s =
     do { (t, s) \<leftarrow> read_byte s;
          if t = 0xff then do { (height, s) \<leftarrow> read_uvarint s; Some (Txin_gen height, s) }
          else if t = 0 then
            do { (prev, s) \<leftarrow> read_blob 32 s; (prevout, s) \<leftarrow> read_uvarint s;
                 (sigset, s) \<leftarrow> read_vector read_byte s; Some (Txin_to_script prev prevout sigset, s) }
          else if t = 1 then
            do { (prev, s) \<leftarrow> read_blob 32 s; (prevout, s) \<leftarrow> read_uvarint s;
                 (scr, s) \<leftarrow> read_to_script s; (sigset, s) \<leftarrow> read_vector read_byte s;
                 Some (Txin_to_scripthash prev prevout scr sigset, s) }
          else if t = 2 then
            do { (amount, s) \<leftarrow> read_uvarint s; (offsets, s) \<leftarrow> read_vector read_uvarint s;
                 (image, s) \<leftarrow> read_blob 32 s;
                 Some (Txin_to_key \<lparr> in_amount = amount, key_offsets = offsets, k_image = image \<rparr>, s) }
          else None }"

definition get_signature_size :: "txin_v \<Rightarrow> nat" where
  "get_signature_size i = (case i of Txin_to_key k \<Rightarrow> length (key_offsets k) | _ \<Rightarrow> 0)"

subsection \<open>Ring signatures\<close>

text \<open>
  A serializer that saves an object checks its sizes and may return false; the output is then
  what the stream holds at that point.
\<close>

type_synonym written = "bool \<times> blob"

definition out_seq :: "written \<Rightarrow> written \<Rightarrow> written" where
  "out_seq a b = (if fst a then (fst b, snd a @ snd b) else a)"

definition out_guard :: "bool \<Rightarrow> written" where
  "out_guard b = (b, [])"

definition out_put :: "blob \<Rightarrow> written" where
  "out_put b = (True, b)"

fun out_list :: "written list \<Rightarrow> written" where
  "out_list [] = (True, [])"
| "out_list (x # xs) = out_seq x (out_list xs)"

definition write_rctsig_base :: "rctSig \<Rightarrow> nat \<Rightarrow> nat \<Rightarrow> written" where
  "write_rctsig_base r inputs outputs =
     out_seq (out_put [rct_type r])
      (if rct_type r = RCTTypeNull then (True, [])
       else if rct_type r \<noteq> RCTTypeFull \<and> rct_type r \<noteq> RCTTypeSimple then (False, [])
       else out_list
         [out_put (write_varint (txnFee r)),
          if rct_type r = RCTTypeSimple
          then out_seq (out_guard (length (pseudoOuts r) = inputs)) (out_put (concat (pseudoOuts r)))
          else (True, []),
          out_guard (length (ecdhInfo r) = outputs),
          out_put (concat (map (\<lambda>e. ecdh_mask e @ ecdh_amount e) (ecdhInfo r))),
          out_guard (length (outPk r) = outputs),
          out_put (concat (map ct_mask (outPk r)))])"

definition read_ecdh :: "ecdhTuple reader" where
  "read_ecdh s =
     do { (m, s) \<leftarrow> read_blob 32 s; (a, s) \<leftarrow> read_blob 32 s; Some (\<lparr> ecdh_mask = m, ecdh_amount = a \<rparr>, s) }"

definition read_outPk :: "ctkey reader" where
  "read_outPk s = do { (m, s) \<leftarrow> read_blob 32 s; Some (\<lparr> ct_dest = replicate 32 0, ct_mask = m \<rparr>, s) }"

text \<open>The members are read over those of a fresh object.\<close>

definition read_rctsig_base :: "nat \<Rightarrow> nat \<Rightarrow> rctSig reader" where
  "read_rctsig_base inputs outputs s =
     do { (ty, s) \<leftarrow> read_byte s;
          if ty = RCTTypeNull then Some (rct_null, s)
          else if ty \<noteq> RCTTypeFull \<and> ty \<noteq> RCTTypeSimple then None
          else
            do { (fee, s) \<leftarrow> read_uvarint s;
                 (pseudo, s) \<leftarrow> (if ty = RCTTypeSimple then read_array (read_blob 32) inputs s else Some ([], s));
                 (ecdh, s) \<leftarrow> read_array read_ecdh outputs s;
                 (pk, s) \<leftarrow> read_array read_outPk outputs s;
                 Some (rct_null\<lparr> rct_type := ty, txnFee := fee, pseudoOuts := pseudo, ecdhInfo := ecdh, outPk := pk \<rparr>, s) } }"

definition mg_elements :: "u8 \<Rightarrow> nat \<Rightarrow> nat" where
  "mg_elements ty inputs = (if ty = RCTTypeSimple then inputs else 1)"

definition mg_ss2_elements :: "u8 \<Rightarrow> nat \<Rightarrow> nat" where
  "mg_ss2_elements ty inputs = (if ty = RCTTypeSimple then 1 else inputs) + 1"

definition write_mg :: "u8 \<Rightarrow> nat \<Rightarrow> u64 \<Rightarrow> mgSig \<Rightarrow> written" where
  "write_mg ty inputs mixin m =
     out_list
       [out_guard (length (ss m) = unat (mixin + 1)),
        out_list (map (\<lambda>row. out_seq (out_guard (length row = mg_ss2_elements ty inputs)) (out_put (concat row))) (ss m)),
        out_put (cc m)]"

definition read_mg :: "u8 \<Rightarrow> nat \<Rightarrow> u64 \<Rightarrow> mgSig reader" where
  "read_mg ty inputs mixin s =
     do { (rows, s) \<leftarrow> read_array (read_array (read_blob 32) (mg_ss2_elements ty inputs)) (unat (mixin + 1)) s;
          (c, s) \<leftarrow> read_blob 32 s;
          Some (\<lparr> ss = rows, cc = c \<rparr>, s) }"

definition write_rctsig_prunable :: "rctSig \<Rightarrow> u8 \<Rightarrow> nat \<Rightarrow> nat \<Rightarrow> u64 \<Rightarrow> written" where
  "write_rctsig_prunable r ty inputs outputs mixin =
     (if ty = RCTTypeNull then (True, [])
      else if ty \<noteq> RCTTypeFull \<and> ty \<noteq> RCTTypeSimple then (False, [])
      else out_list
        [out_guard (length (rangeSigs r) = outputs),
         out_put (concat (map (\<lambda>x. asig x @ Ci x) (rangeSigs r))),
         out_guard (length (MGs r) = mg_elements ty inputs),
         out_list (map (write_mg ty inputs mixin) (MGs r))])"

definition read_rangeSig :: "rangeSig reader" where
  "read_rangeSig s =
     do { (a, s) \<leftarrow> read_blob 4128 s; (c, s) \<leftarrow> read_blob 2048 s; Some (\<lparr> asig = a, Ci = c \<rparr>, s) }"

definition read_rctsig_prunable :: "rctSig \<Rightarrow> u8 \<Rightarrow> nat \<Rightarrow> nat \<Rightarrow> u64 \<Rightarrow> rctSig reader" where
  "read_rctsig_prunable r ty inputs outputs mixin s =
     (if ty = RCTTypeNull then Some (r, s)
      else if ty \<noteq> RCTTypeFull \<and> ty \<noteq> RCTTypeSimple then None
      else
        do { (ranges, s) \<leftarrow> read_array read_rangeSig outputs s;
             (mgs, s) \<leftarrow> read_array (read_mg ty inputs mixin) (mg_elements ty inputs) s;
             Some (r\<lparr> rangeSigs := ranges, MGs := mgs \<rparr>, s) })"

subsection \<open>The transaction\<close>

text \<open>\<open>is_mm_tx\<close> is the flag of the object that is saved or filled; it is not serialized.\<close>

definition version_accepted :: "bool \<Rightarrow> u64 \<Rightarrow> bool" where
  "version_accepted is_mm_tx v \<longleftrightarrow> \<not> ((v = 0 \<or> CURRENT_TRANSACTION_VERSION < v) \<and> \<not> is_mm_tx)"

definition write_prefix :: "bool \<Rightarrow> 'a transaction_prefix_scheme \<Rightarrow> written" where
  "write_prefix is_mm_tx tx =
     out_list
       [out_put (write_varint (version tx)),
        out_guard (version_accepted is_mm_tx (version tx)),
        out_put (write_varint (unlock_time tx) @ write_vector write_txin (vin tx)
                 @ write_vector write_tx_out (vout tx) @ write_vector (\<lambda>b. [b]) (extra tx))]"

definition read_prefix :: "bool \<Rightarrow> transaction_prefix reader" where
  "read_prefix is_mm_tx s =
     do { (v, s) \<leftarrow> read_uvarint s;
          if \<not> version_accepted is_mm_tx v then None
          else
            do { (ut, s) \<leftarrow> read_uvarint s; (ins, s) \<leftarrow> read_vector read_txin s;
                 (outs, s) \<leftarrow> read_vector read_tx_out s; (ex, s) \<leftarrow> read_vector read_byte s;
                 Some (\<lparr> version = v, unlock_time = ut, vin = ins, vout = outs, extra = ex \<rparr>, s) } }"

text \<open>The loop over the inputs when saving, with the signatures that are there.\<close>

fun write_sigs :: "bool \<Rightarrow> txin_v list \<Rightarrow> blob list list \<Rightarrow> written" where
  "write_sigs not_expected [] sigs = (True, [])"
| "write_sigs not_expected (i # ins) sigs =
     (if not_expected
      then if get_signature_size i = 0 then write_sigs not_expected ins sigs else (False, [])
      else case sigs of
             [] \<Rightarrow> (False, [])
           | sg # sigs \<Rightarrow>
               if get_signature_size i \<noteq> length sg then (False, [])
               else out_seq (out_put (concat sg)) (write_sigs not_expected ins sigs))"

fun read_sigs :: "txin_v list \<Rightarrow> (blob list list) reader" where
  "read_sigs [] s = Some ([], s)"
| "read_sigs (i # ins) s =
     do { (sg, s) \<leftarrow> read_signatures (get_signature_size i) s;
          (sgs, s) \<leftarrow> read_sigs ins s; Some (sg # sgs, s) }"

text \<open>\<open>key_offsets.size() - 1\<close> of the first input, which wraps around for an input without offsets.\<close>

definition first_mixin :: "txin_v list \<Rightarrow> u64" where
  "first_mixin ins =
     (case ins of Txin_to_key k # _ \<Rightarrow> of_nat (length (key_offsets k)) - 1 | _ \<Rightarrow> 0)"

definition write_transaction :: "bool \<Rightarrow> transaction \<Rightarrow> written" where
  "write_transaction is_mm_tx tx =
     out_seq (write_prefix is_mm_tx tx)
       (if version tx \<le> 1
        then let not_expected = (signatures tx = [])
             in out_seq (out_guard (\<not> (\<not> not_expected \<and> length (vin tx) \<noteq> length (signatures tx))))
                        (write_sigs not_expected (vin tx) (signatures tx))
        else if vin tx = [] then (True, [])
        else out_seq (write_rctsig_base (rct_signatures tx) (length (vin tx)) (length (vout tx)))
               (if rct_type (rct_signatures tx) \<noteq> RCTTypeNull
                then write_rctsig_prunable (rct_signatures tx) (rct_type (rct_signatures tx))
                       (length (vin tx)) (length (vout tx)) (first_mixin (vin tx))
                else (True, [])))"

definition make_tx :: "transaction_prefix \<Rightarrow> blob list list \<Rightarrow> rctSig \<Rightarrow> transaction" where
  "make_tx p sigs r =
     \<lparr> version = version p, unlock_time = unlock_time p, vin = vin p, vout = vout p, extra = extra p,
       signatures = sigs, rct_signatures = r \<rparr>"

definition read_transaction :: "bool \<Rightarrow> transaction reader" where
  "read_transaction is_mm_tx s =
     do { (p, s) \<leftarrow> read_prefix is_mm_tx s;
          if version p \<le> 1
          then do { (sigs, s) \<leftarrow> read_sigs (vin p) s; Some (make_tx p sigs rct_null, s) }
          else if vin p = [] then Some (make_tx p [] rct_null, s)
          else
            do { (r, s) \<leftarrow> read_rctsig_base (length (vin p)) (length (vout p)) s;
                 (r, s) \<leftarrow> (if rct_type r \<noteq> RCTTypeNull
                           then read_rctsig_prunable r (rct_type r) (length (vin p)) (length (vout p)) (first_mixin (vin p)) s
                           else Some (r, s));
                 Some (make_tx p [] r, s) } }"

definition tx_to_blob :: "transaction \<Rightarrow> blob" where
  "tx_to_blob tx = snd (write_transaction False tx)"

definition parse_and_validate_tx_from_blob :: "blob \<Rightarrow> transaction option" where
  "parse_and_validate_tx_from_blob tx_blob = parse_binary (read_transaction False) tx_blob"

text \<open>\<open>serialize_base\<close>: the prefix and the unprunable part; what follows is ignored.\<close>

definition parse_and_validate_tx_base_from_blob :: "blob \<Rightarrow> transaction option" where
  "parse_and_validate_tx_base_from_blob tx_blob =
     do { (p, s) \<leftarrow> read_prefix False tx_blob;
          if version p \<le> 1 \<or> vin p = [] then Some (make_tx p [] rct_null)
          else do { (r, s) \<leftarrow> read_rctsig_base (length (vin p)) (length (vout p)) s; Some (make_tx p [] r) } }"

subsection \<open>Hashes\<close>

definition get_transaction_prefix_hash :: "bool \<Rightarrow> 'a transaction_prefix_scheme \<Rightarrow> blob" where
  "get_transaction_prefix_hash is_mm_tx tx = cn_fast_hash (snd (write_prefix is_mm_tx tx))"

text \<open>The hash and the size of the blob. The cached hash of an unchanged object is the one computed here.\<close>

definition calculate_transaction_hash :: "bool \<Rightarrow> transaction \<Rightarrow> (blob \<times> nat) option" where
  "calculate_transaction_hash is_mm_tx t =
     (let blob = snd (write_transaction is_mm_tx t)
      in if version t \<le> 1 then Some (cn_fast_hash blob, length blob)
         else
           let r = rct_signatures t; inputs = length (vin t); outputs = length (vout t);
               base = write_rctsig_base r inputs outputs;
               prunable = write_rctsig_prunable r (rct_type r) inputs outputs (first_mixin (vin t))
           in if \<not> fst base then None
              else if rct_type r \<noteq> RCTTypeNull \<and> \<not> fst prunable then None
              else Some (cn_fast_hash (get_transaction_prefix_hash is_mm_tx t @ cn_fast_hash (snd base)
                           @ (if rct_type r = RCTTypeNull then replicate 32 0 else cn_fast_hash (snd prunable))),
                         length blob))"

text \<open>\<open>null_hash\<close> when it cannot be computed.\<close>

definition get_transaction_hash :: "transaction \<Rightarrow> blob" where
  "get_transaction_hash t =
     (case calculate_transaction_hash False t of None \<Rightarrow> replicate 32 0 | Some (h, _) \<Rightarrow> h)"

subsection \<open>Well-formed values\<close>

definition to_script_ok :: "txout_to_script \<Rightarrow> bool" where
  "to_script_ok t \<longleftrightarrow> length (script_keys t) < 2 ^ 64 \<and> list_all (\<lambda>k. length k = 32) (script_keys t)
     \<and> length (script t) < 2 ^ 64"

fun target_ok :: "txout_target_v \<Rightarrow> bool" where
  "target_ok (Txout_to_script t) = to_script_ok t"
| "target_ok (Txout_to_scripthash h) = (length h = 32)"
| "target_ok (Txout_to_key k) = (length k = 32)"

fun txin_ok :: "txin_v \<Rightarrow> bool" where
  "txin_ok (Txin_gen height) = True"
| "txin_ok (Txin_to_script prev prevout sigset) = (length prev = 32 \<and> length sigset < 2 ^ 64)"
| "txin_ok (Txin_to_scripthash prev prevout scr sigset) =
     (length prev = 32 \<and> to_script_ok scr \<and> length sigset < 2 ^ 64)"
| "txin_ok (Txin_to_key k) = (length (key_offsets k) < 2 ^ 64 \<and> length (k_image k) = 32)"

definition tx_out_ok :: "tx_out \<Rightarrow> bool" where
  "tx_out_ok out \<longleftrightarrow> target_ok (target out)"

lemma list_all_True [simp]: "list_all (\<lambda>_. True) xs"
  by (simp add: list_all_iff)

lemmas field_back = read_uvarint_back hash_field.read_back bytes_field.read_back hashes_field.read_back
  varints_field.read_back

lemmas field_ok = hash_field.read_ok bytes_field.read_ok hashes_field.read_ok varints_field.read_ok

lemma write_vector_not_Nil [simp]: "write_vector wr xs \<noteq> []"
  by (simp add: write_vector_def write_varint_not_Nil)

interpretation to_script_field: field write_to_script read_to_script to_script_ok
proof
  fix t rest
  show "read_to_script (write_to_script t @ rest) = Some (t, rest)" if "to_script_ok t"
    using that by (simp add: write_to_script_def read_to_script_def to_script_ok_def field_back)
  show "to_script_ok t" if "read_to_script s = Some (t, rest)" for s
    using that by (auto simp: read_to_script_def to_script_ok_def Option.bind_eq_Some_conv dest!: field_ok)
  show "write_to_script t \<noteq> []" by (simp add: write_to_script_def)
qed

interpretation target_field: field write_target read_target target_ok
proof
  fix t rest
  show "read_target (write_target t @ rest) = Some (t, rest)" if "target_ok t"
    using that by (cases t) (simp_all add: read_target_def field_back to_script_field.read_back)
  show "target_ok t" if "read_target s = Some (t, rest)" for s
    using that by (auto simp: read_target_def Option.bind_eq_Some_conv split: if_splits
                        dest: field_ok to_script_field.read_ok)
  show "write_target t \<noteq> []" by (cases t) simp_all
qed

interpretation tx_out_field: field write_tx_out read_tx_out tx_out_ok
proof
  fix out rest
  show "read_tx_out (write_tx_out out @ rest) = Some (out, rest)" if "tx_out_ok out"
    using that by (simp add: write_tx_out_def read_tx_out_def tx_out_ok_def field_back target_field.read_back)
  show "tx_out_ok out" if "read_tx_out s = Some (out, rest)" for s
    using that by (auto simp: read_tx_out_def tx_out_ok_def Option.bind_eq_Some_conv dest: target_field.read_ok)
  show "write_tx_out out \<noteq> []" by (simp add: write_tx_out_def write_varint_not_Nil)
qed

interpretation txin_field: field write_txin read_txin txin_ok
proof
  fix i rest
  show "read_txin (write_txin i @ rest) = Some (i, rest)" if "txin_ok i"
    using that by (cases i) (simp_all add: read_txin_def field_back to_script_field.read_back)
  show "txin_ok i" if "read_txin s = Some (i, rest)" for s
    using that by (auto simp: read_txin_def Option.bind_eq_Some_conv split: if_splits
                        dest!: field_ok to_script_field.read_ok)
  show "write_txin i \<noteq> []" by (cases i) simp_all
qed

interpretation vin_field: field "write_vector write_txin" "read_vector read_txin"
    "\<lambda>is. length is < 2 ^ 64 \<and> list_all txin_ok is"
  by (rule vector_field) (rule txin_field.field_axioms)

interpretation vout_field: field "write_vector write_tx_out" "read_vector read_tx_out"
    "\<lambda>os. length os < 2 ^ 64 \<and> list_all tx_out_ok os"
  by (rule vector_field) (rule tx_out_field.field_axioms)

subsection \<open>Ring signatures are read back\<close>

lemma out_list_ok:
  "list_all fst xs \<Longrightarrow> out_list xs = (True, concat (map snd xs))"
  by (induction xs) (auto simp: out_seq_def)

lemma out_list_fst: "fst (out_list xs) \<longleftrightarrow> list_all fst xs"
  by (induction xs) (auto simp: out_seq_def)

lemma out_simps [simp]: "out_guard b = (b, [])" "out_put x = (True, x)"
  by (simp_all add: out_guard_def out_put_def)

definition ecdh_ok :: "ecdhTuple \<Rightarrow> bool" where
  "ecdh_ok e \<longleftrightarrow> length (ecdh_mask e) = 32 \<and> length (ecdh_amount e) = 32"

definition outPk_ok :: "ctkey \<Rightarrow> bool" where
  "outPk_ok k \<longleftrightarrow> ct_dest k = replicate 32 0 \<and> length (ct_mask k) = 32"

definition rangeSig_ok :: "rangeSig \<Rightarrow> bool" where
  "rangeSig_ok x \<longleftrightarrow> length (asig x) = 4128 \<and> length (Ci x) = 2048"

definition row_ok :: "nat \<Rightarrow> blob list \<Rightarrow> bool" where
  "row_ok n row \<longleftrightarrow> length row = n \<and> list_all (\<lambda>k. length k = 32) row"

definition mg_ok :: "u8 \<Rightarrow> nat \<Rightarrow> u64 \<Rightarrow> mgSig \<Rightarrow> bool" where
  "mg_ok ty inputs mixin m \<longleftrightarrow> length (ss m) = unat (mixin + 1)
     \<and> list_all (row_ok (mg_ss2_elements ty inputs)) (ss m) \<and> length (cc m) = 32"

definition rct_base_ok :: "nat \<Rightarrow> nat \<Rightarrow> rctSig \<Rightarrow> bool" where
  "rct_base_ok inputs outputs r \<longleftrightarrow>
     (if rct_type r = RCTTypeNull then r = rct_null
      else (rct_type r = RCTTypeFull \<and> pseudoOuts r = []
            \<or> rct_type r = RCTTypeSimple \<and> row_ok inputs (pseudoOuts r))
        \<and> length (ecdhInfo r) = outputs \<and> list_all ecdh_ok (ecdhInfo r)
        \<and> length (outPk r) = outputs \<and> list_all outPk_ok (outPk r))"

definition rct_prunable_ok :: "nat \<Rightarrow> nat \<Rightarrow> u64 \<Rightarrow> rctSig \<Rightarrow> bool" where
  "rct_prunable_ok inputs outputs mixin r \<longleftrightarrow>
     rct_type r = RCTTypeNull
     \<or> length (rangeSigs r) = outputs \<and> list_all rangeSig_ok (rangeSigs r)
       \<and> length (MGs r) = mg_elements (rct_type r) inputs
       \<and> list_all (mg_ok (rct_type r) inputs mixin) (MGs r)"

lemma ecdh_codec: "codec (\<lambda>e. ecdh_mask e @ ecdh_amount e) read_ecdh ecdh_ok"
  by (rule codec.intro)
     (simp add: read_ecdh_def ecdh_ok_def read_blob_back,
      auto simp: read_ecdh_def ecdh_ok_def Option.bind_eq_Some_conv dest: read_blob_length)

lemma outPk_codec: "codec ct_mask read_outPk outPk_ok"
proof
  fix k rest
  show "read_outPk (ct_mask k @ rest) = Some (k, rest)" if "outPk_ok k"
    using that by (cases k) (simp add: read_outPk_def outPk_ok_def read_blob_back)
  show "outPk_ok k" if "read_outPk s = Some (k, rest)" for s
    using that by (auto simp: read_outPk_def outPk_ok_def Option.bind_eq_Some_conv dest: read_blob_length)
qed

lemma rangeSig_codec: "codec (\<lambda>x. asig x @ Ci x) read_rangeSig rangeSig_ok"
  by (rule codec.intro)
     (simp add: read_rangeSig_def rangeSig_ok_def read_blob_back,
      auto simp: read_rangeSig_def rangeSig_ok_def Option.bind_eq_Some_conv dest: read_blob_length)

lemma row_codec: "codec concat (read_array (read_blob 32) n) (row_ok n)"
  using array_codec [OF blob_codec [of 32], of n] by (simp add: row_ok_def [abs_def])

lemma write_mg_ok:
  "mg_ok ty inputs mixin m \<Longrightarrow> write_mg ty inputs mixin m = (True, concat (map concat (ss m)) @ cc m)"
proof -
  let ?w = "\<lambda>row. out_seq (out_guard (length row = mg_ss2_elements ty inputs)) (out_put (concat row))"
  assume ok: "mg_ok ty inputs mixin m"
  then have "list_all fst (map ?w (ss m))" by (auto simp: mg_ok_def row_ok_def list_all_iff out_seq_def)
  moreover have "map snd (map ?w (ss m)) = map concat (ss m)"
    using ok by (auto simp: mg_ok_def row_ok_def list_all_iff out_seq_def)
  ultimately show ?thesis using ok
    by (simp add: write_mg_def mg_ok_def out_list_ok out_seq_def del: map_map)
qed

lemma mg_codec: "codec (\<lambda>m. snd (write_mg ty inputs mixin m)) (read_mg ty inputs mixin) (mg_ok ty inputs mixin)"
proof -
  note rows = array_codec [OF row_codec [of "mg_ss2_elements ty inputs"], of "unat (mixin + 1)"]
  show ?thesis
  proof
    fix m rest
    show "read_mg ty inputs mixin (snd (write_mg ty inputs mixin m) @ rest) = Some (m, rest)"
      if "mg_ok ty inputs mixin m"
      using that codec.read_back [OF rows, of "ss m" "cc m @ rest"]
      by (simp add: write_mg_ok read_mg_def read_blob_back mg_ok_def)
    show "mg_ok ty inputs mixin m" if "read_mg ty inputs mixin s = Some (m, rest)" for s
      using that by (auto simp: read_mg_def mg_ok_def Option.bind_eq_Some_conv
                          dest!: codec.read_ok [OF rows] dest: read_blob_length)
  qed
qed

lemma rct_types [simp]:
  "RCTTypeFull \<noteq> RCTTypeNull" "RCTTypeSimple \<noteq> RCTTypeNull" "RCTTypeFull \<noteq> RCTTypeSimple"
  "RCTTypeNull \<noteq> RCTTypeFull" "RCTTypeNull \<noteq> RCTTypeSimple" "RCTTypeSimple \<noteq> RCTTypeFull"
  by (simp_all add: RCTTypeFull_def RCTTypeNull_def RCTTypeSimple_def)

lemma write_base_ok:
  "rct_base_ok inputs outputs r \<Longrightarrow> fst (write_rctsig_base r inputs outputs)"
  by (auto simp: write_rctsig_base_def rct_base_ok_def out_seq_def out_list_fst row_ok_def split: if_splits)

lemma read_base_back:
  assumes "rct_base_ok inputs outputs r"
  shows "read_rctsig_base inputs outputs (snd (write_rctsig_base r inputs outputs) @ rest) =
           Some (r\<lparr>rangeSigs := [], MGs := []\<rparr>, rest)"
proof (cases "rct_type r = RCTTypeNull")
  case True
  then have "r = rct_null" using assms by (simp add: rct_base_ok_def)
  then show ?thesis by (simp add: write_rctsig_base_def read_rctsig_base_def out_seq_def rct_null_def)
next
  case False
  then have ty: "rct_type r = RCTTypeFull \<and> pseudoOuts r = [] \<or> rct_type r = RCTTypeSimple \<and> row_ok inputs (pseudoOuts r)"
    and e: "length (ecdhInfo r) = outputs \<and> list_all ecdh_ok (ecdhInfo r)"
    and k: "length (outPk r) = outputs \<and> list_all outPk_ok (outPk r)"
    using assms by (simp_all add: rct_base_ok_def)
  note backs = codec.read_back [OF array_codec [OF ecdh_codec] e] codec.read_back [OF array_codec [OF outPk_codec] k]
    codec.read_back [OF row_codec] read_uvarint_back
  from ty show ?thesis
  proof
    assume "rct_type r = RCTTypeFull \<and> pseudoOuts r = []"
    with e k show ?thesis
      by (simp add: write_rctsig_base_def read_rctsig_base_def out_seq_def backs) (simp add: rct_null_def)
  next
    assume s: "rct_type r = RCTTypeSimple \<and> row_ok inputs (pseudoOuts r)"
    then have "length (pseudoOuts r) = inputs" by (simp add: row_ok_def)
    with s e k show ?thesis
      by (simp add: write_rctsig_base_def read_rctsig_base_def out_seq_def backs) (simp add: rct_null_def)
  qed
qed

lemma read_base_ok:
  assumes "read_rctsig_base inputs outputs s = Some (r, rest)"
  shows "rct_base_ok inputs outputs r \<and> rangeSigs r = [] \<and> MGs r = []"
  using assms
  by (auto simp: read_rctsig_base_def rct_base_ok_def Option.bind_eq_Some_conv rct_null_def split: if_splits
           dest!: codec.read_ok [OF array_codec [OF ecdh_codec]] codec.read_ok [OF array_codec [OF outPk_codec]]
             codec.read_ok [OF row_codec])

lemma write_prunable_ok:
  assumes "rct_base_ok inputs outputs r" "rct_prunable_ok inputs outputs mixin r" "rct_type r \<noteq> RCTTypeNull"
  shows "write_rctsig_prunable r (rct_type r) inputs outputs mixin =
     (True, concat (map (\<lambda>x. asig x @ Ci x) (rangeSigs r))
            @ concat (map (\<lambda>m. snd (write_mg (rct_type r) inputs mixin m)) (MGs r)))"
proof -
  have "list_all fst (map (write_mg (rct_type r) inputs mixin) (MGs r))"
    using assms by (auto simp: rct_prunable_ok_def list_all_iff write_mg_ok)
  then have "out_list (map (write_mg (rct_type r) inputs mixin) (MGs r)) =
      (True, concat (map (\<lambda>m. snd (write_mg (rct_type r) inputs mixin m)) (MGs r)))"
    by (simp add: out_list_ok comp_def)
  moreover have "rct_type r = RCTTypeFull \<or> rct_type r = RCTTypeSimple"
    using assms(1,3) by (auto simp: rct_base_ok_def)
  ultimately show ?thesis using assms(2,3)
    by (auto simp: write_rctsig_prunable_def rct_prunable_ok_def out_seq_def)
qed

lemma read_prunable_back:
  assumes "rct_base_ok inputs outputs r" "rct_prunable_ok inputs outputs mixin r" "rct_type r \<noteq> RCTTypeNull"
  shows "read_rctsig_prunable (r\<lparr>rangeSigs := [], MGs := []\<rparr>) (rct_type r) inputs outputs mixin
           (snd (write_rctsig_prunable r (rct_type r) inputs outputs mixin) @ rest) = Some (r, rest)"
proof -
  have r: "length (rangeSigs r) = outputs \<and> list_all rangeSig_ok (rangeSigs r)"
    and m: "length (MGs r) = mg_elements (rct_type r) inputs
      \<and> list_all (mg_ok (rct_type r) inputs mixin) (MGs r)"
    using assms(2,3) by (auto simp: rct_prunable_ok_def)
  have "rct_type r = RCTTypeFull \<or> rct_type r = RCTTypeSimple"
    using assms(1,3) by (auto simp: rct_base_ok_def)
  then show ?thesis
    using codec.read_back [OF array_codec [OF rangeSig_codec] r] codec.read_back [OF array_codec [OF mg_codec] m] assms(3)
    by (simp add: read_rctsig_prunable_def write_prunable_ok [OF assms])
qed

lemma read_prunable_ok:
  assumes "read_rctsig_prunable r (rct_type r) inputs outputs mixin s = Some (r', rest)"
    and "rct_base_ok inputs outputs r" and "rct_type r \<noteq> RCTTypeNull"
  shows "rct_base_ok inputs outputs r' \<and> rct_prunable_ok inputs outputs mixin r' \<and> rct_type r' = rct_type r"
  using assms
  by (auto simp: read_rctsig_prunable_def rct_prunable_ok_def rct_base_ok_def Option.bind_eq_Some_conv split: if_splits
           dest!: codec.read_ok [OF array_codec [OF rangeSig_codec]] codec.read_ok [OF array_codec [OF mg_codec]])

subsection \<open>Transactions are read back\<close>

definition prefix_ok :: "bool \<Rightarrow> 'a transaction_prefix_scheme \<Rightarrow> bool" where
  "prefix_ok mm tx \<longleftrightarrow> version_accepted mm (version tx)
     \<and> length (vin tx) < 2 ^ 64 \<and> list_all txin_ok (vin tx)
     \<and> length (vout tx) < 2 ^ 64 \<and> list_all tx_out_ok (vout tx) \<and> length (extra tx) < 2 ^ 64"

lemma write_prefix_ok: "prefix_ok mm tx \<Longrightarrow> write_prefix mm tx =
    (True, write_varint (version tx) @ write_varint (unlock_time tx) @ write_vector write_txin (vin tx)
       @ write_vector write_tx_out (vout tx) @ write_vector (\<lambda>b. [b]) (extra tx))"
  by (simp add: write_prefix_def prefix_ok_def out_seq_def)

lemma read_prefix_back:
  "prefix_ok mm tx \<Longrightarrow> read_prefix mm (snd (write_prefix mm tx) @ rest) =
     Some (\<lparr> version = version tx, unlock_time = unlock_time tx, vin = vin tx, vout = vout tx, extra = extra tx \<rparr>, rest)"
  by (simp add: write_prefix_ok) (simp add: read_prefix_def prefix_ok_def field_back vin_field.read_back vout_field.read_back)

lemma read_prefix_ok: "read_prefix mm s = Some (p, rest) \<Longrightarrow> prefix_ok mm p"
  by (auto simp: read_prefix_def prefix_ok_def Option.bind_eq_Some_conv split: if_splits
           dest!: vin_field.read_ok vout_field.read_ok bytes_field.read_ok)

fun sigs_ok :: "txin_v list \<Rightarrow> blob list list \<Rightarrow> bool" where
  "sigs_ok [] [] = True"
| "sigs_ok (i # ins) (sg # sigs) =
     (length sg = get_signature_size i \<and> list_all (\<lambda>h. length h = 64) sg \<and> sigs_ok ins sigs)"
| "sigs_ok _ _ = False"

lemma sigs_ok_length: "sigs_ok ins sigs \<Longrightarrow> length ins = length sigs"
  by (induction ins sigs rule: sigs_ok.induct) auto

lemma write_sigs_ok: "sigs_ok ins sigs \<Longrightarrow> write_sigs False ins sigs = (True, concat (map concat sigs))"
  by (induction ins sigs rule: sigs_ok.induct) (auto simp: out_seq_def)

lemma read_sigs_back: "sigs_ok ins sigs \<Longrightarrow> read_sigs ins (concat (map concat sigs) @ rest) = Some (sigs, rest)"
  by (induction ins sigs rule: sigs_ok.induct) (auto simp: codec.read_back [OF signatures_codec])

lemma read_sigs_ok: "read_sigs ins s = Some (sigs, rest) \<Longrightarrow> sigs_ok ins sigs"
  by (induction ins arbitrary: s sigs)
     (auto simp: Option.bind_eq_Some_conv dest!: codec.read_ok [OF signatures_codec])

definition tx_ok :: "bool \<Rightarrow> transaction \<Rightarrow> bool" where
  "tx_ok mm tx \<longleftrightarrow> prefix_ok mm tx
     \<and> (if version tx \<le> 1 then rct_signatures tx = rct_null \<and> sigs_ok (vin tx) (signatures tx)
        else signatures tx = []
          \<and> (if vin tx = [] then rct_signatures tx = rct_null
             else rct_base_ok (length (vin tx)) (length (vout tx)) (rct_signatures tx)
               \<and> rct_prunable_ok (length (vin tx)) (length (vout tx)) (first_mixin (vin tx)) (rct_signatures tx)))"

lemma read_transaction_back_v1:
  assumes "tx_ok mm tx" "version tx \<le> 1"
  shows "fst (write_transaction mm tx) \<and>
    read_transaction mm (snd (write_transaction mm tx) @ rest) = Some (tx, rest)"
proof -
  have p: "prefix_ok mm tx" and s: "sigs_ok (vin tx) (signatures tx)" and r: "rct_signatures tx = rct_null"
    using assms by (simp_all add: tx_ok_def)
  have w: "write_transaction mm tx = (True, snd (write_prefix mm tx) @ concat (map concat (signatures tx)))"
    using assms(2) s sigs_ok_length [OF s] write_sigs_ok [OF s]
    by (cases "signatures tx = []") (auto simp: write_transaction_def out_seq_def write_prefix_ok [OF p])
  show ?thesis
    using assms(2) read_prefix_back [OF p] read_sigs_back [OF s]
    by (simp add: w read_transaction_def make_tx_def r)
qed

lemma read_transaction_back_v2:
  assumes "tx_ok mm tx" "\<not> version tx \<le> 1"
  shows "fst (write_transaction mm tx) \<and>
    read_transaction mm (snd (write_transaction mm tx) @ rest) = Some (tx, rest)"
proof (cases "vin tx = []")
  case True
  have p: "prefix_ok mm tx" using assms by (simp add: tx_ok_def)
  show ?thesis using True assms read_prefix_back [OF p]
    by (simp add: write_transaction_def read_transaction_def out_seq_def write_prefix_ok [OF p] tx_ok_def make_tx_def)
next
  case False
  let ?i = "length (vin tx)" let ?o = "length (vout tx)" let ?r = "rct_signatures tx"
  have p: "prefix_ok mm tx" and sg: "signatures tx = []"
    and b: "rct_base_ok ?i ?o ?r" and q: "rct_prunable_ok ?i ?o (first_mixin (vin tx)) ?r"
    using assms False by (simp_all add: tx_ok_def)
  obtain bb where wb: "write_rctsig_base ?r ?i ?o = (True, bb)"
    using write_base_ok [OF b] by (cases "write_rctsig_base ?r ?i ?o") auto
  have rb: "read_rctsig_base ?i ?o (bb @ rest) = Some (?r\<lparr>rangeSigs := [], MGs := []\<rparr>, rest)" for rest
    using read_base_back [OF b, of rest] by (simp add: wb)
  show ?thesis
  proof (cases "rct_type ?r = RCTTypeNull")
    case True
    then have "?r = rct_null" using b by (simp add: rct_base_ok_def)
    then have "?r\<lparr>rangeSigs := [], MGs := []\<rparr> = ?r" by (simp add: rct_null_def)
    then show ?thesis using True False assms(2) read_prefix_back [OF p] rb sg
      by (simp add: write_transaction_def read_transaction_def out_seq_def write_prefix_ok [OF p] wb make_tx_def)
  next
    case ty: False
    obtain pp where wp: "write_rctsig_prunable ?r (rct_type ?r) ?i ?o (first_mixin (vin tx)) = (True, pp)"
      using write_prunable_ok [OF b q ty] by auto
    have "read_rctsig_prunable (?r\<lparr>rangeSigs := [], MGs := []\<rparr>) (rct_type ?r) ?i ?o (first_mixin (vin tx)) (pp @ rest)
        = Some (?r, rest)"
      using read_prunable_back [OF b q ty, of rest] by (simp add: wp)
    then show ?thesis using ty False assms(2) read_prefix_back [OF p] rb sg
      by (simp add: write_transaction_def read_transaction_def out_seq_def write_prefix_ok [OF p] wb wp make_tx_def)
  qed
qed

lemma prefix_ok_make_tx [simp]: "prefix_ok mm (make_tx p sigs r) = prefix_ok mm p"
  by (simp add: prefix_ok_def make_tx_def)

lemma read_transaction_ok:
  assumes "read_transaction mm s = Some (tx, rest)"
  shows "tx_ok mm tx"
proof -
  from assms obtain p s1 where p: "read_prefix mm s = Some (p, s1)"
    by (auto simp: read_transaction_def Option.bind_eq_Some_conv)
  have ok: "prefix_ok mm p" by (rule read_prefix_ok [OF p])
  let ?i = "length (vin p)" let ?o = "length (vout p)"
  consider (v1) "version p \<le> 1" | (none) "\<not> version p \<le> 1" "vin p = []"
    | (rct) "\<not> version p \<le> 1" "vin p \<noteq> []" by blast
  then show ?thesis
  proof cases
    case v1
    with assms p obtain sigs where "tx = make_tx p sigs rct_null" "read_sigs (vin p) s1 = Some (sigs, rest)"
      by (auto simp: read_transaction_def Option.bind_eq_Some_conv)
    moreover have "sigs_ok (vin p) sigs" using calculation(2) by (rule read_sigs_ok)
    ultimately show ?thesis using ok v1 by (auto simp: tx_ok_def) (auto simp: make_tx_def)
  next
    case none
    with assms p have "tx = make_tx p [] rct_null" by (auto simp: read_transaction_def)
    with ok none show ?thesis by (simp add: tx_ok_def) (simp add: make_tx_def)
  next
    case rct
    with assms p obtain r s2 r' where r: "read_rctsig_base ?i ?o s1 = Some (r, s2)"
      and r': "(if rct_type r \<noteq> RCTTypeNull then read_rctsig_prunable r (rct_type r) ?i ?o (first_mixin (vin p)) s2
                else Some (r, s2)) = Some (r', rest)"
      and tx: "tx = make_tx p [] r'"
      by (auto simp: read_transaction_def Option.bind_eq_Some_conv)
    have b: "rct_base_ok ?i ?o r" using read_base_ok [OF r] by simp
    have "rct_base_ok ?i ?o r' \<and> rct_prunable_ok ?i ?o (first_mixin (vin p)) r'"
    proof (cases "rct_type r = RCTTypeNull")
      case True
      with r' b show ?thesis by (simp add: rct_prunable_ok_def)
    next
      case False
      with r' b show ?thesis using read_prunable_ok [of r ?i ?o "first_mixin (vin p)" s2 r' rest] by simp
    qed
    with ok rct show ?thesis by (simp add: tx tx_ok_def) (simp add: make_tx_def)
  qed
qed

lemma write_transaction_not_Nil: "prefix_ok mm tx \<Longrightarrow> snd (write_transaction mm tx) \<noteq> []"
  by (simp add: write_transaction_def out_seq_def write_prefix_ok write_varint_not_Nil)

interpretation tx_field: field "\<lambda>tx. snd (write_transaction mm tx)" "read_transaction mm" "tx_ok mm" for mm
proof
  fix tx rest
  show "read_transaction mm (snd (write_transaction mm tx) @ rest) = Some (tx, rest)" if "tx_ok mm tx"
    using read_transaction_back_v1 [OF that] read_transaction_back_v2 [OF that] by blast
  show "tx_ok mm tx" if "read_transaction mm s = Some (tx, rest)" for s
    using that by (rule read_transaction_ok)
  show "snd (write_transaction mm tx) \<noteq> []" if "tx_ok mm tx"
    using that by (simp add: tx_ok_def write_transaction_not_Nil)
qed

lemma write_transaction_succeeds: "tx_ok mm tx \<Longrightarrow> fst (write_transaction mm tx)"
  using read_transaction_back_v1 read_transaction_back_v2 by blast

lemma calculate_transaction_hash_ok:
  assumes "tx_ok mm tx"
  shows "\<exists>h. calculate_transaction_hash mm tx = Some (h, length (snd (write_transaction mm tx))) \<and> length h = 32"
proof (cases "version tx \<le> 1 \<or> vin tx = []")
  case True
  have "fst (write_rctsig_base rct_null n m)" and "rct_type rct_null = RCTTypeNull" for n m
    by (simp_all add: write_rctsig_base_def rct_null_def out_seq_def)
  moreover from True assms have "rct_signatures tx = rct_null" by (auto simp: tx_ok_def split: if_splits)
  ultimately show ?thesis
    by (simp add: calculate_transaction_hash_def Let_def cnh.hash_length)
next
  case False
  then have b: "rct_base_ok (length (vin tx)) (length (vout tx)) (rct_signatures tx)"
    and q: "rct_prunable_ok (length (vin tx)) (length (vout tx)) (first_mixin (vin tx)) (rct_signatures tx)"
    using assms by (simp_all add: tx_ok_def)
  have "rct_type (rct_signatures tx) \<noteq> RCTTypeNull \<longrightarrow>
      fst (write_rctsig_prunable (rct_signatures tx) (rct_type (rct_signatures tx)) (length (vin tx)) (length (vout tx))
            (first_mixin (vin tx)))"
    using write_prunable_ok [OF b q] by simp
  then show ?thesis using False write_base_ok [OF b]
    by (auto simp: calculate_transaction_hash_def Let_def cnh.hash_length)
qed

subsection \<open>Properties\<close>

text \<open> C21: a well-formed transaction of either version is serialized successfully, and parsing
  the blob gives the same transaction back.\<close>

theorem tx_round_trip:
  assumes "tx_ok False tx"
  shows "fst (write_transaction False tx) \<and> parse_and_validate_tx_from_blob (tx_to_blob tx) = Some tx"
  using write_transaction_succeeds [OF assms] tx_field.parse_back [OF assms]
  by (simp add: parse_and_validate_tx_from_blob_def tx_to_blob_def)

definition example_tx :: transaction where
  "example_tx = \<lparr> version = 1, unlock_time = 0,
     vin = [Txin_to_key \<lparr> in_amount = 7, key_offsets = [3, 4], k_image = replicate 32 5 \<rparr>],
     vout = [\<lparr> out_amount = 6, target = Txout_to_key (replicate 32 9) \<rparr>], extra = [],
     signatures = [[replicate 64 1, replicate 64 2]], rct_signatures = rct_null \<rparr>"

definition example_rct_tx :: transaction where
  "example_rct_tx = \<lparr> version = 2, unlock_time = 0,
     vin = [Txin_to_key \<lparr> in_amount = 0, key_offsets = [3], k_image = replicate 32 5 \<rparr>], vout = [],
     extra = [], signatures = [],
     rct_signatures = rct_null\<lparr> rct_type := RCTTypeFull, txnFee := 10,
       MGs := [\<lparr> ss = [[replicate 32 1, replicate 32 2]], cc = replicate 32 3 \<rparr>] \<rparr> \<rparr>"

lemma example_tx_ok: "tx_ok False example_tx"
  by (simp add: example_tx_def tx_ok_def prefix_ok_def version_accepted_def CURRENT_TRANSACTION_VERSION_def
        tx_out_ok_def get_signature_size_def)

lemma example_rct_tx_ok: "tx_ok False example_rct_tx"
  by (simp add: example_rct_tx_def tx_ok_def prefix_ok_def version_accepted_def CURRENT_TRANSACTION_VERSION_def
        rct_base_ok_def rct_prunable_ok_def rct_null_def mg_elements_def mg_ok_def row_ok_def mg_ss2_elements_def
        first_mixin_def word_le_nat_alt)

theorem tx_round_trip_witness:
  "parse_and_validate_tx_from_blob (tx_to_blob example_tx) = Some example_tx
   \<and> parse_and_validate_tx_from_blob (tx_to_blob example_rct_tx) = Some example_rct_tx"
  using tx_round_trip [OF example_tx_ok] tx_round_trip [OF example_rct_tx_ok] by simp

text \<open> C22: a transaction that was parsed from any blob is well formed: it serializes
  successfully, the blob it serializes to parses to the same transaction, and its hash is defined
  and has 32 bytes.\<close>

theorem tx_parse_stable:
  assumes "parse_and_validate_tx_from_blob b = Some tx"
  shows "tx_ok False tx \<and> fst (write_transaction False tx)
    \<and> parse_and_validate_tx_from_blob (tx_to_blob tx) = Some tx
    \<and> (\<exists>h. calculate_transaction_hash False tx = Some (h, length (tx_to_blob tx)) \<and> length h = 32)"
proof -
  have ok: "tx_ok False tx"
    using assms by (simp add: parse_and_validate_tx_from_blob_def tx_field.parse_ok)
  show ?thesis
    using ok write_transaction_succeeds [OF ok] tx_field.parse_back [OF ok] calculate_transaction_hash_ok [OF ok]
    by (simp add: parse_and_validate_tx_from_blob_def tx_to_blob_def)
qed

theorem tx_parse_stable_witness:
  "\<exists>b. parse_and_validate_tx_from_blob b = Some example_tx
    \<and> (\<exists>h n. calculate_transaction_hash False example_tx = Some (h, n) \<and> length h = 32)"
proof -
  have p: "parse_and_validate_tx_from_blob (snd (write_transaction False example_tx)) = Some example_tx"
    unfolding parse_and_validate_tx_from_blob_def by (rule tx_field.parse_back [OF example_tx_ok])
  show ?thesis using p tx_parse_stable [OF p] by blast
qed

text \<open>Parsing does not only accept the canonical encoding: the reader of the archive
  drops the error of \<open>read_varint\<close>, so a transaction has blobs that differ from the one it
  serializes to.\<close>

lemma tx_encoding_not_unique:
  "parse_and_validate_tx_from_blob [1, 0x80, 0, 0, 0, 0] = parse_and_validate_tx_from_blob [1, 0, 0, 0, 0]
   \<and> parse_and_validate_tx_from_blob [1, 0, 0, 0, 0] \<noteq> None"
  by code_simp

end
