(* ===== verification/Tx_Extra.thy ===== *)
theory Tx_Extra
  imports Transaction
begin

text \<open>
  The extra field of a transaction: \<open>cryptonote_basic/tx_extra.h\<close> and the functions of
  \<open>cryptonote_format_utils.cpp\<close> that read and extend it, with the payment ids and the swap
  address entries inside the extra nonce. Key derivation and the ChaCha8 stream are parameters.
\<close>

definition TX_EXTRA_PADDING_MAX_COUNT :: nat where "TX_EXTRA_PADDING_MAX_COUNT = 255"
definition TX_EXTRA_NONCE_MAX_COUNT :: nat where "TX_EXTRA_NONCE_MAX_COUNT = 255"
definition TX_EXTRA_TAG_PADDING :: u8 where "TX_EXTRA_TAG_PADDING = 0x00"
definition TX_EXTRA_TAG_PUBKEY :: u8 where "TX_EXTRA_TAG_PUBKEY = 0x01"
definition TX_EXTRA_NONCE :: u8 where "TX_EXTRA_NONCE = 0x02"
definition TX_EXTRA_MERGE_MINING_TAG :: u8 where "TX_EXTRA_MERGE_MINING_TAG = 0x03"
definition TX_EXTRA_MYSTERIOUS_MINERGATE_TAG :: u8 where "TX_EXTRA_MYSTERIOUS_MINERGATE_TAG = 0xDE"
definition TX_EXTRA_NONCE_PAYMENT_ID :: u8 where "TX_EXTRA_NONCE_PAYMENT_ID = 0x00"
definition TX_EXTRA_NONCE_ENCRYPTED_PAYMENT_ID :: u8 where "TX_EXTRA_NONCE_ENCRYPTED_PAYMENT_ID = 0x01"
definition TX_EXTRA_NONCE_SWAP_DATA :: u8 where "TX_EXTRA_NONCE_SWAP_DATA = 0x02"

lemmas extra_tags = TX_EXTRA_TAG_PADDING_def TX_EXTRA_TAG_PUBKEY_def TX_EXTRA_NONCE_def
  TX_EXTRA_MERGE_MINING_TAG_def TX_EXTRA_MYSTERIOUS_MINERGATE_TAG_def

lemmas nonce_tags = TX_EXTRA_NONCE_PAYMENT_ID_def TX_EXTRA_NONCE_ENCRYPTED_PAYMENT_ID_def
  TX_EXTRA_NONCE_SWAP_DATA_def

record tx_extra_merge_mining_tag =
  mm_depth :: u64
  mm_merkle_root :: blob

datatype tx_extra_field =
    Tx_extra_padding nat
  | Tx_extra_pub_key blob
  | Tx_extra_nonce blob
  | Tx_extra_merge_mining_tag tx_extra_merge_mining_tag
  | Tx_extra_mysterious_minergate blob

subsection \<open>Reading the fields\<close>

text \<open>The loop counts up from 1, because of the variant tag, and stops at the end of the input.\<close>

fun read_padding :: "nat \<Rightarrow> nat reader" where
  "read_padding sz [] = (if sz \<le> TX_EXTRA_PADDING_MAX_COUNT then Some (sz, []) else None)"
| "read_padding sz (zero # s) =
     (if \<not> sz \<le> TX_EXTRA_PADDING_MAX_COUNT then None
      else if zero \<noteq> 0 then None
      else read_padding (sz + 1) s)"

definition read_nonce :: "blob reader" where
  "read_nonce s =
     do { (nonce, s) \<leftarrow> read_string s;
          if TX_EXTRA_NONCE_MAX_COUNT < length nonce then None else Some (nonce, s) }"

definition read_mm_helper :: "tx_extra_merge_mining_tag reader" where
  "read_mm_helper s =
     do { (depth, s) \<leftarrow> read_uvarint s; (root, s) \<leftarrow> read_blob 32 s;
          Some (\<lparr> mm_depth = depth, mm_merkle_root = root \<rparr>, s) }"

definition read_mm_tag :: "tx_extra_merge_mining_tag reader" where
  "read_mm_tag s =
     do { (fld, s) \<leftarrow> read_string s; tag \<leftarrow> parse_binary read_mm_helper fld; Some (tag, s) }"

definition read_extra_field :: "tx_extra_field reader" where
  "read_extra_field s =
     do { (t, s) \<leftarrow> read_byte s;
          if t = TX_EXTRA_TAG_PADDING then do { (n, s) \<leftarrow> read_padding 1 s; Some (Tx_extra_padding n, s) }
          else if t = TX_EXTRA_TAG_PUBKEY then do { (k, s) \<leftarrow> read_blob 32 s; Some (Tx_extra_pub_key k, s) }
          else if t = TX_EXTRA_NONCE then do { (n, s) \<leftarrow> read_nonce s; Some (Tx_extra_nonce n, s) }
          else if t = TX_EXTRA_MERGE_MINING_TAG then
            do { (m, s) \<leftarrow> read_mm_tag s; Some (Tx_extra_merge_mining_tag m, s) }
          else if t = TX_EXTRA_MYSTERIOUS_MINERGATE_TAG then
            do { (d, s) \<leftarrow> read_string s; Some (Tx_extra_mysterious_minergate d, s) }
          else None }"

subsection \<open>Every field takes at least one byte\<close>

lemma read_varint_loop_length:
  "read_varint_loop bits shift r w s = (n, v, rest) \<Longrightarrow> length rest \<le> length s"
  by (induction bits shift r w s rule: read_varint_loop.induct) (auto simp: Let_def split: if_splits)

lemma read_uvarint_length: "read_uvarint s = Some (v, rest) \<Longrightarrow> length rest \<le> length s"
  by (auto simp: read_uvarint_def read_varint_def read_varint_bits_def split: prod.splits
           dest: read_varint_loop_length)

lemma read_string_length: "read_string s = Some (x, rest) \<Longrightarrow> length rest \<le> length s"
  by (auto simp: read_string_def Option.bind_eq_Some_conv read_blob_def split: if_splits dest!: read_uvarint_length)

lemma read_padding_length: "read_padding n s = Some (m, rest) \<Longrightarrow> length rest \<le> length s"
  by (induction n s rule: read_padding.induct) (auto split: if_splits)

lemma read_extra_field_length: "read_extra_field s = Some (f, rest) \<Longrightarrow> length rest < length s"
  by (cases s)
     (auto simp: read_extra_field_def read_nonce_def read_mm_tag_def Option.bind_eq_Some_conv read_blob_def
           split: if_splits dest!: read_padding_length read_string_length)

subsection \<open>Operations\<close>

text \<open>The result and the fields read before a failure.\<close>

function parse_extra_loop :: "blob \<Rightarrow> bool \<times> tx_extra_field list" where
  "parse_extra_loop s =
     (case read_extra_field s of
        None \<Rightarrow> (False, [])
      | Some (fld, rest) \<Rightarrow>
          if rest = [] then (True, [fld])
          else let (ok, flds) = parse_extra_loop rest in (ok, fld # flds))"
  by pat_completeness auto
termination
  by (relation "measure length") (auto dest: read_extra_field_length)

declare parse_extra_loop.simps [simp del]

definition parse_tx_extra :: "blob \<Rightarrow> bool \<times> tx_extra_field list" where
  "parse_tx_extra tx_extra = (if tx_extra = [] then (True, []) else parse_extra_loop tx_extra)"

text \<open>The search for a field of one type, with the lambda that counts the index down.\<close>

fun find_tx_extra_field_by_type :: "(tx_extra_field \<Rightarrow> 'a option) \<Rightarrow> tx_extra_field list \<Rightarrow> nat \<Rightarrow> 'a option" where
  "find_tx_extra_field_by_type sel [] index = None"
| "find_tx_extra_field_by_type sel (f # flds) index =
     (case sel f of
        None \<Rightarrow> find_tx_extra_field_by_type sel flds index
      | Some x \<Rightarrow> if index = 0 then Some x else find_tx_extra_field_by_type sel flds (index - 1))"

fun as_pub_key :: "tx_extra_field \<Rightarrow> blob option" where
  "as_pub_key (Tx_extra_pub_key k) = Some k"
| "as_pub_key _ = None"

fun as_nonce :: "tx_extra_field \<Rightarrow> blob option" where
  "as_nonce (Tx_extra_nonce n) = Some n"
| "as_nonce _ = None"

fun as_mm_tag :: "tx_extra_field \<Rightarrow> tx_extra_merge_mining_tag option" where
  "as_mm_tag (Tx_extra_merge_mining_tag m) = Some m"
| "as_mm_tag _ = None"

definition get_tx_pub_key_from_extra :: "blob \<Rightarrow> nat \<Rightarrow> blob" where
  "get_tx_pub_key_from_extra tx_extra pk_index =
     (case find_tx_extra_field_by_type as_pub_key (snd (parse_tx_extra tx_extra)) pk_index of
        None \<Rightarrow> replicate 32 0 | Some k \<Rightarrow> k)"

definition add_tx_pub_key_to_extra :: "blob \<Rightarrow> blob \<Rightarrow> blob" where
  "add_tx_pub_key_to_extra tx_extra tx_pub_key = tx_extra @ TX_EXTRA_TAG_PUBKEY # tx_pub_key"

definition add_extra_nonce_to_tx_extra :: "blob \<Rightarrow> blob \<Rightarrow> bool \<times> blob" where
  "add_extra_nonce_to_tx_extra tx_extra extra_nonce =
     (if \<not> length extra_nonce \<le> TX_EXTRA_NONCE_MAX_COUNT then (False, tx_extra)
      else (True, tx_extra @ TX_EXTRA_NONCE # of_nat (length extra_nonce) # extra_nonce))"

definition write_mm_tag :: "tx_extra_merge_mining_tag \<Rightarrow> blob" where
  "write_mm_tag m = write_string (write_varint (mm_depth m) @ mm_merkle_root m)"

fun write_extra_field :: "tx_extra_field \<Rightarrow> written" where
  "write_extra_field (Tx_extra_padding n) =
     out_seq (out_put [TX_EXTRA_TAG_PADDING])
       (if TX_EXTRA_PADDING_MAX_COUNT < n then (False, []) else (True, replicate (n - 1) 0))"
| "write_extra_field (Tx_extra_pub_key k) = (True, TX_EXTRA_TAG_PUBKEY # k)"
| "write_extra_field (Tx_extra_nonce n) =
     out_seq (out_put (TX_EXTRA_NONCE # write_string n)) (out_guard (\<not> TX_EXTRA_NONCE_MAX_COUNT < length n))"
| "write_extra_field (Tx_extra_merge_mining_tag m) = (True, TX_EXTRA_MERGE_MINING_TAG # write_mm_tag m)"
| "write_extra_field (Tx_extra_mysterious_minergate d) = (True, TX_EXTRA_MYSTERIOUS_MINERGATE_TAG # write_string d)"

text \<open>
  Every field is read and the ones of another type are written to a new stream, whose result is
  not tested; the output of a field that fails stays in the stream up to the failure, after which
  the variant serializer has set the fail bit and nothing more is written.
\<close>

definition remove_field_from_tx_extra :: "blob \<Rightarrow> (tx_extra_field \<Rightarrow> bool) \<Rightarrow> bool \<times> blob" where
  "remove_field_from_tx_extra tx_extra of_type =
     (if tx_extra = [] then (True, tx_extra)
      else let (ok, flds) = parse_extra_loop tx_extra
           in if \<not> ok then (False, tx_extra)
              else (True, snd (out_list (map write_extra_field (filter (\<lambda>f. \<not> of_type f) flds)))))"

definition append_mm_tag_to_extra :: "blob \<Rightarrow> tx_extra_merge_mining_tag \<Rightarrow> blob" where
  "append_mm_tag_to_extra tx_extra mm_tag = tx_extra @ TX_EXTRA_MERGE_MINING_TAG # write_mm_tag mm_tag"

definition get_mm_tag_from_extra :: "blob \<Rightarrow> tx_extra_merge_mining_tag option" where
  "get_mm_tag_from_extra tx_extra =
     (let (ok, flds) = parse_tx_extra tx_extra
      in if \<not> ok then None else find_tx_extra_field_by_type as_mm_tag flds 0)"

subsection \<open>Payment ids\<close>

definition set_payment_id_to_tx_extra_nonce :: "blob \<Rightarrow> blob" where
  "set_payment_id_to_tx_extra_nonce payment_id = TX_EXTRA_NONCE_PAYMENT_ID # payment_id"

definition set_encrypted_payment_id_to_tx_extra_nonce :: "blob \<Rightarrow> blob" where
  "set_encrypted_payment_id_to_tx_extra_nonce payment_id = TX_EXTRA_NONCE_ENCRYPTED_PAYMENT_ID # payment_id"

definition get_payment_id_from_tx_extra_nonce :: "blob \<Rightarrow> blob option" where
  "get_payment_id_from_tx_extra_nonce extra_nonce =
     (if 32 + 1 \<noteq> length extra_nonce then None
      else if TX_EXTRA_NONCE_PAYMENT_ID \<noteq> extra_nonce ! 0 then None
      else Some (take 32 (drop 1 extra_nonce)))"

definition get_payment_id_from_swap_tx_extra_nonce :: "blob \<Rightarrow> blob option" where
  "get_payment_id_from_swap_tx_extra_nonce extra_nonce =
     (if 32 + 1 > length extra_nonce then None
      else if TX_EXTRA_NONCE_PAYMENT_ID \<noteq> extra_nonce ! 0 then None
      else Some (take 32 (drop 1 extra_nonce)))"

definition get_encrypted_payment_id_from_tx_extra_nonce :: "blob \<Rightarrow> blob option" where
  "get_encrypted_payment_id_from_tx_extra_nonce extra_nonce =
     (if 8 + 1 \<noteq> length extra_nonce then None
      else if TX_EXTRA_NONCE_ENCRYPTED_PAYMENT_ID \<noteq> extra_nonce ! 0 then None
      else Some (take 8 (drop 1 extra_nonce)))"

definition ENCRYPTED_PAYMENT_ID_TAIL :: u8 where "ENCRYPTED_PAYMENT_ID_TAIL = 0x8d"

definition encrypt_payment_id :: "(blob \<Rightarrow> blob \<Rightarrow> blob option) \<Rightarrow> blob \<Rightarrow> blob \<Rightarrow> blob \<Rightarrow> blob option" where
  "encrypt_payment_id generate_key_derivation payment_id public_key secret_key =
     (case generate_key_derivation public_key secret_key of
        None \<Rightarrow> None
      | Some derivation \<Rightarrow>
          let hash = cn_fast_hash (derivation @ [ENCRYPTED_PAYMENT_ID_TAIL])
          in Some (map (\<lambda>b. payment_id ! b XOR hash ! b) [0..<8]))"

definition decrypt_payment_id :: "(blob \<Rightarrow> blob \<Rightarrow> blob option) \<Rightarrow> blob \<Rightarrow> blob \<Rightarrow> blob \<Rightarrow> blob option" where
  "decrypt_payment_id = encrypt_payment_id"

subsection \<open>Swap addresses\<close>

text \<open>The packed structure of the two public keys and a checksum of four bytes.\<close>

definition swap_entry_size :: nat where "swap_entry_size = 68"

definition cn_fast_hash_64 :: "blob \<Rightarrow> blob" where
  "cn_fast_hash_64 data =
     (let h = cn_fast_hash data; idx = unat (h ! 5 mod 4) in take 8 (drop (8 * idx) h))"

text \<open>The low half of the little-endian number.\<close>

definition calc_checksum :: "blob \<Rightarrow> blob" where
  "calc_checksum addr = take 4 (cn_fast_hash_64 addr)"

definition fill_swapinfo_userdata_entry :: "blob \<Rightarrow> bool \<Rightarrow> blob \<Rightarrow> bool \<times> blob" where
  "fill_swapinfo_userdata_entry extra_nonce is_swap_addr addr =
     (if is_swap_addr
      then (True, extra_nonce @ TX_EXTRA_NONCE_SWAP_DATA # of_nat swap_entry_size # addr @ calc_checksum addr)
      else (False, extra_nonce))"

definition set_swap_tx_extra :: "blob \<Rightarrow> blob \<Rightarrow> bool \<Rightarrow> blob \<Rightarrow> bool \<times> blob" where
  "set_swap_tx_extra ex payment_id is_swap_addr addr =
     (let pid = set_payment_id_to_tx_extra_nonce payment_id;
          (ret, swp) = fill_swapinfo_userdata_entry [] is_swap_addr addr
      in if ret then (True, ex @ TX_EXTRA_NONCE # of_nat (length pid + length swp) # pid @ swp)
         else (False, ex))"

text \<open>
  The tests \<open>size - 1 - i >= n\<close> are on unsigned numbers with \<open>i < size\<close>, so they are \<open>n + i + 1 <= size\<close>.
  The index may pass the end by the fixed step; the loop then ends.
\<close>

function swapdata_loop :: "blob \<Rightarrow> nat \<Rightarrow> blob option" where
  "swapdata_loop nonce i =
     (if i < length nonce
      then if nonce ! i \<noteq> TX_EXTRA_NONCE_SWAP_DATA
           then if \<not> i + 2 \<le> length nonce then None
                else if nonce ! i = TX_EXTRA_NONCE_PAYMENT_ID \<or> nonce ! i = TX_EXTRA_NONCE_ENCRYPTED_PAYMENT_ID
                then swapdata_loop nonce (i + (32 + 1))
                else None
           else if \<not> i + 2 \<le> length nonce then None
           else let data_size = unat (nonce ! (i + 1))
                in if data_size \<noteq> swap_entry_size then None
                   else if \<not> i + 1 + data_size + 1 \<le> length nonce then None
                   else Some (take data_size (drop (i + 2) nonce))
      else None)"
  by pat_completeness auto
termination by (relation "measure (\<lambda>(nonce, i). length nonce - i)") auto

declare swapdata_loop.simps [simp del]

definition get_swapdata_encrypted_buff_from_extra_nonce :: "blob \<Rightarrow> blob option" where
  "get_swapdata_encrypted_buff_from_extra_nonce extra_nonce =
     (if extra_nonce = [] then None else swapdata_loop extra_nonce 0)"

definition is_checksum_valid :: "blob \<Rightarrow> bool" where
  "is_checksum_valid entry \<longleftrightarrow> drop 64 entry = calc_checksum (take 64 entry)"

text \<open>The decrypted address of the two keys, or \<open>None\<close>.\<close>

definition get_swap_data_from_tx ::
    "(blob \<Rightarrow> blob \<Rightarrow> blob option) \<Rightarrow> (blob \<Rightarrow> blob \<Rightarrow> blob option) \<Rightarrow> transaction \<Rightarrow> blob \<Rightarrow> blob option" where
  "get_swap_data_from_tx generate_key_derivation do_chacha_crypt tx sk =
     (let (ret, flds) = parse_tx_extra (extra tx)
      in if \<not> ret then None
         else case find_tx_extra_field_by_type as_nonce flds 0 of
                None \<Rightarrow> None
              | Some nonce \<Rightarrow>
                  let tx_pub = get_tx_pub_key_from_extra (extra tx) 0
                  in if tx_pub = replicate 32 0 then None
                     else do { buff \<leftarrow> get_swapdata_encrypted_buff_from_extra_nonce nonce;
                               derivation \<leftarrow> generate_key_derivation tx_pub sk;
                               buff \<leftarrow> do_chacha_crypt buff derivation;
                               if length buff \<noteq> swap_entry_size then None
                               else if \<not> is_checksum_valid buff then None
                               else Some (take 64 buff) })"

subsection \<open>The fields are read back\<close>

fun extra_field_ok :: "tx_extra_field \<Rightarrow> bool" where
  "extra_field_ok (Tx_extra_padding n) = (1 \<le> n \<and> n \<le> TX_EXTRA_PADDING_MAX_COUNT)"
| "extra_field_ok (Tx_extra_pub_key k) = (length k = 32)"
| "extra_field_ok (Tx_extra_nonce n) = (length n \<le> TX_EXTRA_NONCE_MAX_COUNT)"
| "extra_field_ok (Tx_extra_merge_mining_tag m) = (length (mm_merkle_root m) = 32)"
| "extra_field_ok (Tx_extra_mysterious_minergate d) = (length d < 2 ^ 64)"

fun is_padding :: "tx_extra_field \<Rightarrow> bool" where
  "is_padding (Tx_extra_padding n) = True"
| "is_padding _ = False"

text \<open>A padding extends to the end of the extra field, so only the last field can be one.\<close>

fun extra_ok :: "tx_extra_field list \<Rightarrow> bool" where
  "extra_ok [] = True"
| "extra_ok (f # flds) = (extra_field_ok f \<and> (is_padding f \<longrightarrow> flds = []) \<and> extra_ok flds)"

lemma write_varint_length: "length (write_varint (v :: u64)) \<le> 10"
proof -
  have *: "length (write_varint w) \<le> n" if "unat w < 2 ^ (7 * n)" "0 < n" for w :: u64 and n
    using that
  proof (induction n arbitrary: w)
    case (Suc n)
    show ?case
    proof (cases "unat w < 128")
      case True
      then show ?thesis by (subst write_varint.simps) simp
    next
      case False
      then have "0 < n" using Suc.prems(1) by (cases n) auto
      moreover have "unat (drop_bit 7 w) < 2 ^ (7 * n)"
        using Suc.prems(1) by (simp add: unat_drop_bit less_mult_imp_div_less power_add mult.commute)
      ultimately show ?thesis using Suc.IH [of "drop_bit 7 w"] False by (subst write_varint.simps) simp
    qed
  qed simp
  show ?thesis using * [of v 10] unat_less_u64 [of v] by simp
qed

lemma read_mm_tag_back:
  "length (mm_merkle_root m) = 32 \<Longrightarrow> read_mm_tag (write_mm_tag m @ rest) = Some (m, rest)"
proof -
  assume l: "length (mm_merkle_root m) = 32"
  let ?f = "write_varint (mm_depth m) @ mm_merkle_root m"
  have "length ?f < 2 ^ 64" using write_varint_length [of "mm_depth m"] l by simp
  moreover have "read_mm_helper ?f = Some (m, [])"
    using l read_blob_back [of "mm_merkle_root m" 32 "[]"]
    by (simp add: read_mm_helper_def read_uvarint_back)
  ultimately show ?thesis
    by (simp add: read_mm_tag_def write_mm_tag_def string_field.read_back parse_binary_def)
qed

lemma read_extra_field_back:
  assumes "extra_field_ok f" "\<not> is_padding f"
  shows "read_extra_field (snd (write_extra_field f) @ rest) = Some (f, rest)"
  using assms
proof (cases f)
  case (Tx_extra_nonce n)
  with assms have "length n < 2 ^ 64" by (simp add: TX_EXTRA_NONCE_MAX_COUNT_def)
  with Tx_extra_nonce assms show ?thesis
    by (simp add: read_extra_field_def read_nonce_def string_field.read_back out_seq_def extra_tags)
qed (simp_all add: read_extra_field_def extra_tags read_mm_tag_back read_blob_back string_field.read_back)

lemma read_padding_zeros:
  "sz + n \<le> TX_EXTRA_PADDING_MAX_COUNT \<Longrightarrow> read_padding sz (replicate n 0) = Some (sz + n, [])"
  by (induction n arbitrary: sz) simp_all

lemma read_extra_padding_back:
  assumes "extra_field_ok (Tx_extra_padding n)"
  shows "read_extra_field (snd (write_extra_field (Tx_extra_padding n))) = Some (Tx_extra_padding n, [])"
  using assms read_padding_zeros [of 1 "n - 1"]
  by (auto simp: read_extra_field_def out_seq_def extra_tags)

lemma write_extra_field_ok: "extra_field_ok f \<Longrightarrow> fst (write_extra_field f) \<and> snd (write_extra_field f) \<noteq> []"
  by (cases f) (auto simp: out_seq_def)

lemma write_extra_fields:
  "extra_ok flds \<Longrightarrow> out_list (map write_extra_field flds) = (True, concat (map (\<lambda>f. snd (write_extra_field f)) flds))"
  by (induction flds) (auto simp: out_seq_def write_extra_field_ok)

lemma parse_extra_back:
  "extra_ok flds \<Longrightarrow> parse_tx_extra (concat (map (\<lambda>f. snd (write_extra_field f)) flds)) = (True, flds)"
proof (induction flds)
  case (Cons f flds)
  let ?w = "snd (write_extra_field f)" let ?rest = "concat (map (\<lambda>f. snd (write_extra_field f)) flds)"
  have ne: "?w \<noteq> []" using Cons.prems write_extra_field_ok [of f] by simp
  have rd: "read_extra_field (?w @ ?rest) = Some (f, ?rest)"
  proof (cases "is_padding f")
    case True
    then obtain n where "f = Tx_extra_padding n" by (cases f) auto
    with True Cons.prems show ?thesis using read_extra_padding_back [of n] by simp
  next
    case False
    with Cons.prems show ?thesis by (simp add: read_extra_field_back)
  qed
  have nil: "?rest = [] \<Longrightarrow> flds = []"
    using Cons.prems write_extra_field_ok by (cases flds) auto
  obtain rest where rest: "rest = ?rest" by simp
  have ih: "parse_tx_extra rest = (True, flds)" using Cons by (simp add: rest)
  have "parse_extra_loop (?w @ rest) = (True, f # flds)"
    using rd ih nil unfolding rest [symmetric]
    by (subst parse_extra_loop.simps) (auto simp: parse_tx_extra_def split: if_splits)
  then show ?case using ne by (simp add: parse_tx_extra_def rest)
qed (simp add: parse_tx_extra_def)

lemma extra_ok_append: "extra_ok flds \<Longrightarrow> \<not> list_ex is_padding flds \<Longrightarrow> extra_field_ok f \<Longrightarrow> extra_ok (flds @ [f])"
  by (induction flds) auto

definition extra_bytes :: "tx_extra_field list \<Rightarrow> blob" where
  "extra_bytes flds = snd (out_list (map write_extra_field flds))"

lemma extra_bytes_parse: "extra_ok flds \<Longrightarrow> parse_tx_extra (extra_bytes flds) = (True, flds)"
  by (simp add: extra_bytes_def write_extra_fields parse_extra_back)

lemma extra_bytes_snoc:
  "extra_ok flds \<Longrightarrow> \<not> list_ex is_padding flds \<Longrightarrow> extra_field_ok f \<Longrightarrow>
     extra_bytes (flds @ [f]) = extra_bytes flds @ snd (write_extra_field f)"
  using write_extra_fields [OF extra_ok_append, of flds f] by (simp add: extra_bytes_def write_extra_fields)

lemma write_varint_small: "n < 128 \<Longrightarrow> write_varint (of_nat n :: u64) = [of_nat n]"
proof -
  assume n: "n < 128"
  have u: "unat (of_nat n :: u64) = n" using n by (simp add: unat_of_nat_u64)
  have "(ucast (of_nat n :: u64) :: u8) = of_nat n"
    using n by (simp add: word_unat_eq_iff unsigned_ucast_eq u unsigned_of_nat take_bit_eq_mod)
  with u n show ?thesis by (subst write_varint.simps) simp
qed

lemma add_extra_nonce_bytes:
  "length nonce < 128 \<Longrightarrow> extra_ok flds \<Longrightarrow> \<not> list_ex is_padding flds \<Longrightarrow>
     add_extra_nonce_to_tx_extra (extra_bytes flds) nonce = (True, extra_bytes (flds @ [Tx_extra_nonce nonce]))"
  by (simp add: add_extra_nonce_to_tx_extra_def extra_bytes_snoc TX_EXTRA_NONCE_MAX_COUNT_def write_string_def
        write_varint_small out_seq_def)

lemma xor_list_twice:
  "length xs = 8 \<Longrightarrow> map (\<lambda>b. map (\<lambda>b. xs ! b XOR ys ! b) [0..<8] ! b XOR ys ! b) [0..<8] = (xs :: blob)"
  by (rule nth_equalityI) (simp_all add: xor.assoc)

lemma set_swap_nonce:
  assumes "length payment_id = 32" "length addr = 64"
  defines "nonce \<equiv> TX_EXTRA_NONCE_PAYMENT_ID # payment_id
      @ TX_EXTRA_NONCE_SWAP_DATA # of_nat swap_entry_size # addr @ calc_checksum addr"
  shows "set_swap_tx_extra ex payment_id True addr = (True, ex @ TX_EXTRA_NONCE # of_nat (length nonce) # nonce)"
    and "length nonce = 103"
    and "swapdata_loop nonce 33 = Some (addr @ calc_checksum addr)"
proof -
  have c: "length (calc_checksum addr) = 4"
  proof -
    have "unat (cn_fast_hash addr ! 5 mod 4) < 4" by (simp add: unat_mod)
    then show ?thesis by (simp add: calc_checksum_def cn_fast_hash_64_def Let_def cnh.hash_length)
  qed
  show len: "length nonce = 103" using assms c by (simp add: nonce_def)
  show "set_swap_tx_extra ex payment_id True addr = (True, ex @ TX_EXTRA_NONCE # of_nat (length nonce) # nonce)"
    by (simp add: set_swap_tx_extra_def fill_swapinfo_userdata_entry_def set_payment_id_to_tx_extra_nonce_def nonce_def)
  have n33: "nonce ! 33 = TX_EXTRA_NONCE_SWAP_DATA" "nonce ! 34 = of_nat swap_entry_size"
      "drop 35 nonce = addr @ calc_checksum addr"
    using assms by (simp_all add: nonce_def nth_append nth_Cons')
  show "swapdata_loop nonce 33 = Some (addr @ calc_checksum addr)"
    using assms(2) c by (subst swapdata_loop.simps) (simp add: len n33 swap_entry_size_def)
qed

subsection \<open>Properties\<close>

text \<open>The extra field made of any list of well-formed fields, with at most a final
  padding, parses to exactly these fields; a public key that is then appended is found as the
  next one, and an extra nonce of fewer than 128 bytes is appended and parsed back.\<close>

lemma extra_round_trip:
  assumes "extra_ok flds"
  shows "parse_tx_extra (extra_bytes flds) = (True, flds)
    \<and> (\<not> list_ex is_padding flds \<longrightarrow>
         (length key = 32 \<longrightarrow>
            parse_tx_extra (add_tx_pub_key_to_extra (extra_bytes flds) key) = (True, flds @ [Tx_extra_pub_key key]))
       \<and> (length nonce < 128 \<longrightarrow>
            fst (add_extra_nonce_to_tx_extra (extra_bytes flds) nonce)
            \<and> parse_tx_extra (snd (add_extra_nonce_to_tx_extra (extra_bytes flds) nonce)) = (True, flds @ [Tx_extra_nonce nonce])))"
proof (intro conjI impI)
  show "parse_tx_extra (extra_bytes flds) = (True, flds)" by (rule extra_bytes_parse [OF assms])
  assume np: "\<not> list_ex is_padding flds"
  show "parse_tx_extra (add_tx_pub_key_to_extra (extra_bytes flds) key) = (True, flds @ [Tx_extra_pub_key key])"
    if "length key = 32"
    using extra_bytes_parse [OF extra_ok_append [OF assms np], of "Tx_extra_pub_key key"] that
    by (simp add: add_tx_pub_key_to_extra_def extra_bytes_snoc assms np)
  assume n: "length nonce < 128"
  note add = add_extra_nonce_bytes [OF n assms np]
  show "fst (add_extra_nonce_to_tx_extra (extra_bytes flds) nonce)" by (simp add: add)
  show "parse_tx_extra (snd (add_extra_nonce_to_tx_extra (extra_bytes flds) nonce)) = (True, flds @ [Tx_extra_nonce nonce])"
    using extra_bytes_parse [OF extra_ok_append [OF assms np], of "Tx_extra_nonce nonce"] n
    by (simp add: add TX_EXTRA_NONCE_MAX_COUNT_def)
qed

lemma extra_round_trip_witness:
  "parse_tx_extra (add_tx_pub_key_to_extra (extra_bytes [Tx_extra_nonce [1, 2]]) (replicate 32 7)) =
     (True, [Tx_extra_nonce [1, 2], Tx_extra_pub_key (replicate 32 7)])"
proof -
  have "extra_ok [Tx_extra_nonce [1, 2]]" by (simp add: TX_EXTRA_NONCE_MAX_COUNT_def)
  from extra_round_trip [OF this, of "replicate 32 7" "[]"] show ?thesis by simp
qed

text \<open> The writer of the extra nonce stores the length in one byte while the reader takes
  a varint, so an accepted nonce of 128 bytes or more is not found when the extra field is
  parsed.\<close>

lemma long_extra_nonce_lost:
  "fst (add_extra_nonce_to_tx_extra [] (replicate 200 7))
   \<and> \<not> fst (parse_tx_extra (snd (add_extra_nonce_to_tx_extra [] (replicate 200 7))))"
proof -
  have e: "snd (add_extra_nonce_to_tx_extra [] (replicate 200 7)) = 2 # 0xc8 # 7 # replicate 199 7"
    by (simp add: add_extra_nonce_to_tx_extra_def TX_EXTRA_NONCE_MAX_COUNT_def TX_EXTRA_NONCE_def
          flip: replicate_Suc)
  have "read_uvarint (0xc8 # 7 # s) = Some (0x3c8 :: u64, s)" for s
    by (simp add: read_uvarint_def read_varint_def read_varint_bits_def byte_and_0x80)
  then have "read_extra_field (2 # 0xc8 # 7 # replicate 199 7) = None"
    by (simp add: read_extra_field_def extra_tags read_nonce_def read_string_def)
  then show ?thesis
    by (simp add: e parse_tx_extra_def parse_extra_loop.simps)
       (simp add: add_extra_nonce_to_tx_extra_def TX_EXTRA_NONCE_MAX_COUNT_def)
qed

text \<open>Payment ids: a plain payment id is read back from the nonce it was put in, and an
  encrypted one is read back and decrypted by the same derivation to the id that was
  encrypted.\<close>

lemma payment_id_round_trip:
  assumes "length pid = 32" and "length pid8 = 8"
    and "encrypt_payment_id generate_key_derivation pid8 pk sk = Some cipher"
    and "generate_key_derivation pk' sk' = generate_key_derivation pk sk"
  shows "get_payment_id_from_tx_extra_nonce (set_payment_id_to_tx_extra_nonce pid) = Some pid
    \<and> get_encrypted_payment_id_from_tx_extra_nonce (set_encrypted_payment_id_to_tx_extra_nonce cipher) = Some cipher
    \<and> decrypt_payment_id generate_key_derivation cipher pk' sk' = Some pid8"
proof -
  obtain d where d: "generate_key_derivation pk sk = Some d"
    using assms(3) by (auto simp: encrypt_payment_id_def split: option.splits)
  let ?h = "cn_fast_hash (d @ [ENCRYPTED_PAYMENT_ID_TAIL])"
  have c: "cipher = map (\<lambda>b. pid8 ! b XOR ?h ! b) [0..<8]"
    using assms(3) by (simp add: encrypt_payment_id_def d Let_def)
  show ?thesis
    using assms(1,2,4) xor_list_twice [OF assms(2), of ?h]
    by (simp add: get_payment_id_from_tx_extra_nonce_def set_payment_id_to_tx_extra_nonce_def
          get_encrypted_payment_id_from_tx_extra_nonce_def set_encrypted_payment_id_to_tx_extra_nonce_def
          decrypt_payment_id_def encrypt_payment_id_def d Let_def c)
qed

lemma payment_id_round_trip_witness:
  "\<exists>cipher. decrypt_payment_id (\<lambda>pk sk. Some (replicate 32 3)) cipher [1] [2] = Some [1, 2, 3, 4, 5, 6, 7, 8]"
proof -
  let ?g = "\<lambda>pk sk. Some (replicate 32 3)"
  obtain cipher where c: "encrypt_payment_id ?g [1, 2, 3, 4, 5, 6, 7, 8] [5] [6] = Some cipher"
    by (simp add: encrypt_payment_id_def)
  have "length (replicate 32 0 :: blob) = 32" "length [1, 2, 3, 4, 5, 6, 7, 8 :: u8] = 8" by simp_all
  from payment_id_round_trip [OF this c, where pk' = "[1]" and sk' = "[2]"]
  show ?thesis by blast
qed

text \<open>A swap transaction's extra field parses to one nonce, from which the payment id
  and the swap entry are read, and the entry carries the checksum of its address.\<close>

lemma swap_extra_found:
  assumes "length payment_id = 32" and "length addr = 64"
  shows "\<exists>ex nonce. set_swap_tx_extra [] payment_id True addr = (True, ex)
    \<and> parse_tx_extra ex = (True, [Tx_extra_nonce nonce])
    \<and> get_payment_id_from_swap_tx_extra_nonce nonce = Some payment_id
    \<and> get_swapdata_encrypted_buff_from_extra_nonce nonce = Some (addr @ calc_checksum addr)
    \<and> is_checksum_valid (addr @ calc_checksum addr)"
proof -
  let ?n = "TX_EXTRA_NONCE_PAYMENT_ID # payment_id
      @ TX_EXTRA_NONCE_SWAP_DATA # of_nat swap_entry_size # addr @ calc_checksum addr"
  note n = set_swap_nonce(1) [OF assms, of "[]"] set_swap_nonce(2,3) [OF assms]
  have small: "length ?n < 128" by (simp only: n(2))
  have "extra_bytes [Tx_extra_nonce ?n] = TX_EXTRA_NONCE # of_nat (length ?n) # ?n"
    using add_extra_nonce_bytes [OF small, of "[]"] small
    by (simp add: add_extra_nonce_to_tx_extra_def extra_bytes_def TX_EXTRA_NONCE_MAX_COUNT_def del: out_list.simps(2))
  moreover have "extra_ok [Tx_extra_nonce ?n]" using small by (simp add: TX_EXTRA_NONCE_MAX_COUNT_def)
  ultimately have p: "parse_tx_extra (TX_EXTRA_NONCE # of_nat (length ?n) # ?n) = (True, [Tx_extra_nonce ?n])"
    using extra_bytes_parse [of "[Tx_extra_nonce ?n]"] by simp
  have "get_swapdata_encrypted_buff_from_extra_nonce ?n = Some (addr @ calc_checksum addr)"
    using n(2,3) unfolding get_swapdata_encrypted_buff_from_extra_nonce_def
    by (subst swapdata_loop.simps) (simp add: nonce_tags)
  moreover have "get_payment_id_from_swap_tx_extra_nonce ?n = Some payment_id"
    using assms(1) by (simp add: get_payment_id_from_swap_tx_extra_nonce_def)
  moreover have "is_checksum_valid (addr @ calc_checksum addr)"
    using assms(2) by (simp add: is_checksum_valid_def)
  ultimately show ?thesis using n(1) p by auto
qed

lemma swap_extra_found_witness:
  "\<exists>ex. set_swap_tx_extra [] (replicate 32 1) True (replicate 64 2) = (True, ex) \<and> fst (parse_tx_extra ex)"
  using swap_extra_found [of "replicate 32 1" "replicate 64 2"] by auto

end
