(* ===== verification/Tx_Format.thy ===== *)
theory Tx_Format
  imports Transaction Decimal
begin

text \<open>
  The remaining functions of \<open>cryptonote_format_utils.cpp\<close> on transactions: amounts and fees,
  the checks on inputs and outputs, the offsets of ring members, and the printing and parsing of
  amounts. The curve check \<open>check_key\<close> is a parameter. Strings are lists of characters.
\<close>

subsection \<open>Amounts\<close>

fun power_loop :: "u64 \<Rightarrow> u64 \<Rightarrow> nat \<Rightarrow> u64" where
  "power_loop a tot 0 = tot"
| "power_loop a tot (Suc n) = power_loop a (tot * a) n"

text \<open>The loop \<open>for (i = 1; i != b; i++)\<close> runs \<open>b - 1\<close> times.\<close>

definition power_integral :: "u64 \<Rightarrow> u64 \<Rightarrow> u64" where
  "power_integral a b = (if b = 0 then 1 else power_loop a a (unat b - 1))"

fun inputs_amount :: "txin_v list \<Rightarrow> u64 \<Rightarrow> u64 option" where
  "inputs_amount [] money = Some money"
| "inputs_amount (Txin_to_key k # ins) money = inputs_amount ins (money + in_amount k)"
| "inputs_amount (_ # ins) money = None"

definition get_inputs_money_amount :: "transaction \<Rightarrow> u64 option" where
  "get_inputs_money_amount tx = inputs_amount (vin tx) 0"

definition get_outs_money_amount :: "transaction \<Rightarrow> u64" where
  "get_outs_money_amount tx = foldl (\<lambda>a out. a + out_amount out) 0 (vout tx)"

text \<open>The result of \<open>get_tx_fee\<close>: \<open>None\<close> is the return value false.\<close>

definition get_tx_fee :: "transaction \<Rightarrow> u64 option" where
  "get_tx_fee tx =
     (if 1 < version tx then Some (txnFee (rct_signatures tx))
      else case inputs_amount (vin tx) 0 of
             None \<Rightarrow> None
           | Some amount_in \<Rightarrow>
               let amount_out = foldl (\<lambda>a out. a + out_amount out) 0 (vout tx)
               in if \<not> amount_out \<le> amount_in then None else Some (amount_in - amount_out))"

definition get_tx_fee_or_zero :: "transaction \<Rightarrow> u64" where
  "get_tx_fee_or_zero tx = (case get_tx_fee tx of None \<Rightarrow> 0 | Some r \<Rightarrow> r)"

fun is_to_key :: "txin_v \<Rightarrow> bool" where
  "is_to_key (Txin_to_key k) = True"
| "is_to_key _ = False"

fun check_inputs_types :: "txin_v list \<Rightarrow> bool" where
  "check_inputs_types [] = True"
| "check_inputs_types (i # ins) = (if \<not> is_to_key i then False else check_inputs_types ins)"

definition check_inputs_types_supported :: "transaction \<Rightarrow> bool" where
  "check_inputs_types_supported tx = check_inputs_types (vin tx)"

fun check_outs :: "(blob \<Rightarrow> bool) \<Rightarrow> u64 \<Rightarrow> tx_out list \<Rightarrow> bool" where
  "check_outs check_key v [] = True"
| "check_outs check_key v (out # outs) =
     (case target out of
        Txout_to_key key \<Rightarrow>
          if v \<le> 1 \<and> \<not> 0 < out_amount out then False
          else if \<not> check_key key then False
          else check_outs check_key v outs
      | _ \<Rightarrow> False)"

definition check_outs_valid :: "(blob \<Rightarrow> bool) \<Rightarrow> transaction \<Rightarrow> bool" where
  "check_outs_valid check_key tx = check_outs check_key (version tx) (vout tx)"

fun inputs_overflow_loop :: "txin_v list \<Rightarrow> u64 \<Rightarrow> bool" where
  "inputs_overflow_loop [] money = True"
| "inputs_overflow_loop (Txin_to_key k # ins) money =
     (if in_amount k + money < money then False else inputs_overflow_loop ins (money + in_amount k))"
| "inputs_overflow_loop (_ # ins) money = False"

definition check_inputs_overflow :: "transaction \<Rightarrow> bool" where
  "check_inputs_overflow tx = inputs_overflow_loop (vin tx) 0"

fun outs_overflow_loop :: "tx_out list \<Rightarrow> u64 \<Rightarrow> bool" where
  "outs_overflow_loop [] money = True"
| "outs_overflow_loop (out # outs) money =
     (if out_amount out + money < money then False else outs_overflow_loop outs (money + out_amount out))"

definition check_outs_overflow :: "transaction \<Rightarrow> bool" where
  "check_outs_overflow tx = outs_overflow_loop (vout tx) 0"

definition check_money_overflow :: "transaction \<Rightarrow> bool" where
  "check_money_overflow tx \<longleftrightarrow> check_inputs_overflow tx \<and> check_outs_overflow tx"

subsection \<open>Offsets of ring members\<close>

fun add_previous :: "u64 \<Rightarrow> u64 list \<Rightarrow> u64 list" where
  "add_previous prev [] = []"
| "add_previous prev (x # xs) = (x + prev) # add_previous (x + prev) xs"

definition relative_output_offsets_to_absolute :: "u64 list \<Rightarrow> u64 list" where
  "relative_output_offsets_to_absolute off =
     (case off of [] \<Rightarrow> [] | x # xs \<Rightarrow> x # add_previous x xs)"

text \<open>The loop runs from the last index down, so the subtracted neighbour is unchanged.\<close>

fun subtract_previous :: "u64 \<Rightarrow> u64 list \<Rightarrow> u64 list" where
  "subtract_previous prev [] = []"
| "subtract_previous prev (x # xs) = (x - prev) # subtract_previous x xs"

definition absolute_output_offsets_to_relative :: "u64 list \<Rightarrow> u64 list" where
  "absolute_output_offsets_to_relative off =
     (case sort off of [] \<Rightarrow> [] | x # xs \<Rightarrow> x # subtract_previous x xs)"

subsection \<open>Printing and parsing of amounts\<close>

definition print_money :: "u64 \<Rightarrow> nat \<Rightarrow> string" where
  "print_money amount decimal_point =
     (let s = decimal (unat amount);
          s = (if length s < decimal_point + 1 then replicate (decimal_point + 1 - length s) CHR ''0'' @ s else s)
      in if 0 < decimal_point
         then take (length s - decimal_point) s @ ''.'' @ drop (length s - decimal_point) s
         else s)"

definition is_blank :: "char \<Rightarrow> bool" where
  "is_blank c \<longleftrightarrow> c \<in> set [CHR 0x09, CHR 0x0A, CHR 0x0B, CHR 0x0C, CHR 0x0D, CHR '' '']"

definition trim :: "string \<Rightarrow> string" where
  "trim s = rev (dropWhile is_blank (rev (dropWhile is_blank s)))"

text \<open>The loop that removes zeros from the end while the fraction is too long.\<close>

function strip_zeros :: "nat \<Rightarrow> string \<Rightarrow> nat \<Rightarrow> string \<times> nat" where
  "strip_zeros point str fraction_size =
     (if point < fraction_size \<and> str \<noteq> [] \<and> last str = CHR ''0''
      then strip_zeros point (butlast str) (fraction_size - 1)
      else (str, fraction_size))"
  by pat_completeness auto
termination by (relation "measure (\<lambda>(_, _, n). n)") auto

declare strip_zeros.simps [simp del]

definition parse_amount :: "nat \<Rightarrow> string \<Rightarrow> u64 option" where
  "parse_amount default_decimal_point str =
     (let str = trim str;
          point_index = length (takeWhile (\<lambda>c. c \<noteq> CHR ''.'') str);
          (str, fraction_size) =
            (if point_index < length str
             then strip_zeros default_decimal_point str (length str - point_index - 1)
             else (str, 0))
      in if default_decimal_point < fraction_size then None
         else let str = take point_index str @ drop (point_index + 1) str
              in if str = [] then None
                 else get_xtype_from_string
                        (if fraction_size < default_decimal_point
                         then str @ replicate (default_decimal_point - fraction_size) CHR ''0'' else str))"

definition valid_decomposed_outputs :: "u64 list" where
  "valid_decomposed_outputs =
    [1, 2, 3, 4, 5, 6, 7, 8, 9,
     10, 20, 30, 40, 50, 60, 70, 80, 90,
     100, 200, 300, 400, 500, 600, 700, 800, 900,
     1000, 2000, 3000, 4000, 5000, 6000, 7000, 8000, 9000,
     10000, 20000, 30000, 40000, 50000, 60000, 70000, 80000, 90000,
     100000, 200000, 300000, 400000, 500000, 600000, 700000, 800000, 900000,
     1000000, 2000000, 3000000, 4000000, 5000000, 6000000, 7000000, 8000000, 9000000,
     10000000, 20000000, 30000000, 40000000, 50000000, 60000000, 70000000, 80000000, 90000000,
     100000000, 200000000, 300000000, 400000000, 500000000, 600000000, 700000000, 800000000, 900000000,
     1000000000, 2000000000, 3000000000, 4000000000, 5000000000, 6000000000, 7000000000, 8000000000, 9000000000,
     10000000000, 20000000000, 30000000000, 40000000000, 50000000000, 60000000000, 70000000000, 80000000000, 90000000000,
     100000000000, 200000000000, 300000000000, 400000000000, 500000000000, 600000000000, 700000000000, 800000000000, 900000000000,
     1000000000000, 2000000000000, 3000000000000, 4000000000000, 5000000000000, 6000000000000, 7000000000000, 8000000000000, 9000000000000,
     10000000000000, 20000000000000, 30000000000000, 40000000000000, 50000000000000, 60000000000000, 70000000000000, 80000000000000, 90000000000000,
     100000000000000, 200000000000000, 300000000000000, 400000000000000, 500000000000000, 600000000000000, 700000000000000, 800000000000000, 900000000000000,
     1000000000000000, 2000000000000000, 3000000000000000, 4000000000000000, 5000000000000000, 6000000000000000, 7000000000000000, 8000000000000000, 9000000000000000,
     10000000000000000, 20000000000000000, 30000000000000000, 40000000000000000, 50000000000000000, 60000000000000000, 70000000000000000, 80000000000000000, 90000000000000000,
     100000000000000000, 200000000000000000, 300000000000000000, 400000000000000000, 500000000000000000, 600000000000000000, 700000000000000000, 800000000000000000, 900000000000000000,
     1000000000000000000, 2000000000000000000, 3000000000000000000, 4000000000000000000, 5000000000000000000, 6000000000000000000, 7000000000000000000, 8000000000000000000, 9000000000000000000,
     10000000000000000000]"

text \<open>\<open>std::binary_search\<close> on the sorted table is membership.\<close>

definition is_valid_decomposed_amount :: "u64 \<Rightarrow> bool" where
  "is_valid_decomposed_amount amount \<longleftrightarrow> amount \<in> set valid_decomposed_outputs"

subsection \<open>Sums do not wrap around\<close>

fun in_value :: "txin_v \<Rightarrow> nat" where
  "in_value (Txin_to_key k) = unat (in_amount k)"
| "in_value _ = 0"

lemma inputs_overflow_loop_iff:
  "inputs_overflow_loop ins money \<longleftrightarrow>
     list_all is_to_key ins \<and> unat money + sum_list (map in_value ins) < 2 ^ 64"
proof (induction ins money rule: inputs_overflow_loop.induct)
  case (1 money)
  then show ?case using unat_less_u64 [of money] by simp
next
  case (2 k ins money)
  have w: "in_amount k + money < money \<longleftrightarrow> 2 ^ 64 \<le> unat (in_amount k) + unat money"
    using add_wraps_iff [of money "in_amount k"] by (simp add: add.commute)
  show ?case
  proof (cases "in_amount k + money < money")
    case True
    then show ?thesis using w by simp
  next
    case False
    then have "unat (money + in_amount k) = unat money + unat (in_amount k)"
      using w unat_add_noov [of money "in_amount k"] by simp
    with 2 [OF False] False show ?thesis by (simp add: add.assoc)
  qed
qed simp_all

lemma outs_overflow_loop_iff:
  "outs_overflow_loop os money \<longleftrightarrow> unat money + sum_list (map (\<lambda>out. unat (out_amount out)) os) < 2 ^ 64"
proof (induction os money rule: outs_overflow_loop.induct)
  case (1 money)
  then show ?case using unat_less_u64 [of money] by simp
next
  case (2 out os money)
  have w: "out_amount out + money < money \<longleftrightarrow> 2 ^ 64 \<le> unat (out_amount out) + unat money"
    using add_wraps_iff [of money "out_amount out"] by (simp add: add.commute)
  show ?case
  proof (cases "out_amount out + money < money")
    case True
    then show ?thesis using w by simp
  next
    case False
    then have "unat (money + out_amount out) = unat money + unat (out_amount out)"
      using w unat_add_noov [of money "out_amount out"] by simp
    with 2 [OF False] False show ?thesis by (simp add: add.assoc)
  qed
qed

lemma inputs_amount_value:
  "list_all is_to_key ins \<Longrightarrow> unat money + sum_list (map in_value ins) < 2 ^ 64 \<Longrightarrow>
     \<exists>v. inputs_amount ins money = Some v \<and> unat v = unat money + sum_list (map in_value ins)"
proof (induction ins money rule: inputs_amount.induct)
  case (2 k ins money)
  then have "unat (money + in_amount k) = unat money + unat (in_amount k)"
    using unat_add_noov [of money "in_amount k"] by simp
  with 2 show ?case by (simp add: add.assoc)
qed simp_all

lemma outs_amount_value:
  "unat money + sum_list (map (\<lambda>out. unat (out_amount out)) os) < 2 ^ 64 \<Longrightarrow>
     unat (foldl (\<lambda>a out. a + out_amount out) money os) = unat money + sum_list (map (\<lambda>out. unat (out_amount out)) os)"
proof (induction os arbitrary: money)
  case (Cons out os)
  then have "unat (money + out_amount out) = unat money + unat (out_amount out)"
    using unat_add_noov [of money "out_amount out"] by simp
  with Cons show ?case by (simp add: add.assoc)
qed simp

lemma add_subtract_previous: "add_previous prev (subtract_previous prev xs) = xs"
  by (induction xs arbitrary: prev) simp_all

subsection \<open>Printed amounts\<close>

lemma digit_not_special: "is_digit c \<Longrightarrow> \<not> is_blank c \<and> c \<noteq> CHR ''.''"
  by (auto simp: is_digit_def is_blank_def)

lemma dropWhile_none: "list_all (\<lambda>c. \<not> P c) s \<Longrightarrow> dropWhile P s = s"
  by (cases s) auto

lemma trim_none: "list_all (\<lambda>c. \<not> is_blank c) s \<Longrightarrow> trim s = s"
  by (simp add: trim_def dropWhile_none list_all_iff)

lemma parse_amount_digits:
  assumes "list_all is_digit a" "list_all is_digit b" "a \<noteq> []"
  shows "parse_amount (length b) (if b = [] then a else a @ ''.'' @ b) = get_xtype_from_string (a @ b)"
proof -
  let ?s = "if b = [] then a else a @ ''.'' @ b"
  have nb: "list_all (\<lambda>c. \<not> is_blank c) ?s" and np: "\<forall>c \<in> set a. c \<noteq> CHR ''.''"
    using assms digit_not_special by (auto simp: list_all_iff is_blank_def)
  have t: "trim ?s = ?s" by (rule trim_none [OF nb])
  have w: "takeWhile (\<lambda>c. c \<noteq> CHR ''.'') ?s = a"
    using np by (auto simp: takeWhile_append2 takeWhile_eq_all_conv)
  have z: "strip_zeros (length b) x (length b) = (x, length b)" for x
    by (subst strip_zeros.simps) simp
  show ?thesis
    unfolding parse_amount_def t Let_def w using assms(3) z
    by (cases "b = []") auto
qed

lemma print_money_parts:
  "\<exists>a b. print_money amount dp = (if b = [] then a else a @ ''.'' @ b) \<and> length b = dp \<and> a \<noteq> []
     \<and> (\<exists>k. a @ b = replicate k CHR ''0'' @ decimal (unat amount))"
proof -
  define k where "k = dp + 1 - length (decimal (unat amount))"
  define s where "s = replicate k CHR ''0'' @ decimal (unat amount)"
  have len: "dp + 1 \<le> length s" by (simp add: s_def k_def)
  have "print_money amount dp = (if 0 < dp then take (length s - dp) s @ ''.'' @ drop (length s - dp) s else s)"
    using decimal_not_Nil [of "unat amount"]
    by (auto simp: print_money_def Let_def s_def k_def simp flip: length_greater_0_conv)
  then have "print_money amount dp =
      (if drop (length s - dp) s = [] then take (length s - dp) s else take (length s - dp) s @ ''.'' @ drop (length s - dp) s)"
    using len by (cases "dp = 0") auto
  moreover have "length (drop (length s - dp) s) = dp" "take (length s - dp) s \<noteq> []"
    using len by (auto simp: take_eq_Nil)
  moreover have "take (length s - dp) s @ drop (length s - dp) s = replicate k CHR ''0'' @ decimal (unat amount)"
    unfolding append_take_drop_id by (simp add: s_def)
  ultimately show ?thesis by blast
qed

subsection \<open>Properties\<close>

text \<open> C23: the overflow check of a transaction accepts exactly when all inputs spend keys and
  the sums of the input and of the output amounts fit in 64 bits; then the computed amounts are
  the exact sums, and the fee of a version 1 transaction is their exact difference or refused.\<close>

theorem money_sums_exact:
  fixes tx :: transaction
  defines "ins \<equiv> sum_list (map in_value (vin tx))" and "outs \<equiv> sum_list (map (\<lambda>out. unat (out_amount out)) (vout tx))"
  shows "(check_money_overflow tx \<longleftrightarrow> list_all is_to_key (vin tx) \<and> ins < 2 ^ 64 \<and> outs < 2 ^ 64)
    \<and> (check_money_overflow tx \<longrightarrow>
         map_option unat (get_inputs_money_amount tx) = Some ins \<and> unat (get_outs_money_amount tx) = outs
         \<and> (version tx \<le> 1 \<longrightarrow> map_option unat (get_tx_fee tx) = (if outs \<le> ins then Some (ins - outs) else None)))"
proof (intro conjI impI)
  show iff: "check_money_overflow tx \<longleftrightarrow> list_all is_to_key (vin tx) \<and> ins < 2 ^ 64 \<and> outs < 2 ^ 64"
    by (auto simp: check_money_overflow_def check_inputs_overflow_def check_outs_overflow_def
          inputs_overflow_loop_iff outs_overflow_loop_iff ins_def outs_def)
  assume "check_money_overflow tx"
  with iff obtain v where v: "inputs_amount (vin tx) 0 = Some v" "unat v = ins"
    using inputs_amount_value [of "vin tx" 0] by (auto simp: ins_def)
  have o: "unat (foldl (\<lambda>a out. a + out_amount out) 0 (vout tx)) = outs"
    using iff \<open>check_money_overflow tx\<close> outs_amount_value [of 0 "vout tx"] by (simp add: outs_def)
  show "map_option unat (get_inputs_money_amount tx) = Some ins" using v by (simp add: get_inputs_money_amount_def)
  show "unat (get_outs_money_amount tx) = outs" using o by (simp add: get_outs_money_amount_def)
  assume "version tx \<le> 1"
  then have "\<not> 1 < version tx" by (simp add: not_less)
  then show "map_option unat (get_tx_fee tx) = (if outs \<le> ins then Some (ins - outs) else None)"
    using v o by (auto simp: get_tx_fee_def Let_def word_le_nat_alt unat_sub_noov)
qed

theorem money_sums_exact_witness:
  "check_money_overflow example_tx \<and> map_option unat (get_tx_fee example_tx) = Some 1"
  using money_sums_exact [of example_tx] by (simp add: example_tx_def)

text \<open>The offsets of ring members survive the conversion to relative offsets and back:
  the result is the sorted list of the absolute offsets, for every list.\<close>

lemma offsets_round_trip:
  "relative_output_offsets_to_absolute (absolute_output_offsets_to_relative off) = sort off"
  by (cases "sort off")
     (simp_all add: relative_output_offsets_to_absolute_def absolute_output_offsets_to_relative_def add_subtract_previous)

text \<open> C24: an amount that was printed with the default number of decimals is parsed back
  exactly.\<close>

theorem print_parse_amount:
  "parse_amount decimal_point (print_money amount decimal_point) = Some amount"
proof -
  obtain a b k where p: "print_money amount decimal_point = (if b = [] then a else a @ ''.'' @ b)"
    and len: "length b = decimal_point" and a: "a \<noteq> []" and ab: "a @ b = replicate k CHR ''0'' @ decimal (unat amount)"
    using print_money_parts by blast
  have "list_all is_digit (a @ b)"
    unfolding ab using decimal_digits [of "unat amount"] by (auto simp: list_all_iff is_digit_zero)
  then have "list_all is_digit a" "list_all is_digit b" by simp_all
  from parse_amount_digits [OF this a] show ?thesis
    using get_xtype_decimal [of k amount] by (simp add: p len ab)
qed

end
