(* ===== verification/Floating.thy ===== *)
theory Floating
  imports Cn_Prelude
begin

text \<open>
  The floating point arithmetic of the transaction pool: the conversion of an unsigned integer to a
  binary format with \<open>p\<close> significant bits, and the quotient of two unsigned integers as doubles,
  rounded to nearest with ties to even. The magnitudes that occur, quotients of 64-bit integers, stay
  far from the ends of the exponent range, so there are no subnormal numbers and no overflow.
\<close>

fun bit_length :: "nat \<Rightarrow> nat" where
  "bit_length n = (if n = 0 then 0 else Suc (bit_length (n div 2)))"

declare bit_length.simps [simp del]

text \<open>\<open>q + r / d\<close> with \<open>r < d\<close>, rounded to an integer.\<close>

definition round_half_even :: "nat \<Rightarrow> nat \<Rightarrow> nat \<Rightarrow> nat" where
  "round_half_even q r d =
     (if 2 * r < d then q else if d < 2 * r then q + 1 else if even q then q else q + 1)"

definition round_to :: "nat \<Rightarrow> nat \<Rightarrow> nat" where
  "round_to p n =
     (if bit_length n \<le> p then n
      else let e = bit_length n - p
           in round_half_even (n div 2 ^ e) (n mod 2 ^ e) (2 ^ e) * 2 ^ e)"

text \<open>A quotient of nonnegative doubles; \<open>Finite e m\<close> is \<open>m * 2 ^ e\<close>, with 53-bit \<open>m\<close> unless it is 0.\<close>

datatype double = Not_a_number | Infinite | Finite int nat

definition double_quotient :: "u64 \<Rightarrow> u64 \<Rightarrow> double" where
  "double_quotient a b =
     (let n = round_to 53 (unat a); d = round_to 53 (unat b)
      in if d = 0 then (if n = 0 then Not_a_number else Infinite)
         else if n = 0 then Finite 0 0
         else let s = 53 + int (bit_length d) - int (bit_length n);
                  n1 = n * 2 ^ nat s; d1 = d * 2 ^ nat (- s);
                  (s, d1) = (if 2 ^ 53 \<le> n1 div d1 then (s - 1, 2 * d1) else (s, d1));
                  m = round_half_even (n1 div d1) (n1 mod d1) d1
              in if m = 2 ^ 53 then Finite (1 - s) (2 ^ 52) else Finite (- s) m)"

fun double_greater :: "double \<Rightarrow> double \<Rightarrow> bool" where
  "double_greater Not_a_number y = False"
| "double_greater x Not_a_number = False"
| "double_greater Infinite y = (y \<noteq> Infinite)"
| "double_greater x Infinite = False"
| "double_greater (Finite e m) (Finite e' m') =
     (if m = 0 then False else if m' = 0 then True else e' < e \<or> e = e' \<and> m' < m)"

end
