(* ===== verification/Tx_Pool.thy ===== *)
theory Tx_Pool
  imports Tx_Format Block_Reward Floating "HOL-Library.Signed_Division"
begin

text \<open>
  The pool of unconfirmed transactions of \<open>cryptonote_core/tx_pool.cpp\<close>. The transactions lie in
  the database as metadata and blob (\<open>blockchain_db/lmdb/db_lmdb.cpp\<close>), an association list in the
  order of the cursor; the key images they spend map to the hashes of the transactions that spend
  them, the empty list standing for an absent entry; a third container holds the hashes in the order
  of the fee rate. The \<open>Blockchain\<close> object that the pool asks is a record of functions, and the
  clock is an argument. An exception of the database ends the operation as the handlers do.
\<close>

subsection \<open>State\<close>

record txpool_tx_meta =
  max_used_block_id :: blob
  last_failed_id :: blob
  blob_size :: u64
  meta_fee :: u64
  max_used_block_height :: u64
  last_failed_height :: u64
  receive_time :: u64
  last_relayed_time :: u64
  kept_by_block :: bool
  relayed :: bool
  do_not_relay :: bool

text \<open>The fee and the size whose quotient is compared, the time, and the hash.\<close>

type_synonym sorted_entry = "((u64 \<times> u64) \<times> u64) \<times> blob"

type_synonym pool_entry = "blob \<times> txpool_tx_meta \<times> blob"

record tx_memory_pool =
  pool_txs :: "pool_entry list"
  spent_key_images :: "blob \<Rightarrow> blob list"
  txs_by_fee_and_receive_time :: "sorted_entry list"
  timed_out_transactions :: "blob list"

record tx_verification_context =
  should_be_relayed :: bool
  verifivation_failed :: bool
  verifivation_impossible :: bool
  added_to_pool :: bool
  low_mixin :: bool
  double_spend :: bool
  invalid_input :: bool
  invalid_output :: bool
  too_big :: bool
  overspend :: bool
  fee_too_low :: bool
  not_rct :: bool

definition tvc_init :: tx_verification_context where
  "tvc_init = \<lparr> should_be_relayed = False, verifivation_failed = False, verifivation_impossible = False,
     added_to_pool = False, low_mixin = False, double_spend = False, invalid_input = False,
     invalid_output = False, too_big = False, overspend = False, fee_too_low = False, not_rct = False \<rparr>"

text \<open>
  What the pool asks the chain. \<open>chain_check_tx_inputs\<close> gets the transaction and
  \<open>kept_by_block\<close> and gives the height and the hash of the last block used, when the check succeeds.
\<close>

record chain =
  chain_check_fee :: "u64 \<Rightarrow> u64 \<Rightarrow> bool"
  chain_check_tx_outputs :: "transaction \<Rightarrow> tx_verification_context \<Rightarrow> bool \<times> tx_verification_context"
  chain_check_tx_inputs ::
    "transaction \<Rightarrow> bool \<Rightarrow> tx_verification_context \<Rightarrow> (u64 \<times> blob) option \<times> tx_verification_context"
  chain_height :: u64
  chain_block_id :: "u64 \<Rightarrow> blob"
  chain_have_tx_keyimges_as_spent :: "transaction \<Rightarrow> bool"
  chain_have_tx :: "blob \<Rightarrow> bool"

definition null_hash :: blob where "null_hash = replicate 32 0"

definition MIN_RELAY_TIME :: int where "MIN_RELAY_TIME = 60 * 5"
definition MAX_RELAY_TIME :: int where "MAX_RELAY_TIME = 60 * 60 * 4"
definition CRYPTONOTE_MEMPOOL_TX_LIVETIME :: u64 where "CRYPTONOTE_MEMPOOL_TX_LIVETIME = 86400"
definition CRYPTONOTE_MEMPOOL_TX_FROM_ALT_BLOCK_LIVETIME :: u64 where
  "CRYPTONOTE_MEMPOOL_TX_FROM_ALT_BLOCK_LIVETIME = 604800"
definition CRYPTONOTE_COINBASE_BLOB_RESERVED_SIZE :: u64 where "CRYPTONOTE_COINBASE_BLOB_RESERVED_SIZE = 600"

definition get_relay_delay :: "u64 \<Rightarrow> u64 \<Rightarrow> u64" where
  "get_relay_delay now received =
     (let d = (sint now - sint received + MIN_RELAY_TIME) sdiv MIN_RELAY_TIME * MIN_RELAY_TIME
      in of_int (if MAX_RELAY_TIME < d then MAX_RELAY_TIME else d))"

text \<open>The product with \<open>1.0f\<close> is the amount rounded to a float with 24 significant bits.\<close>

definition template_accept_threshold :: "u64 \<Rightarrow> u64" where
  "template_accept_threshold amount = of_nat (round_to 24 (unat amount))"

definition get_transaction_size_limit :: "u8 \<Rightarrow> u64" where
  "get_transaction_size_limit ver = get_min_block_size ver * 125 div 100 - CRYPTONOTE_COINBASE_BLOB_RESERVED_SIZE"

subsection \<open>The database\<close>

text \<open>The order of the keys: eight little-endian 32-bit words, compared from the last one.\<close>

fun compare_words :: "blob \<Rightarrow> blob \<Rightarrow> nat \<Rightarrow> int" where
  "compare_words a b 0 = 0"
| "compare_words a b (Suc n) =
     (let va = le_word (take 4 (drop (4 * n) a)); vb = le_word (take 4 (drop (4 * n) b))
      in if va = vb then compare_words a b n else if va < vb then - 1 else 1)"

definition compare_hash32 :: "blob \<Rightarrow> blob \<Rightarrow> int" where
  "compare_hash32 a b = compare_words a b 8"

fun put_entry :: "pool_entry \<Rightarrow> pool_entry list \<Rightarrow> pool_entry list" where
  "put_entry x [] = [x]"
| "put_entry x (y # ys) = (if compare_hash32 (fst x) (fst y) < 0 then x # y # ys else y # put_entry x ys)"

text \<open>\<open>None\<close> is the exception for a transaction that is already there.\<close>

definition add_txpool_tx :: "tx_memory_pool \<Rightarrow> transaction \<Rightarrow> txpool_tx_meta \<Rightarrow> tx_memory_pool option" where
  "add_txpool_tx p tx meta =
     (let txid = get_transaction_hash tx
      in if map_of (pool_txs p) txid \<noteq> None then None
         else Some (p\<lparr>pool_txs := put_entry (txid, meta, tx_to_blob tx) (pool_txs p)\<rparr>))"

definition remove_txpool_tx :: "tx_memory_pool \<Rightarrow> blob \<Rightarrow> tx_memory_pool" where
  "remove_txpool_tx p txid = p\<lparr>pool_txs := filter (\<lambda>e. fst e \<noteq> txid) (pool_txs p)\<rparr>"

definition update_txpool_tx :: "tx_memory_pool \<Rightarrow> blob \<Rightarrow> txpool_tx_meta \<Rightarrow> tx_memory_pool option" where
  "update_txpool_tx p txid meta =
     (if map_of (pool_txs p) txid = None then None
      else Some (p\<lparr>pool_txs := map (\<lambda>(i, m, b). if i = txid then (i, meta, b) else (i, m, b)) (pool_txs p)\<rparr>))"

subsection \<open>Key images\<close>

text \<open>The result and the state, which keeps what was inserted before a failure.\<close>

fun insert_key_images_loop :: "(blob \<Rightarrow> blob list) \<Rightarrow> blob \<Rightarrow> txin_v list \<Rightarrow> bool \<Rightarrow> bool \<times> (blob \<Rightarrow> blob list)" where
  "insert_key_images_loop spent txid [] kept = (True, spent)"
| "insert_key_images_loop spent txid (Txin_to_key k # ins) kept =
     (if \<not> (kept \<or> spent (k_image k) = []) then (False, spent)
      else if txid \<in> set (spent (k_image k)) then (False, spent)
      else insert_key_images_loop (spent(k_image k := txid # spent (k_image k))) txid ins kept)"
| "insert_key_images_loop spent txid (_ # ins) kept = (False, spent)"

definition insert_key_images :: "tx_memory_pool \<Rightarrow> transaction \<Rightarrow> bool \<Rightarrow> bool \<times> tx_memory_pool" where
  "insert_key_images p tx kept =
     (let (ok, spent) = insert_key_images_loop (spent_key_images p) (get_transaction_hash tx) (vin tx) kept
      in (ok, p\<lparr>spent_key_images := spent\<rparr>))"

fun remove_keyimages_loop :: "(blob \<Rightarrow> blob list) \<Rightarrow> blob \<Rightarrow> txin_v list \<Rightarrow> bool \<times> (blob \<Rightarrow> blob list)" where
  "remove_keyimages_loop spent txid [] = (True, spent)"
| "remove_keyimages_loop spent txid (Txin_to_key k # ins) =
     (if txid \<notin> set (spent (k_image k)) then (False, spent)
      else remove_keyimages_loop (spent(k_image k := filter (\<lambda>i. i \<noteq> txid) (spent (k_image k)))) txid ins)"
| "remove_keyimages_loop spent txid (_ # ins) = (False, spent)"

definition remove_transaction_keyimages :: "tx_memory_pool \<Rightarrow> transaction \<Rightarrow> bool \<times> tx_memory_pool" where
  "remove_transaction_keyimages p tx =
     (let (ok, spent) = remove_keyimages_loop (spent_key_images p) (get_transaction_hash tx) (vin tx)
      in (ok, p\<lparr>spent_key_images := spent\<rparr>))"

definition have_tx_keyimg_as_spent :: "tx_memory_pool \<Rightarrow> blob \<Rightarrow> bool" where
  "have_tx_keyimg_as_spent p key_im \<longleftrightarrow> spent_key_images p key_im \<noteq> []"

fun have_keyimges_loop :: "tx_memory_pool \<Rightarrow> txin_v list \<Rightarrow> bool" where
  "have_keyimges_loop p [] = False"
| "have_keyimges_loop p (Txin_to_key k # ins) =
     (if have_tx_keyimg_as_spent p (k_image k) then True else have_keyimges_loop p ins)"
| "have_keyimges_loop p (_ # ins) = True"

definition have_tx_keyimges_as_spent :: "tx_memory_pool \<Rightarrow> transaction \<Rightarrow> bool" where
  "have_tx_keyimges_as_spent p tx = have_keyimges_loop p (vin tx)"

subsection \<open>The order by fee\<close>

definition txCompare :: "sorted_entry \<Rightarrow> sorted_entry \<Rightarrow> bool" where
  "txCompare a b =
     (let ra = double_quotient (fst (fst (fst a))) (snd (fst (fst a)));
          rb = double_quotient (fst (fst (fst b))) (snd (fst (fst b)));
          ta = sint (snd (fst a)); tb = sint (snd (fst b))
      in if double_greater ra rb then True
         else if double_greater rb ra then False
         else if ta < tb then True
         else if tb < ta then False
         else if snd a \<noteq> snd b then True
         else False)"

text \<open>\<open>emplace\<close> of the set: before the first element that the new one precedes.\<close>

fun emplace :: "sorted_entry \<Rightarrow> sorted_entry list \<Rightarrow> sorted_entry list" where
  "emplace x [] = [x]"
| "emplace x (y # ys) =
     (if txCompare x y then x # y # ys else if txCompare y x then y # emplace x ys else y # ys)"

definition sorted_entry_of :: "blob \<Rightarrow> txpool_tx_meta \<Rightarrow> sorted_entry" where
  "sorted_entry_of txid meta = (((meta_fee meta, blob_size meta), receive_time meta), txid)"

fun find_tx_in_sorted_container :: "sorted_entry list \<Rightarrow> blob \<Rightarrow> sorted_entry option" where
  "find_tx_in_sorted_container [] txid = None"
| "find_tx_in_sorted_container (a # as) txid =
     (if snd a = txid then Some a else find_tx_in_sorted_container as txid)"

text \<open>\<open>erase\<close> of the iterator that \<open>find_tx_in_sorted_container\<close> returns.\<close>

fun erase_sorted :: "sorted_entry list \<Rightarrow> blob \<Rightarrow> sorted_entry list" where
  "erase_sorted [] txid = []"
| "erase_sorted (a # as) txid = (if snd a = txid then as else a # erase_sorted as txid)"

subsection \<open>Adding and taking a transaction\<close>

definition make_meta :: "u64 \<Rightarrow> u64 \<Rightarrow> blob \<Rightarrow> u64 \<Rightarrow> u64 \<Rightarrow> bool \<Rightarrow> bool \<Rightarrow> bool \<Rightarrow> txpool_tx_meta" where
  "make_meta bsize f max_id height now kept rel nrel =
     \<lparr> max_used_block_id = max_id, last_failed_id = null_hash, blob_size = bsize, meta_fee = f,
       max_used_block_height = height, last_failed_height = 0, receive_time = now, last_relayed_time = now,
       kept_by_block = kept, relayed = rel, do_not_relay = nrel \<rparr>"

text \<open>
  The common part of the two branches that store the transaction: the database, the key images,
  the order by fee. \<open>false\<close> is an exception or a failed insertion.
\<close>

definition store_tx :: "tx_memory_pool \<Rightarrow> transaction \<Rightarrow> blob \<Rightarrow> txpool_tx_meta \<Rightarrow> bool \<times> tx_memory_pool" where
  "store_tx p tx txid meta =
     (case add_txpool_tx p tx meta of
        None \<Rightarrow> (False, p)
      | Some p \<Rightarrow>
          let (ok, p) = insert_key_images p tx (kept_by_block meta)
          in if \<not> ok then (False, p)
             else (True, p\<lparr>txs_by_fee_and_receive_time :=
               emplace (sorted_entry_of txid meta) (txs_by_fee_and_receive_time p)\<rparr>))"

text \<open>The fee, or the context with which the transaction is refused.\<close>

definition add_tx_fee :: "transaction \<Rightarrow> tx_verification_context \<Rightarrow> tx_verification_context + u64" where
  "add_tx_fee tx tvc =
     (if version tx = 1
      then case get_inputs_money_amount tx of
             None \<Rightarrow> Inl (tvc\<lparr>verifivation_failed := True\<rparr>)
           | Some amount_in \<Rightarrow>
               let amount_out = get_outs_money_amount tx
               in if amount_in < amount_out
                  then Inl (tvc\<lparr>verifivation_failed := True, overspend := True\<rparr>)
                  else Inr (amount_in - amount_out)
      else Inr (txnFee (rct_signatures tx)))"

definition add_tx ::
    "chain \<Rightarrow> u64 \<Rightarrow> tx_memory_pool \<Rightarrow> transaction \<Rightarrow> blob \<Rightarrow> u64 \<Rightarrow> tx_verification_context \<Rightarrow> bool \<Rightarrow> bool \<Rightarrow> bool \<Rightarrow> u8
      \<Rightarrow> bool \<times> tx_verification_context \<times> tx_memory_pool" where
  "add_tx c now p tx txid bsize tvc kept rel nrel ver =
     (if version tx = 0 then (False, tvc\<lparr>verifivation_failed := True\<rparr>, p)
      else if \<not> kept \<and> txid \<in> set (timed_out_transactions p) then (False, tvc\<lparr>verifivation_failed := True\<rparr>, p)
      else if \<not> check_inputs_types_supported tx
      then (False, tvc\<lparr>verifivation_failed := True, invalid_input := True\<rparr>, p)
      else case add_tx_fee tx tvc of
        Inl tvc \<Rightarrow> (False, tvc, p)
      | Inr f \<Rightarrow>
          if \<not> kept \<and> \<not> chain_check_fee c bsize f
          then (False, tvc\<lparr>verifivation_failed := True, fee_too_low := True\<rparr>, p)
          else if \<not> kept \<and> get_transaction_size_limit ver \<le> bsize
          then (False, tvc\<lparr>verifivation_failed := True, too_big := True\<rparr>, p)
          else if \<not> kept \<and> have_tx_keyimges_as_spent p tx
          then (False, tvc\<lparr>verifivation_failed := True, double_spend := True\<rparr>, p)
          else let (outs_ok, tvc) = chain_check_tx_outputs c tx tvc
          in if \<not> outs_ok
          then (False, tvc\<lparr>verifivation_failed := True, invalid_output := True\<rparr>, p)
          else let (ch_inp_res, tvc) = chain_check_tx_inputs c tx kept tvc
          in case ch_inp_res of
            None \<Rightarrow>
              if kept
              then let (ok, p) = store_tx p tx txid (make_meta bsize f null_hash 0 now kept rel nrel)
                   in if \<not> ok then (False, tvc, p)
                      else (True, tvc\<lparr>verifivation_impossible := True, added_to_pool := True,
                                      verifivation_failed := False\<rparr>, p)
              else (False, tvc\<lparr>verifivation_failed := True\<rparr>, p)
          | Some (height, max_id) \<Rightarrow>
              let (ok, p) = store_tx (remove_txpool_tx p (get_transaction_hash tx)) tx txid
                              (make_meta bsize f max_id height now kept rel nrel)
              in if \<not> ok then (False, tvc, p)
                 else (True, tvc\<lparr>added_to_pool := True,
                                 should_be_relayed := (should_be_relayed tvc \<or> 0 < f \<and> \<not> nrel),
                                 verifivation_failed := False\<rparr>, p))"

text \<open>The outputs are \<open>None\<close> when the result is false.\<close>

definition take_tx ::
    "tx_memory_pool \<Rightarrow> blob \<Rightarrow> (transaction \<times> u64 \<times> u64 \<times> bool \<times> bool) option \<times> tx_memory_pool" where
  "take_tx p txid =
     (if find_tx_in_sorted_container (txs_by_fee_and_receive_time p) txid = None then (None, p)
      else case map_of (pool_txs p) txid of
             None \<Rightarrow> (None, p)
           | Some (meta, txblob) \<Rightarrow>
               (case parse_and_validate_tx_from_blob txblob of
                  None \<Rightarrow> (None, p)
                | Some tx \<Rightarrow>
                    let p = snd (remove_transaction_keyimages (remove_txpool_tx p txid) tx)
                    in (Some (tx, blob_size meta, meta_fee meta, relayed meta, do_not_relay meta),
                        p\<lparr>txs_by_fee_and_receive_time := erase_sorted (txs_by_fee_and_receive_time p) txid\<rparr>)))"

text \<open>The part of \<open>remove_stuck_transactions\<close> and \<open>validate\<close> that takes one transaction out.\<close>

definition drop_tx :: "tx_memory_pool \<Rightarrow> blob \<Rightarrow> bool \<times> tx_memory_pool" where
  "drop_tx p txid =
     (case map_of (pool_txs p) txid of
        None \<Rightarrow> (False, p)
      | Some (_, txblob) \<Rightarrow>
          (case parse_and_validate_tx_from_blob txblob of
             None \<Rightarrow> (False, p)
           | Some tx \<Rightarrow> (True, snd (remove_transaction_keyimages (remove_txpool_tx p txid) tx))))"

definition is_stuck :: "u64 \<Rightarrow> txpool_tx_meta \<Rightarrow> bool" where
  "is_stuck now meta \<longleftrightarrow>
     (let tx_age = now - receive_time meta
      in (CRYPTONOTE_MEMPOOL_TX_LIVETIME < tx_age \<and> \<not> kept_by_block meta)
         \<or> (CRYPTONOTE_MEMPOOL_TX_FROM_ALT_BLOCK_LIVETIME < tx_age \<and> kept_by_block meta))"

definition remove_stuck_transactions :: "u64 \<Rightarrow> tx_memory_pool \<Rightarrow> tx_memory_pool" where
  "remove_stuck_transactions now p =
     (let remove = map fst (filter (\<lambda>(_, meta, _). is_stuck now meta) (pool_txs p));
          p = p\<lparr>txs_by_fee_and_receive_time := foldl erase_sorted (txs_by_fee_and_receive_time p) remove,
                timed_out_transactions := remove @ timed_out_transactions p\<rparr>
      in foldl (\<lambda>p txid. snd (drop_tx p txid)) p remove)"

definition validate_one :: "tx_memory_pool \<times> nat \<Rightarrow> blob \<Rightarrow> tx_memory_pool \<times> nat" where
  "validate_one s txid =
     (let (p, n) = s; (ok, p) = drop_tx p txid
      in if \<not> ok then (p, n)
         else (p\<lparr>txs_by_fee_and_receive_time := erase_sorted (txs_by_fee_and_receive_time p) txid\<rparr>, n + 1))"

definition validate :: "chain \<Rightarrow> tx_memory_pool \<Rightarrow> u8 \<Rightarrow> tx_memory_pool \<times> nat" where
  "validate c p ver =
     (let tx_size_limit = get_transaction_size_limit ver;
          remove = map fst (filter (\<lambda>(txid, meta, _). tx_size_limit \<le> blob_size meta \<or> chain_have_tx c txid) (pool_txs p))
      in foldl validate_one (p, 0) remove)"

subsection \<open>Relaying and queries\<close>

definition get_relayable_transactions :: "u64 \<Rightarrow> tx_memory_pool \<Rightarrow> (blob \<times> blob) list" where
  "get_relayable_transactions now p =
     map (\<lambda>(txid, _, b). (txid, b))
       (filter (\<lambda>(_, meta, _).
          0 < meta_fee meta \<and> \<not> do_not_relay meta
          \<and> get_relay_delay now (receive_time meta) < now - last_relayed_time meta
          \<and> now - receive_time meta \<le>
              (if kept_by_block meta then CRYPTONOTE_MEMPOOL_TX_FROM_ALT_BLOCK_LIVETIME
               else CRYPTONOTE_MEMPOOL_TX_LIVETIME) div 2) (pool_txs p))"

fun set_relayed :: "u64 \<Rightarrow> tx_memory_pool \<Rightarrow> (blob \<times> blob) list \<Rightarrow> tx_memory_pool" where
  "set_relayed now p [] = p"
| "set_relayed now p ((txid, _) # txs) =
     (case map_of (pool_txs p) txid of
        None \<Rightarrow> set_relayed now p txs
      | Some (meta, _) \<Rightarrow>
          (case update_txpool_tx p txid (meta\<lparr>relayed := True, last_relayed_time := now\<rparr>) of
             None \<Rightarrow> set_relayed now p txs
           | Some p \<Rightarrow> set_relayed now p txs))"

definition get_transactions_count :: "tx_memory_pool \<Rightarrow> nat" where
  "get_transactions_count p = length (pool_txs p)"

definition get_transactions :: "tx_memory_pool \<Rightarrow> transaction list" where
  "get_transactions p = List.map_filter (\<lambda>(_, _, b). parse_and_validate_tx_from_blob b) (pool_txs p)"

definition get_transaction_hashes :: "tx_memory_pool \<Rightarrow> blob list" where
  "get_transaction_hashes p = map fst (pool_txs p)"

definition get_transaction_backlog :: "u64 \<Rightarrow> tx_memory_pool \<Rightarrow> (u64 \<times> u64 \<times> u64) list" where
  "get_transaction_backlog now p =
     map (\<lambda>(_, meta, _). (blob_size meta, meta_fee meta, receive_time meta - now)) (pool_txs p)"

definition get_transaction :: "tx_memory_pool \<Rightarrow> blob \<Rightarrow> blob option" where
  "get_transaction p txid = map_option snd (map_of (pool_txs p) txid)"

definition have_tx :: "tx_memory_pool \<Rightarrow> blob \<Rightarrow> bool" where
  "have_tx p txid \<longleftrightarrow> map_of (pool_txs p) txid \<noteq> None"

subsection \<open>Block templates\<close>

text \<open>The metadata is a copy of the caller, whose changes are not stored.\<close>

definition is_transaction_ready_to_go :: "chain \<Rightarrow> txpool_tx_meta \<Rightarrow> transaction \<Rightarrow> bool" where
  "is_transaction_ready_to_go c txd tx =
     (if max_used_block_id txd = null_hash
      then if last_failed_id txd \<noteq> null_hash \<and> last_failed_height txd < chain_height c
              \<and> last_failed_id txd = chain_block_id c (last_failed_height txd)
           then False
           else if fst (chain_check_tx_inputs c tx False tvc_init) = None then False
           else if chain_have_tx_keyimges_as_spent c tx then False
           else True
      else if chain_height c \<le> max_used_block_height txd then False
      else if last_failed_id txd = chain_block_id c (last_failed_height txd) then False
      else if fst (chain_check_tx_inputs c tx False tvc_init) = None then False
      else if chain_have_tx_keyimges_as_spent c tx then False
      else True)"

fun have_key_images :: "blob list \<Rightarrow> txin_v list \<Rightarrow> bool" where
  "have_key_images k_images [] = False"
| "have_key_images k_images (Txin_to_key k # ins) =
     (if k_image k \<in> set k_images then True else have_key_images k_images ins)"
| "have_key_images k_images (_ # ins) = False"

fun append_key_images :: "blob list \<Rightarrow> txin_v list \<Rightarrow> bool \<times> blob list" where
  "append_key_images k_images [] = (True, k_images)"
| "append_key_images k_images (Txin_to_key k # ins) =
     (if k_image k \<in> set k_images then (False, k_images) else append_key_images (k_image k # k_images) ins)"
| "append_key_images k_images (_ # ins) = (False, k_images)"

record template =
  tx_hashes :: "blob list"
  total_size :: u64
  template_fee :: u64
  best_coinbase :: u64
  coinbase :: u64
  k_images :: "blob list"

text \<open>
  The size and coinbase conditions: whether the transaction is considered, skipped, or ends the
  loop, with the coinbase computed. \<open>None\<close> is a failed assertion of \<open>get_block_reward\<close>.
\<close>

datatype verdict = Consider u64 | Skip u64 | Stop

definition template_size_check :: "u64 \<Rightarrow> u64 \<Rightarrow> u8 \<Rightarrow> u64 \<Rightarrow> template \<Rightarrow> txpool_tx_meta \<Rightarrow> verdict option" where
  "template_size_check median_size already_generated_coins ver max_total_size t meta =
     (if max_total_size < total_size t + blob_size meta then Some (Skip (coinbase t))
      else if 4 \<le> ver
      then case get_block_reward median_size (total_size t + blob_size meta) already_generated_coins ver 0 of
             None \<Rightarrow> None
           | Some (ok, block_reward) \<Rightarrow>
               if \<not> ok then Some (Skip (coinbase t))
               else let cb = block_reward + template_fee t + meta_fee meta
                    in if cb < template_accept_threshold (best_coinbase t) then Some (Skip cb)
                       else Some (Consider cb)
      else if median_size < total_size t then Some Stop
      else Some (Consider (coinbase t)))"

definition template_step :: "chain \<Rightarrow> template \<Rightarrow> blob \<Rightarrow> txpool_tx_meta \<Rightarrow> blob \<Rightarrow> template" where
  "template_step c t txid meta txblob =
     (case parse_and_validate_tx_from_blob txblob of
        None \<Rightarrow> t
      | Some tx \<Rightarrow>
          if \<not> is_transaction_ready_to_go c meta tx then t
          else if have_key_images (k_images t) (vin tx) then t
          else t\<lparr>tx_hashes := tx_hashes t @ [txid], total_size := total_size t + blob_size meta,
                 template_fee := template_fee t + meta_fee meta, best_coinbase := coinbase t,
                 k_images := snd (append_key_images (k_images t) (vin tx))\<rparr>)"

text \<open>\<open>None\<close> is also the exception for an entry without a transaction in the database.\<close>

fun template_loop ::
    "chain \<Rightarrow> tx_memory_pool \<Rightarrow> u64 \<Rightarrow> u64 \<Rightarrow> u8 \<Rightarrow> u64 \<Rightarrow> sorted_entry list \<Rightarrow> template \<Rightarrow> template option" where
  "template_loop c p median_size coins ver max_total_size [] t = Some t"
| "template_loop c p median_size coins ver max_total_size ((_, txid) # entries) t =
     (case map_of (pool_txs p) txid of
        None \<Rightarrow> None
      | Some (meta, txblob) \<Rightarrow>
          (case template_size_check median_size coins ver max_total_size t meta of
             None \<Rightarrow> None
           | Some Stop \<Rightarrow> Some t
           | Some (Skip cb) \<Rightarrow> template_loop c p median_size coins ver max_total_size entries (t\<lparr>coinbase := cb\<rparr>)
           | Some (Consider cb) \<Rightarrow>
               template_loop c p median_size coins ver max_total_size entries
                 (template_step c (t\<lparr>coinbase := cb\<rparr>) txid meta txblob)))"

definition template_max_size :: "u64 \<Rightarrow> u8 \<Rightarrow> u64" where
  "template_max_size median_size ver =
     (let max_total_size_pre_v5 = (130 * median_size) div 100 - CRYPTONOTE_COINBASE_BLOB_RESERVED_SIZE;
          max_total_size_v5 = 2 * median_size - CRYPTONOTE_COINBASE_BLOB_RESERVED_SIZE
      in if 4 \<le> ver then max_total_size_v5 else max_total_size_pre_v5)"

text \<open>\<open>hashes\<close> are the transactions that the block has already.\<close>

definition fill_block_template ::
    "chain \<Rightarrow> tx_memory_pool \<Rightarrow> blob list \<Rightarrow> u64 \<Rightarrow> u64 \<Rightarrow> u8 \<Rightarrow> template option" where
  "fill_block_template c p hashes median_size already_generated_coins ver =
     (case get_block_reward median_size 0 already_generated_coins ver 0 of
        None \<Rightarrow> None
      | Some (_, best) \<Rightarrow>
          template_loop c p median_size already_generated_coins ver (template_max_size median_size ver)
            (txs_by_fee_and_receive_time p)
            \<lparr> tx_hashes = hashes, total_size = 0, template_fee = 0, best_coinbase = best, coinbase = 0,
              k_images = [] \<rparr>)"

fun init_loop :: "tx_memory_pool \<Rightarrow> pool_entry list \<Rightarrow> bool \<times> tx_memory_pool" where
  "init_loop p [] = (True, p)"
| "init_loop p ((txid, meta, bd) # txs) =
     (case parse_and_validate_tx_from_blob bd of
        None \<Rightarrow> (False, p)
      | Some tx \<Rightarrow>
          let (ok, p) = insert_key_images p tx (kept_by_block meta)
          in if \<not> ok then (False, p)
             else init_loop (p\<lparr>txs_by_fee_and_receive_time :=
                    emplace (sorted_entry_of txid meta) (txs_by_fee_and_receive_time p)\<rparr>) txs)"

definition init :: "tx_memory_pool \<Rightarrow> bool \<times> tx_memory_pool" where
  "init p = init_loop (p\<lparr>txs_by_fee_and_receive_time := [], spent_key_images := (\<lambda>_. [])\<rparr>) (pool_txs p)"

definition pool_empty :: tx_memory_pool where
  "pool_empty = \<lparr> pool_txs = [], spent_key_images = (\<lambda>_. []), txs_by_fee_and_receive_time = [],
     timed_out_transactions = [] \<rparr>"

end
