(* ===== verification/Pool_Invariant.thy ===== *)
theory Pool_Invariant
  imports Tx_Pool
begin

text \<open>
  The invariant of the transaction pool: every stored blob is a transaction with the hash it is
  stored under, the key image table lists exactly the stored transactions that spend each image, two
  transactions that spend one image are not both from the network, and the order by fee holds
  exactly the stored transactions. The operations that take transactions out are restrictions of the
  pool, the ones that add keep the invariant.
\<close>

subsection \<open>The invariant\<close>

fun key_images :: "txin_v list \<Rightarrow> blob list" where
  "key_images [] = []"
| "key_images (Txin_to_key k # ins) = k_image k # key_images ins"
| "key_images (_ # ins) = key_images ins"

definition tx_wf :: "transaction \<Rightarrow> bool" where
  "tx_wf tx \<longleftrightarrow> vin tx \<noteq> [] \<and> check_inputs_types (vin tx) \<and> distinct (key_images (vin tx))"

definition entry_ok :: "pool_entry \<Rightarrow> bool" where
  "entry_ok e = (case parse_and_validate_tx_from_blob (snd (snd e)) of
     None \<Rightarrow> False | Some tx \<Rightarrow> get_transaction_hash tx = fst e \<and> tx_wf tx)"

definition spends :: "pool_entry \<Rightarrow> blob \<Rightarrow> bool" where
  "spends e k = (case parse_and_validate_tx_from_blob (snd (snd e)) of
     None \<Rightarrow> False | Some tx \<Rightarrow> k \<in> set (key_images (vin tx)))"

definition db_ok :: "pool_entry list \<Rightarrow> bool" where
  "db_ok es \<longleftrightarrow> distinct (map fst es) \<and> (\<forall>e \<in> set es. entry_ok e)"

definition images_ok :: "pool_entry list \<Rightarrow> (blob \<Rightarrow> blob list) \<Rightarrow> bool" where
  "images_ok es spent \<longleftrightarrow> (\<forall>k. distinct (spent k) \<and> set (spent k) = fst ` {e \<in> set es. spends e k})"

definition single_ok :: "pool_entry list \<Rightarrow> bool" where
  "single_ok es \<longleftrightarrow> (\<forall>e1 \<in> set es. \<forall>e2 \<in> set es. \<forall>k. spends e1 k \<and> spends e2 k
     \<and> \<not> kept_by_block (fst (snd e1)) \<and> \<not> kept_by_block (fst (snd e2)) \<longrightarrow> e1 = e2)"

definition sorted_ok :: "pool_entry list \<Rightarrow> sorted_entry list \<Rightarrow> bool" where
  "sorted_ok es srt \<longleftrightarrow> distinct (map snd srt) \<and> set (map snd srt) = fst ` set es"

definition pool_ok :: "tx_memory_pool \<Rightarrow> bool" where
  "pool_ok p \<longleftrightarrow> db_ok (pool_txs p) \<and> images_ok (pool_txs p) (spent_key_images p) \<and> single_ok (pool_txs p)
     \<and> sorted_ok (pool_txs p) (txs_by_fee_and_receive_time p)"

lemmas pool_defs = db_ok_def images_ok_def single_ok_def sorted_ok_def

lemma pool_ok_empty: "pool_ok pool_empty"
  by (simp add: pool_ok_def pool_defs pool_empty_def)

subsection \<open>Key images\<close>

lemma check_inputs_types_iff: "check_inputs_types ins \<longleftrightarrow> list_all is_to_key ins"
  by (induction ins) auto

lemma insert_loop_ok:
  assumes "check_inputs_types ins" "distinct (key_images ins)"
    and "\<And>k. k \<in> set (key_images ins) \<Longrightarrow> txid \<notin> set (spent k) \<and> (kept \<or> spent k = [])"
  shows "insert_key_images_loop spent txid ins kept =
    (True, \<lambda>k. if k \<in> set (key_images ins) then txid # spent k else spent k)"
  using assms
proof (induction ins arbitrary: spent)
  case (Cons i ins)
  then obtain k where i: "i = Txin_to_key k" by (cases i) auto
  have "insert_key_images_loop (spent(k_image k := txid # spent (k_image k))) txid ins kept =
      (True, \<lambda>q. if q \<in> set (key_images ins) then txid # (spent(k_image k := txid # spent (k_image k))) q
                 else (spent(k_image k := txid # spent (k_image k))) q)"
    using Cons.prems by (intro Cons.IH) (auto simp: i)
  then show ?case using Cons.prems by (auto simp: i fun_eq_iff)
qed auto

lemma insert_loop_True:
  assumes "insert_key_images_loop spent txid ins kept = (True, spent')"
  shows "check_inputs_types ins \<and> distinct (key_images ins)
    \<and> (\<forall>k \<in> set (key_images ins). txid \<notin> set (spent k) \<and> (kept \<or> spent k = []))"
  using assms
proof (induction ins arbitrary: spent)
  case (Cons i ins)
  then obtain k where i: "i = Txin_to_key k" by (cases i) auto
  have u: "txid \<notin> set (spent (k_image k))" "kept \<or> spent (k_image k) = []"
    and l: "insert_key_images_loop (spent(k_image k := txid # spent (k_image k))) txid ins kept = (True, spent')"
    using Cons.prems by (auto simp: i split: if_splits)
  show ?case using Cons.IH [OF l] u by (auto simp: i split: if_splits)
qed auto

lemma insert_loop_present:
  assumes "tx_wf tx" "\<And>k. k \<in> set (key_images (vin tx)) \<Longrightarrow> txid \<in> set (spent k)"
  shows "insert_key_images_loop spent txid (vin tx) kept = (False, spent)"
proof (cases "vin tx")
  case Nil
  with assms show ?thesis by (simp add: tx_wf_def)
next
  case (Cons i ins)
  with assms(1) obtain k where i: "i = Txin_to_key k" by (cases i) (auto simp: tx_wf_def)
  show ?thesis using assms(2) [of "k_image k"] by (simp add: Cons i)
qed

lemma remove_loop_ok:
  assumes "check_inputs_types ins" "distinct (key_images ins)"
    and "\<And>k. k \<in> set (key_images ins) \<Longrightarrow> txid \<in> set (spent k)"
  shows "remove_keyimages_loop spent txid ins =
    (True, \<lambda>k. if k \<in> set (key_images ins) then filter (\<lambda>i. i \<noteq> txid) (spent k) else spent k)"
  using assms
proof (induction ins arbitrary: spent)
  case (Cons i ins)
  then obtain k where i: "i = Txin_to_key k" by (cases i) auto
  let ?s = "spent(k_image k := filter (\<lambda>i. i \<noteq> txid) (spent (k_image k)))"
  have "remove_keyimages_loop ?s txid ins =
      (True, \<lambda>q. if q \<in> set (key_images ins) then filter (\<lambda>i. i \<noteq> txid) (?s q) else ?s q)"
    using Cons.prems by (intro Cons.IH) (auto simp: i)
  then show ?case using Cons.prems by (auto simp: i fun_eq_iff)
qed auto

lemma have_keyimges_iff:
  "check_inputs_types ins \<Longrightarrow>
     have_keyimges_loop p ins \<longleftrightarrow> (\<exists>k \<in> set (key_images ins). spent_key_images p k \<noteq> [])"
  by (induction ins rule: key_images.induct) (auto simp: have_tx_keyimg_as_spent_def)

subsection \<open>Restriction to some of the transactions\<close>

text \<open>The pool with only the transactions whose hash satisfies a condition.\<close>

definition restrict :: "(blob \<Rightarrow> bool) \<Rightarrow> tx_memory_pool \<Rightarrow> tx_memory_pool" where
  "restrict P p = p\<lparr>pool_txs := filter (\<lambda>e. P (fst e)) (pool_txs p),
     spent_key_images := (\<lambda>k. filter P (spent_key_images p k)),
     txs_by_fee_and_receive_time := filter (\<lambda>s. P (snd s)) (txs_by_fee_and_receive_time p)\<rparr>"

lemma db_ok_filter: "db_ok es \<Longrightarrow> db_ok (filter Q es)"
  by (simp add: db_ok_def distinct_map_filter)

lemma single_ok_filter: "single_ok es \<Longrightarrow> single_ok (filter Q es)"
  by (simp add: single_ok_def)

lemma images_ok_filter:
  "images_ok es spent \<Longrightarrow> images_ok (filter (\<lambda>e. P (fst e)) es) (\<lambda>k. filter P (spent k))"
  by (auto simp: images_ok_def)

lemma sorted_ok_filter:
  "sorted_ok es srt \<Longrightarrow> sorted_ok (filter (\<lambda>e. P (fst e)) es) (filter (\<lambda>s. P (snd s)) srt)"
proof -
  assume ok: "sorted_ok es srt"
  have f: "map snd (filter (\<lambda>s. P (snd s)) srt) = filter P (map snd srt)"
    by (simp add: filter_map comp_def)
  show ?thesis using ok by (simp add: sorted_ok_def f) auto
qed

lemma pool_ok_restrict: "pool_ok p \<Longrightarrow> pool_ok (restrict P p)"
  by (simp add: pool_ok_def restrict_def db_ok_filter single_ok_filter images_ok_filter sorted_ok_filter)

lemma restrict_ids: "fst ` set (pool_txs (restrict P p)) = {i \<in> fst ` set (pool_txs p). P i}"
  by (auto simp: restrict_def)

lemma restrict_restrict: "restrict P (restrict Q p) = restrict (\<lambda>i. Q i \<and> P i) p"
  by (simp add: restrict_def conj_commute)

lemma erase_sorted_filter: "distinct (map snd srt) \<Longrightarrow> erase_sorted srt txid = filter (\<lambda>s. snd s \<noteq> txid) srt"
proof (induction srt)
  case (Cons a srt)
  have "filter (\<lambda>s. snd s \<noteq> snd a) srt = srt" using Cons.prems
    by (intro filter_True) (auto simp: image_iff)
  with Cons show ?case by auto
qed simp

lemma foldl_erase_sorted:
  "distinct (map snd srt) \<Longrightarrow> foldl erase_sorted srt ids = filter (\<lambda>s. snd s \<notin> set ids) srt"
proof (induction ids arbitrary: srt)
  case (Cons i ids)
  have "distinct (map snd (filter (\<lambda>s. snd s \<noteq> i) srt))" using Cons.prems by (simp add: distinct_map_filter)
  with Cons.IH [OF this] Cons.prems show ?case by (simp add: erase_sorted_filter conj_commute)
qed simp

lemma find_sorted_iff: "find_tx_in_sorted_container srt txid = None \<longleftrightarrow> txid \<notin> set (map snd srt)"
  by (induction srt) auto

lemma entry_okD:
  "entry_ok (txid, meta, b) \<Longrightarrow> \<exists>tx. parse_and_validate_tx_from_blob b = Some tx \<and> get_transaction_hash tx = txid \<and> tx_wf tx"
  by (auto simp: entry_ok_def split: option.splits)

lemma images_ok_owner:
  assumes "db_ok es" "images_ok es spent" "(txid, meta, b) \<in> set es"
    and "parse_and_validate_tx_from_blob b = Some tx"
  shows "txid \<in> set (spent k) \<longleftrightarrow> k \<in> set (key_images (vin tx))"
proof -
  have inj: "inj_on fst (set es)" using assms(1) by (simp add: db_ok_def distinct_map)
  have u: "e = (txid, meta, b)" if "e \<in> set es" "fst e = txid" for e
    using inj_onD [OF inj, of e "(txid, meta, b)"] that assms(3) by simp
  have "txid \<in> fst ` {e \<in> set es. spends e k} \<longleftrightarrow> spends (txid, meta, b) k" (is "?l \<longleftrightarrow> ?r")
  proof
    assume ?l
    then obtain e where "e \<in> set es" "fst e = txid" "spends e k"
      by (elim imageE CollectE conjE) (rule that, simp_all)
    then show ?r using u [of e] by simp
  next
    assume ?r
    then have "(txid, meta, b) \<in> {e \<in> set es. spends e k}" using assms(3) by simp
    then show ?l by (rule rev_image_eqI) simp
  qed
  then show ?thesis using assms(2,4) by (simp add: images_ok_def spends_def)
qed

lemma remove_keyimages_owner:
  assumes "db_ok (pool_txs p)" "images_ok (pool_txs p) (spent_key_images p)" "(txid, meta, b) \<in> set (pool_txs p)"
    and "parse_and_validate_tx_from_blob b = Some tx"
  shows "remove_transaction_keyimages (remove_txpool_tx p txid) tx =
    (True, p\<lparr>pool_txs := filter (\<lambda>e. fst e \<noteq> txid) (pool_txs p),
             spent_key_images := (\<lambda>k. filter (\<lambda>i. i \<noteq> txid) (spent_key_images p k))\<rparr>)"
proof -
  have e: "get_transaction_hash tx = txid" "tx_wf tx"
    using assms(1,3,4) entry_okD [of txid meta b] by (auto simp: db_ok_def)
  note own = images_ok_owner [OF assms]
  have "remove_keyimages_loop (spent_key_images p) txid (vin tx) =
      (True, \<lambda>k. if k \<in> set (key_images (vin tx)) then filter (\<lambda>i. i \<noteq> txid) (spent_key_images p k)
                 else spent_key_images p k)"
    using e(2) own by (intro remove_loop_ok) (auto simp: tx_wf_def)
  also have "(\<lambda>k. if k \<in> set (key_images (vin tx)) then filter (\<lambda>i. i \<noteq> txid) (spent_key_images p k)
      else spent_key_images p k) = (\<lambda>k. filter (\<lambda>i. i \<noteq> txid) (spent_key_images p k))"
  proof
    fix k
    have "filter (\<lambda>i. i \<noteq> txid) (spent_key_images p k) = spent_key_images p k"
      if "k \<notin> set (key_images (vin tx))"
      using that own [of k] by (intro filter_True) auto
    then show "(if k \<in> set (key_images (vin tx)) then filter (\<lambda>i. i \<noteq> txid) (spent_key_images p k)
      else spent_key_images p k) = filter (\<lambda>i. i \<noteq> txid) (spent_key_images p k)" by simp
  qed
  finally show ?thesis
    by (simp add: remove_transaction_keyimages_def remove_txpool_tx_def e(1))
qed

lemma images_ok_subset: "images_ok es spent \<Longrightarrow> set (spent k) \<subseteq> fst ` set es"
  by (auto simp: images_ok_def)

lemma drop_tx_filter:
  assumes "db_ok (pool_txs p)" "images_ok (pool_txs p) (spent_key_images p)"
  shows "drop_tx p txid =
    (txid \<in> fst ` set (pool_txs p), p\<lparr>pool_txs := filter (\<lambda>e. fst e \<noteq> txid) (pool_txs p),
       spent_key_images := (\<lambda>k. filter (\<lambda>i. i \<noteq> txid) (spent_key_images p k))\<rparr>)"
proof (cases "map_of (pool_txs p) txid")
  case None
  then have n: "txid \<notin> fst ` set (pool_txs p)" by (simp add: map_of_eq_None_iff)
  then have "filter (\<lambda>e. fst e \<noteq> txid) (pool_txs p) = pool_txs p"
    by (intro filter_True) (auto simp: image_iff)
  moreover have "filter (\<lambda>i. i \<noteq> txid) (spent_key_images p k) = spent_key_images p k" for k
    using n images_ok_subset [OF assms(2), of k] by (intro filter_True) auto
  ultimately show ?thesis using n by (simp add: drop_tx_def None)
next
  case (Some v)
  obtain meta b where v: "v = (meta, b)" by (cases v)
  have m: "(txid, meta, b) \<in> set (pool_txs p)" using map_of_SomeD [OF Some] by (simp add: v)
  obtain tx where tx: "parse_and_validate_tx_from_blob b = Some tx"
    using assms(1) m entry_okD [of txid meta b] by (auto simp: db_ok_def)
  have "txid \<in> fst ` set (pool_txs p)" using m by (rule rev_image_eqI) simp
  then show ?thesis using remove_keyimages_owner [OF assms m tx]
    by (simp add: drop_tx_def Some v tx)
qed

lemma take_tx_restrict:
  assumes "pool_ok p" "(txid, meta, b) \<in> set (pool_txs p)"
  shows "\<exists>tx. parse_and_validate_tx_from_blob b = Some tx \<and> get_transaction_hash tx = txid \<and>
    take_tx p txid = (Some (tx, blob_size meta, meta_fee meta, relayed meta, do_not_relay meta), restrict (\<lambda>i. i \<noteq> txid) p)"
proof -
  have ok: "db_ok (pool_txs p)" "images_ok (pool_txs p) (spent_key_images p)"
    "sorted_ok (pool_txs p) (txs_by_fee_and_receive_time p)" using assms by (simp_all add: pool_ok_def)
  obtain tx where tx: "parse_and_validate_tx_from_blob b = Some tx" "get_transaction_hash tx = txid"
    using ok(1) assms(2) entry_okD [of txid meta b] by (auto simp: db_ok_def)
  have "map_of (pool_txs p) txid = Some (meta, b)" using ok(1) assms(2) by (simp add: db_ok_def)
  moreover have "find_tx_in_sorted_container (txs_by_fee_and_receive_time p) txid \<noteq> None"
    using ok(3) rev_image_eqI [OF assms(2), of txid fst] by (simp add: find_sorted_iff sorted_ok_def)
  ultimately show ?thesis using tx ok(3) remove_keyimages_owner [OF ok(1,2) assms(2) tx(1)]
    by (simp add: take_tx_def restrict_def sorted_ok_def erase_sorted_filter)
qed

lemma take_tx_absent: "txid \<notin> fst ` set (pool_txs p) \<Longrightarrow> take_tx p txid = (None, p)"
  by (simp add: take_tx_def map_of_eq_None_iff [THEN iffD2])

text \<open>Dropping a list of transactions one after the other.\<close>

lemma foldl_drop_tx:
  assumes "db_ok (pool_txs p)" "images_ok (pool_txs p) (spent_key_images p)"
  shows "foldl (\<lambda>p txid. snd (drop_tx p txid)) p ids =
    p\<lparr>pool_txs := filter (\<lambda>e. fst e \<notin> set ids) (pool_txs p),
      spent_key_images := (\<lambda>k. filter (\<lambda>i. i \<notin> set ids) (spent_key_images p k))\<rparr>"
  using assms
proof (induction ids arbitrary: p)
  case (Cons i ids)
  let ?q = "p\<lparr>pool_txs := filter (\<lambda>e. fst e \<noteq> i) (pool_txs p),
      spent_key_images := (\<lambda>k. filter (\<lambda>j. j \<noteq> i) (spent_key_images p k))\<rparr>"
  have "foldl (\<lambda>p txid. snd (drop_tx p txid)) ?q ids =
      ?q\<lparr>pool_txs := filter (\<lambda>e. fst e \<notin> set ids) (pool_txs ?q),
         spent_key_images := (\<lambda>k. filter (\<lambda>i. i \<notin> set ids) (spent_key_images ?q k))\<rparr>"
    using Cons.prems by (intro Cons.IH) (simp_all add: db_ok_filter images_ok_filter [where P = "\<lambda>j. j \<noteq> i"])
  then show ?case using Cons.prems by (simp add: drop_tx_filter conj_commute)
qed simp

lemma remove_stuck_restrict:
  assumes "pool_ok p"
  shows "remove_stuck_transactions now p =
    (let ids = map fst (filter (\<lambda>(_, meta, _). is_stuck now meta) (pool_txs p))
     in (restrict (\<lambda>i. i \<notin> set ids) p)\<lparr>timed_out_transactions := ids @ timed_out_transactions p\<rparr>)"
proof -
  have ok: "db_ok (pool_txs p)" "images_ok (pool_txs p) (spent_key_images p)"
    "distinct (map snd (txs_by_fee_and_receive_time p))" using assms by (simp_all add: pool_ok_def sorted_ok_def)
  show ?thesis
    unfolding remove_stuck_transactions_def Let_def
    by (subst foldl_drop_tx) (use ok in \<open>simp_all add: foldl_erase_sorted restrict_def\<close>)
qed

lemma validate_one_restrict:
  assumes "pool_ok p"
  shows "validate_one (p, n) txid =
    (restrict (\<lambda>i. i \<noteq> txid) p, if txid \<in> fst ` set (pool_txs p) then n + 1 else n)"
proof -
  have ok: "db_ok (pool_txs p)" "images_ok (pool_txs p) (spent_key_images p)"
    "sorted_ok (pool_txs p) (txs_by_fee_and_receive_time p)" using assms by (simp_all add: pool_ok_def)
  have "filter (\<lambda>s. snd s \<noteq> txid) (txs_by_fee_and_receive_time p) = txs_by_fee_and_receive_time p"
    if "txid \<notin> fst ` set (pool_txs p)"
    using that ok(3) by (intro filter_True) (auto simp: sorted_ok_def)
  then show ?thesis using ok
    by (simp add: validate_one_def drop_tx_filter restrict_def sorted_ok_def erase_sorted_filter)
qed

lemma foldl_validate:
  assumes "pool_ok p" "distinct ids" "set ids \<subseteq> fst ` set (pool_txs p)"
  shows "foldl validate_one (p, n) ids = (restrict (\<lambda>i. i \<notin> set ids) p, n + length ids)"
  using assms
proof (induction ids arbitrary: p n)
  case Nil
  show ?case by (simp add: restrict_def)
next
  case (Cons i ids)
  have "set ids \<subseteq> fst ` set (pool_txs (restrict (\<lambda>j. j \<noteq> i) p))"
    using Cons.prems by (simp add: restrict_ids) blast
  then have "foldl validate_one (restrict (\<lambda>j. j \<noteq> i) p, n + 1) ids =
      (restrict (\<lambda>j. j \<notin> set ids) (restrict (\<lambda>j. j \<noteq> i) p), n + 1 + length ids)"
    using Cons.prems by (intro Cons.IH pool_ok_restrict) simp_all
  then show ?case using Cons.prems by (simp add: validate_one_restrict restrict_restrict)
qed

lemma validate_restrict:
  assumes "pool_ok p"
  shows "validate c p ver =
    (let ids = map fst (filter (\<lambda>(txid, meta, _). get_transaction_size_limit ver \<le> blob_size meta \<or> chain_have_tx c txid)
                 (pool_txs p))
     in (restrict (\<lambda>i. i \<notin> set ids) p, length ids))"
  unfolding validate_def Let_def using assms
  by (subst foldl_validate) (auto simp: pool_ok_def db_ok_def distinct_map_filter)

subsection \<open>Adding\<close>

lemma put_entry_set [simp]: "set (put_entry x es) = insert x (set es)"
  by (induction es) auto

lemma put_entry_distinct [simp]: "distinct (map fst (put_entry x es)) \<longleftrightarrow> distinct (map fst (x # es))"
  by (induction es) auto

lemma put_entry_filter: "fst x \<notin> fst ` set es \<Longrightarrow> filter (\<lambda>e. fst e \<noteq> fst x) (put_entry x es) = es"
proof (induction es)
  case (Cons e es)
  have "filter (\<lambda>e. fst e \<noteq> fst x) es = es" using Cons.prems by (intro filter_True) (auto simp: image_iff)
  with Cons show ?case by auto
qed simp

lemma txCompare_total: "snd a \<noteq> snd b \<Longrightarrow> txCompare a b \<or> txCompare b a"
  by (simp add: txCompare_def Let_def)

lemma emplace_set: "snd x \<notin> snd ` set srt \<Longrightarrow> set (emplace x srt) = insert x (set srt)"
proof (induction srt)
  case (Cons y srt)
  then show ?case using txCompare_total [of x y] by auto
qed simp

lemma emplace_distinct:
  "snd x \<notin> snd ` set srt \<Longrightarrow> distinct (map snd srt) \<Longrightarrow> distinct (map snd (emplace x srt))"
proof (induction srt)
  case (Cons y srt)
  then show ?case using emplace_set [of x srt] by (auto simp: image_iff)
qed simp

lemma emplace_filter: "snd x \<notin> snd ` set srt \<Longrightarrow> filter (\<lambda>s. snd s \<noteq> snd x) (emplace x srt) = srt"
proof (induction srt)
  case (Cons y srt)
  have "filter (\<lambda>s. snd s \<noteq> snd x) srt = srt" using Cons.prems by (intro filter_True) (auto simp: image_iff)
  then show ?case using Cons txCompare_total [of x y] by auto
qed simp

text \<open>A transaction whose blob parses to one with the same inputs and the same hash.\<close>

definition storable :: "transaction \<Rightarrow> bool" where
  "storable tx = (case parse_and_validate_tx_from_blob (tx_to_blob tx) of
     None \<Rightarrow> False | Some tx' \<Rightarrow> vin tx' = vin tx \<and> get_transaction_hash tx' = get_transaction_hash tx)"

lemma storable_entry:
  assumes "storable tx" "tx_wf tx"
  shows "entry_ok (get_transaction_hash tx, meta, tx_to_blob tx)
    \<and> (spends (get_transaction_hash tx, meta, tx_to_blob tx) k \<longleftrightarrow> k \<in> set (key_images (vin tx)))"
  using assms by (auto simp: storable_def entry_ok_def spends_def tx_wf_def split: option.splits)

lemma images_ok_insert:
  assumes "images_ok es spent" "fst e \<notin> fst ` set es" "\<And>k. spends e k \<longleftrightarrow> k \<in> K" "set es' = insert e (set es)"
  shows "images_ok es' (\<lambda>k. if k \<in> K then fst e # spent k else spent k)"
  unfolding images_ok_def
proof
  fix k
  have "fst e \<notin> set (spent k)" using assms(2) images_ok_subset [OF assms(1), of k] by blast
  moreover have "{e' \<in> set es'. spends e' k} = (if k \<in> K then insert e {e \<in> set es. spends e k} else {e \<in> set es. spends e k})"
    using assms(3,4) by auto
  ultimately show "distinct (if k \<in> K then fst e # spent k else spent k)
      \<and> set (if k \<in> K then fst e # spent k else spent k) = fst ` {e \<in> set es'. spends e k}"
    using assms(1) by (simp add: images_ok_def)
qed

lemma single_okD:
  "single_ok es \<Longrightarrow> e1 \<in> set es \<Longrightarrow> e2 \<in> set es \<Longrightarrow> spends e1 k \<Longrightarrow> spends e2 k \<Longrightarrow>
     \<not> kept_by_block (fst (snd e1)) \<Longrightarrow> \<not> kept_by_block (fst (snd e2)) \<Longrightarrow> e1 = e2"
  unfolding single_ok_def by blast

lemma single_ok_insert:
  assumes "single_ok es" "set es' = insert e (set es)"
    and "kept_by_block (fst (snd e)) \<or> (\<forall>e' \<in> set es. \<forall>k. spends e k \<longrightarrow> \<not> spends e' k)"
  shows "single_ok es'"
  unfolding single_ok_def
proof (intro ballI allI impI)
  fix e1 e2 k
  assume e: "e1 \<in> set es'" "e2 \<in> set es'" and s: "spends e1 k \<and> spends e2 k
    \<and> \<not> kept_by_block (fst (snd e1)) \<and> \<not> kept_by_block (fst (snd e2))"
  consider "e1 \<in> set es" "e2 \<in> set es" | "e1 = e" | "e2 = e" using e assms(2) by auto
  then show "e1 = e2"
  proof cases
    case 1
    then show ?thesis using single_okD [OF assms(1) 1, of k] s by simp
  next
    case 2
    then show ?thesis using assms(2,3) e s by auto
  next
    case 3
    then show ?thesis using assms(2,3) e s by auto
  qed
qed

lemma sorted_ok_insert:
  assumes "sorted_ok es srt" "fst e \<notin> fst ` set es" "set es' = insert e (set es)" "snd x = fst e"
  shows "sorted_ok es' (emplace x srt)"
proof -
  have "snd x \<notin> snd ` set srt" using assms by (simp add: sorted_ok_def)
  then show ?thesis using assms by (simp add: sorted_ok_def emplace_set emplace_distinct)
qed

text \<open>Storing a new transaction.\<close>

lemma store_tx_new:
  assumes "pool_ok p" "storable tx" "tx_wf tx" "txid = get_transaction_hash tx" "txid \<notin> fst ` set (pool_txs p)"
    and "kept_by_block meta \<or> (\<forall>k \<in> set (key_images (vin tx)). spent_key_images p k = [])"
  shows "store_tx p tx txid meta =
      (True, p\<lparr>pool_txs := put_entry (txid, meta, tx_to_blob tx) (pool_txs p),
               spent_key_images := (\<lambda>k. if k \<in> set (key_images (vin tx)) then txid # spent_key_images p k
                                        else spent_key_images p k),
               txs_by_fee_and_receive_time := emplace (sorted_entry_of txid meta) (txs_by_fee_and_receive_time p)\<rparr>)
    \<and> pool_ok (snd (store_tx p tx txid meta))"
proof -
  let ?e = "(txid, meta, tx_to_blob tx)"
  have e: "entry_ok ?e" "\<And>k. spends ?e k \<longleftrightarrow> k \<in> set (key_images (vin tx))"
    using storable_entry [OF assms(2,3)] by (simp_all add: assms(4))
  have img: "images_ok (pool_txs p) (spent_key_images p)" and "single_ok (pool_txs p)"
    and db: "db_ok (pool_txs p)" and "sorted_ok (pool_txs p) (txs_by_fee_and_receive_time p)"
    using assms(1) by (simp_all add: pool_ok_def)
  have nin: "txid \<notin> set (spent_key_images p k)" for k
    using assms(5) images_ok_subset [OF img, of k] by blast
  have ins: "insert_key_images_loop (spent_key_images p) txid (vin tx) (kept_by_block meta) =
      (True, \<lambda>k. if k \<in> set (key_images (vin tx)) then txid # spent_key_images p k else spent_key_images p k)"
    using assms(3,6) nin by (intro insert_loop_ok) (auto simp: tx_wf_def)
  have st: "store_tx p tx txid meta =
      (True, p\<lparr>pool_txs := put_entry ?e (pool_txs p),
               spent_key_images := (\<lambda>k. if k \<in> set (key_images (vin tx)) then txid # spent_key_images p k
                                        else spent_key_images p k),
               txs_by_fee_and_receive_time := emplace (sorted_entry_of txid meta) (txs_by_fee_and_receive_time p)\<rparr>)"
    using assms(5) ins
    by (simp add: store_tx_def add_txpool_tx_def map_of_eq_None_iff [THEN iffD2] insert_key_images_def assms(4) [symmetric])
  have "kept_by_block meta \<or> (\<forall>e' \<in> set (pool_txs p). \<forall>k. spends ?e k \<longrightarrow> \<not> spends e' k)"
  proof (cases "kept_by_block meta")
    case False
    have "\<not> spends e' k" if "e' \<in> set (pool_txs p)" "spends ?e k" for e' k
    proof -
      have "fst ` {e \<in> set (pool_txs p). spends e k} = set (spent_key_images p k)"
        using img by (simp add: images_ok_def)
      also have "\<dots> = {}" using that(2) e(2) assms(6) False by simp
      finally show ?thesis using that(1) by blast
    qed
    then show ?thesis by blast
  qed simp
  then have "single_ok (put_entry ?e (pool_txs p))"
    by (intro single_ok_insert [OF \<open>single_ok (pool_txs p)\<close>, of _ ?e]) simp_all
  moreover have "images_ok (put_entry ?e (pool_txs p))
      (\<lambda>k. if k \<in> set (key_images (vin tx)) then txid # spent_key_images p k else spent_key_images p k)"
    by (rule images_ok_insert [OF img, of ?e _ "put_entry ?e (pool_txs p)", unfolded fst_conv])
      (use assms(5) e(2) in simp_all)
  moreover have "sorted_ok (put_entry ?e (pool_txs p)) (emplace (sorted_entry_of txid meta) (txs_by_fee_and_receive_time p))"
    using assms(5)
    by (intro sorted_ok_insert [OF \<open>sorted_ok (pool_txs p) _\<close>, of ?e]) (simp_all add: sorted_entry_of_def)
  moreover have "db_ok (put_entry ?e (pool_txs p))" using db e(1) assms(5) by (simp add: db_ok_def)
  ultimately have "pool_ok (snd (store_tx p tx txid meta))" by (simp add: st pool_ok_def)
  with st show ?thesis by simp
qed

text \<open>
  A transaction that is stored already: the metadata is replaced, the key images are not inserted
  again, and the result is false. \<open>same_spends\<close> says that the stored one spends the same images.
\<close>

definition same_spends :: "tx_memory_pool \<Rightarrow> transaction \<Rightarrow> bool" where
  "same_spends p tx \<longleftrightarrow> (\<forall>e \<in> set (pool_txs p). fst e = get_transaction_hash tx \<longrightarrow>
     (\<forall>k. spends e k \<longleftrightarrow> k \<in> set (key_images (vin tx))))"

lemma key_images_Nil: "check_inputs_types ins \<Longrightarrow> key_images ins = [] \<longleftrightarrow> ins = []"
  by (induction ins rule: key_images.induct) auto

lemma present_spent:
  assumes "pool_ok p" "same_spends p tx" "txid = get_transaction_hash tx" "txid \<in> fst ` set (pool_txs p)"
    and "k \<in> set (key_images (vin tx))"
  shows "txid \<in> set (spent_key_images p k)"
proof -
  obtain e where e: "e \<in> set (pool_txs p)" "fst e = txid" using assms(4) by (elim imageE) simp
  then have "spends e k" using assms(2,3,5) by (simp add: same_spends_def)
  with e have "txid \<in> fst ` {e \<in> set (pool_txs p). spends e k}" by (intro image_eqI [of _ _ e]) simp_all
  then show ?thesis using assms(1) by (simp add: pool_ok_def images_ok_def)
qed

lemma store_tx_replace:
  assumes "pool_ok p" "storable tx" "tx_wf tx" "same_spends p tx" "txid = get_transaction_hash tx"
    and "txid \<in> fst ` set (pool_txs p)" "kept_by_block meta"
  shows "pool_ok (snd (store_tx (remove_txpool_tx p txid) tx txid meta))"
proof -
  let ?e = "(txid, meta, tx_to_blob tx)" and ?f = "filter (\<lambda>e. fst e \<noteq> txid) (pool_txs p)"
  have e: "entry_ok ?e" "\<And>k. spends ?e k \<longleftrightarrow> k \<in> set (key_images (vin tx))"
    using storable_entry [OF assms(2,3)] by (simp_all add: assms(5))
  have ok: "images_ok (pool_txs p) (spent_key_images p)" "single_ok ?f" "db_ok ?f"
    "sorted_ok (pool_txs p) (txs_by_fee_and_receive_time p)"
    using assms(1) by (simp_all add: pool_ok_def single_ok_filter db_ok_filter)
  have nf: "txid \<notin> fst ` set ?f" by auto
  have "insert_key_images_loop (spent_key_images p) txid (vin tx) True = (False, spent_key_images p)"
    using present_spent [OF assms(1,4,5,6)] by (intro insert_loop_present [OF assms(3)])
  then have st: "snd (store_tx (remove_txpool_tx p txid) tx txid meta) = p\<lparr>pool_txs := put_entry ?e ?f\<rparr>"
    using nf assms(7) by (simp add: store_tx_def add_txpool_tx_def remove_txpool_tx_def map_of_eq_None_iff [THEN iffD2]
        insert_key_images_def assms(5) [symmetric])
  have sp: "fst ` {e \<in> insert ?e (set ?f). spends e k} = set (spent_key_images p k)" for k
  proof -
    have "fst ` {e \<in> set ?f. spends e k} = set (spent_key_images p k) - {txid}"
      using images_ok_filter [OF ok(1), of "\<lambda>i. i \<noteq> txid"] by (auto simp: images_ok_def)
    moreover have "txid \<in> set (spent_key_images p k) \<longleftrightarrow> spends ?e k"
    proof
      assume "txid \<in> set (spent_key_images p k)"
      then have "txid \<in> fst ` {e \<in> set (pool_txs p). spends e k}" using ok(1) by (simp add: images_ok_def)
      then obtain e' where "e' \<in> set (pool_txs p)" "fst e' = txid" "spends e' k"
        by (elim imageE CollectE conjE) (rule that, simp_all)
      then show "spends ?e k" using assms(4,5) e(2) by (simp add: same_spends_def)
    next
      assume "spends ?e k"
      then show "txid \<in> set (spent_key_images p k)" using present_spent [OF assms(1,4,5,6)] e(2) by simp
    qed
    moreover have "{e \<in> insert ?e (set ?f). spends e k} =
        (if spends ?e k then insert ?e {e \<in> set ?f. spends e k} else {e \<in> set ?f. spends e k})" by auto
    ultimately show ?thesis by (cases "spends ?e k") (simp_all add: insert_absorb)
  qed
  have "images_ok (put_entry ?e ?f) (spent_key_images p)" using ok(1) sp by (simp add: images_ok_def)
  moreover have "single_ok (put_entry ?e ?f)" using assms(7)
    by (intro single_ok_insert [OF ok(2), of _ ?e]) simp_all
  moreover have "db_ok (put_entry ?e ?f)" using ok(3) e(1) nf by (simp add: db_ok_def)
  moreover have "fst ` set (put_entry ?e ?f) = fst ` set (pool_txs p)" using assms(6) by auto
  then have "sorted_ok (put_entry ?e ?f) (txs_by_fee_and_receive_time p)" using ok(4) by (simp add: sorted_ok_def)
  ultimately show ?thesis by (simp add: st pool_ok_def)
qed

lemma have_tx_iff: "have_tx p h \<longleftrightarrow> h \<in> fst ` set (pool_txs p)"
  by (simp add: have_tx_def map_of_eq_None_iff)

lemma remove_absent: "txid \<notin> fst ` set (pool_txs p) \<Longrightarrow> remove_txpool_tx p txid = p"
proof -
  assume "txid \<notin> fst ` set (pool_txs p)"
  then have "filter (\<lambda>e. fst e \<noteq> txid) (pool_txs p) = pool_txs p" by (intro filter_True) (auto simp: image_iff)
  then show ?thesis by (simp add: remove_txpool_tx_def)
qed

lemma store_tx_ok:
  assumes "pool_ok p" "storable tx" "tx_wf tx" "same_spends p tx" "txid = get_transaction_hash tx"
    and "kept_by_block meta \<or> (\<forall>k \<in> set (key_images (vin tx)). spent_key_images p k = [])"
  shows "pool_ok (snd (store_tx p tx txid meta)) \<and> pool_ok (snd (store_tx (remove_txpool_tx p txid) tx txid meta))"
proof (cases "txid \<in> fst ` set (pool_txs p)")
  case True
  obtain k where k: "k \<in> set (key_images (vin tx))"
    using assms(3) key_images_Nil by (cases "key_images (vin tx)") (auto simp: tx_wf_def)
  have "kept_by_block meta" using assms(6) k present_spent [OF assms(1,4,5) True k] by auto
  then have "pool_ok (snd (store_tx (remove_txpool_tx p txid) tx txid meta))"
    by (intro store_tx_replace [OF assms(1-5) True])
  moreover have "map_of (pool_txs p) txid \<noteq> None" using True by (simp add: map_of_eq_None_iff)
  then have "store_tx p tx txid meta = (False, p)"
    by (simp add: store_tx_def add_txpool_tx_def assms(5) [symmetric])
  ultimately show ?thesis using assms(1) by simp
next
  case False
  then have "filter (\<lambda>e. fst e \<noteq> txid) (pool_txs p) = pool_txs p"
    by (intro filter_True) (auto simp: image_iff)
  then have "remove_txpool_tx p txid = p" by (simp add: remove_txpool_tx_def)
  then show ?thesis using conjunct2 [OF store_tx_new [OF assms(1-3,5) False assms(6)]] by simp
qed

lemma add_tx_cases:
  assumes "add_tx c now p tx txid bsize tvc kept rel nrel ver = (res, tvc', p')"
  obtains (refused) "\<not> res" "p' = p"
  | (stored) f i h q where "kept \<or> \<not> have_tx_keyimges_as_spent p tx" "add_tx_fee tx tvc = Inr f"
      "q = p \<or> q = remove_txpool_tx p (get_transaction_hash tx)"
      "store_tx q tx txid (make_meta bsize f i h now kept rel nrel) = (res, p')"
proof -
  let ?go = "version tx \<noteq> 0 \<and> (kept \<or> txid \<notin> set (timed_out_transactions p)) \<and> check_inputs_types_supported tx"
  consider "\<not> ?go" | t where "?go" "add_tx_fee tx tvc = Inl t" | f where "?go" "add_tx_fee tx tvc = Inr f"
    by (cases "add_tx_fee tx tvc") blast+
  then show thesis
  proof cases
    case 1
    then have "\<not> res \<and> p' = p" using assms by (simp add: add_tx_def split: if_splits)
    then show ?thesis using refused by blast
  next
    case 2
    then have "\<not> res \<and> p' = p" using assms by (simp add: add_tx_def split: if_splits)
    then show ?thesis using refused by blast
  next
    case (3 f)
    let ?go2 = "kept \<or> chain_check_fee c bsize f \<and> \<not> get_transaction_size_limit ver \<le> bsize
      \<and> \<not> have_tx_keyimges_as_spent p tx"
    obtain o1 t1 where o: "chain_check_tx_outputs c tx tvc = (o1, t1)" by (cases "chain_check_tx_outputs c tx tvc")
    obtain r t2 where i: "chain_check_tx_inputs c tx kept t1 = (r, t2)" by (cases "chain_check_tx_inputs c tx kept t1")
    show ?thesis
    proof (cases "?go2 \<and> o1 \<and> (r \<noteq> None \<or> kept)")
      case False
      then have "\<not> res \<and> p' = p" using assms 3 o i by (cases r) (auto simp: add_tx_def split: if_splits)
      then show ?thesis using refused by blast
    next
      case go: True
      then have k: "kept \<or> \<not> have_tx_keyimges_as_spent p tx" by blast
      show ?thesis
      proof (cases r)
        case None
        obtain ok q where st: "store_tx p tx txid (make_meta bsize f null_hash 0 now kept rel nrel) = (ok, q)"
          by (cases "store_tx p tx txid (make_meta bsize f null_hash 0 now kept rel nrel)")
        have "ok = res \<and> q = p'" using assms 3 o i go None st by (cases ok) (auto simp: add_tx_def)
        then show ?thesis using stored [OF k 3(2), of p] st by simp
      next
        case (Some v)
        obtain h j where v: "v = (h, j)" by (cases v)
        let ?s = "store_tx (remove_txpool_tx p (get_transaction_hash tx)) tx txid (make_meta bsize f j h now kept rel nrel)"
        obtain ok q where st: "?s = (ok, q)" by (cases ?s)
        have "ok = res \<and> q = p'" using assms 3 o i go Some v st by (cases ok) (auto simp: add_tx_def)
        then show ?thesis using stored [OF k 3(2), of "remove_txpool_tx p (get_transaction_hash tx)"] st by simp
      qed
    qed
  qed
qed

lemma add_tx_ok:
  assumes "pool_ok p" "storable tx" "tx_wf tx" "same_spends p tx"
  shows "pool_ok (snd (snd (add_tx c now p tx (get_transaction_hash tx) bsize tvc kept rel nrel ver)))"
proof -
  have "kept \<or> (\<forall>k \<in> set (key_images (vin tx)). spent_key_images p k = [])"
    if "kept \<or> \<not> have_tx_keyimges_as_spent p tx"
    using that assms(3) have_keyimges_iff [of "vin tx" p] by (auto simp: have_tx_keyimges_as_spent_def tx_wf_def)
  then have st: "pool_ok (snd (store_tx q tx (get_transaction_hash tx) meta))"
    if "kept \<or> \<not> have_tx_keyimges_as_spent p tx" "q = p \<or> q = remove_txpool_tx p (get_transaction_hash tx)"
      "kept_by_block meta = kept" for q meta
    using that store_tx_ok [OF assms refl, of meta] by auto
  obtain res t q where a: "add_tx c now p tx (get_transaction_hash tx) bsize tvc kept rel nrel ver = (res, t, q)"
    by (cases "add_tx c now p tx (get_transaction_hash tx) bsize tvc kept rel nrel ver")
  from a show ?thesis
  proof (cases rule: add_tx_cases)
    case refused
    then show ?thesis using assms(1) a by simp
  next
    case (stored f i h q')
    then show ?thesis using st [OF stored(1,3), of "make_meta bsize f i h now kept rel nrel"] a
      by (simp add: make_meta_def)
  qed
qed

subsection \<open>Relaying and restarting\<close>

lemma update_txpool_ok:
  assumes "pool_ok p" "map_of (pool_txs p) txid = Some (m, b)" "kept_by_block m' = kept_by_block m"
    and "update_txpool_tx p txid m' = Some p'"
  shows "pool_ok p'"
proof -
  define g where "g = (\<lambda>(i, m, b :: blob). if i = txid then (i, m', b) else (i, m :: txpool_tx_meta, b))"
  have p': "p' = p\<lparr>pool_txs := map g (pool_txs p)\<rparr>" using assms(2,4) by (simp add: update_txpool_tx_def g_def)
  have d: "distinct (map fst (pool_txs p))" using assms(1) by (simp add: pool_ok_def db_ok_def)
  have g: "fst (g e) = fst e" "snd (snd (g e)) = snd (snd e)" for e by (cases e; simp add: g_def)+
  then have g': "entry_ok (g e) = entry_ok e" "spends (g e) = spends e" for e
    by (simp_all add: entry_ok_def spends_def fun_eq_iff split: option.split)
  have gk: "kept_by_block (fst (snd (g e))) = kept_by_block (fst (snd e))" if "e \<in> set (pool_txs p)" for e
  proof (cases "fst e = txid")
    case True
    then have "(txid, snd e) \<in> set (pool_txs p)" using that by (cases e) simp
    then have "snd e = (m, b)" using assms(2) map_of_is_SomeI [OF d] by fastforce
    then show ?thesis using True assms(3) by (cases e) (simp add: g_def)
  qed (cases e; simp add: g_def)
  have fm: "fst \<circ> g = fst" by (rule ext) (simp add: g)
  have "db_ok (map g (pool_txs p))" using assms(1) g'
    by (simp add: pool_ok_def db_ok_def fm)
  moreover have "fst ` {e \<in> g ` set (pool_txs p). spends e k} = fst ` {e \<in> set (pool_txs p). spends e k}" for k
  proof -
    have "{e \<in> g ` set (pool_txs p). spends e k} = g ` {e \<in> set (pool_txs p). spends e k}" using g'(2) by auto
    then show ?thesis by (simp only: image_comp fm)
  qed
  then have "images_ok (map g (pool_txs p)) (spent_key_images p)" using assms(1)
    by (simp add: pool_ok_def images_ok_def)
  moreover have "single_ok (map g (pool_txs p))"
    unfolding single_ok_def
  proof (intro ballI allI impI)
    fix e1 e2 k
    assume e: "e1 \<in> set (map g (pool_txs p))" "e2 \<in> set (map g (pool_txs p))"
      and s: "spends e1 k \<and> spends e2 k \<and> \<not> kept_by_block (fst (snd e1)) \<and> \<not> kept_by_block (fst (snd e2))"
    obtain x1 where x1: "x1 \<in> set (pool_txs p)" "e1 = g x1" using e(1) by (simp only: set_map) (elim imageE)
    obtain x2 where x2: "x2 \<in> set (pool_txs p)" "e2 = g x2" using e(2) by (simp only: set_map) (elim imageE)
    have "x1 = x2" using assms(1) x1 x2 s gk g'(2)
      by (intro single_okD [of "pool_txs p" _ _ k]) (simp_all add: pool_ok_def)
    then show "e1 = e2" by (simp only: x1 x2)
  qed
  moreover have "sorted_ok (map g (pool_txs p)) (txs_by_fee_and_receive_time p)" using assms(1)
    by (simp add: pool_ok_def sorted_ok_def image_comp fm)
  ultimately show ?thesis by (simp add: p' pool_ok_def)
qed

lemma set_relayed_ok: "pool_ok p \<Longrightarrow> pool_ok (set_relayed now p txs)"
proof (induction txs arbitrary: p)
  case (Cons t txs)
  obtain txid b where t: "t = (txid, b)" by (cases t)
  show ?case
  proof (cases "map_of (pool_txs p) txid")
    case None
    then show ?thesis using Cons by (simp add: t)
  next
    case (Some v)
    obtain m b where v: "v = (m, b)" by (cases v)
    show ?thesis
    proof (cases "update_txpool_tx p txid (m\<lparr>relayed := True, last_relayed_time := now\<rparr>)")
      case None
      then show ?thesis using Cons Some v by (simp add: t)
    next
      case u: (Some p')
      have "pool_ok p'" using Some u v by (intro update_txpool_ok [OF Cons.prems, of txid m b _ p']) simp_all
      then show ?thesis using Cons.IH Some u v by (simp add: t)
    qed
  qed
qed simp

lemma init_loop_ok:
  assumes "init_loop p es = (True, p')" "db_ok (es0 @ es)" "images_ok es0 (spent_key_images p)"
    and "sorted_ok es0 (txs_by_fee_and_receive_time p)"
  shows "images_ok (es0 @ es) (spent_key_images p') \<and> sorted_ok (es0 @ es) (txs_by_fee_and_receive_time p')
    \<and> pool_txs p' = pool_txs p \<and> timed_out_transactions p' = timed_out_transactions p"
  using assms
proof (induction es arbitrary: es0 p)
  case (Cons e es)
  obtain txid m b where e: "e = (txid, m, b)" by (cases e)
  obtain tx where tx: "parse_and_validate_tx_from_blob b = Some tx" "get_transaction_hash tx = txid" "tx_wf tx"
    using Cons.prems(2) entry_okD [of txid m b] by (auto simp: e db_ok_def)
  obtain ok sp where sp: "insert_key_images_loop (spent_key_images p) txid (vin tx) (kept_by_block m) = (ok, sp)"
    by (cases "insert_key_images_loop (spent_key_images p) txid (vin tx) (kept_by_block m)")
  let ?q = "p\<lparr>spent_key_images := sp, txs_by_fee_and_receive_time :=
      emplace (sorted_entry_of txid m) (txs_by_fee_and_receive_time p)\<rparr>"
  have ok and l: "init_loop ?q es = (True, p')"
    using Cons.prems(1) by (simp_all add: e tx insert_key_images_def sp split: if_splits)
  have k: "sp = (\<lambda>k. if k \<in> set (key_images (vin tx)) then txid # spent_key_images p k else spent_key_images p k)"
    using insert_loop_True [of "spent_key_images p" txid "vin tx" "kept_by_block m" sp] sp \<open>ok\<close>
      insert_loop_ok [of "vin tx" txid "spent_key_images p" "kept_by_block m"] by simp
  have n: "txid \<notin> fst ` set es0" using Cons.prems(2) by (auto simp: e db_ok_def)
  have "images_ok (es0 @ [e]) sp" unfolding k
    by (rule images_ok_insert [OF Cons.prems(3), of e _ "es0 @ [e]", unfolded e fst_conv, folded e])
      (use n e tx in \<open>simp_all add: spends_def\<close>)
  moreover have "sorted_ok (es0 @ [e]) (emplace (sorted_entry_of txid m) (txs_by_fee_and_receive_time p))"
    using n by (intro sorted_ok_insert [OF Cons.prems(4), of e]) (simp_all add: e sorted_entry_of_def)
  ultimately show ?case using Cons.IH [OF l, of "es0 @ [e]"] Cons.prems(2) by simp
qed simp

lemma init_ok:
  assumes "pool_ok p" "init p = (True, p')"
  shows "pool_ok p' \<and> pool_txs p' = pool_txs p"
proof -
  have "db_ok (pool_txs p)" "single_ok (pool_txs p)" using assms(1) by (simp_all add: pool_ok_def)
  moreover have "images_ok [] (\<lambda>_. [])" "sorted_ok [] []" by (simp_all add: images_ok_def sorted_ok_def)
  ultimately show ?thesis
    using init_loop_ok [of "p\<lparr>txs_by_fee_and_receive_time := [], spent_key_images := (\<lambda>_. [])\<rparr>" "pool_txs p" p' "[]"] assms(2)
    by (simp add: init_def pool_ok_def)
qed

subsection \<open>Properties\<close>

lemma add_tx_new:
  assumes "pool_ok p" "storable tx" "tx_wf tx" "\<not> have_tx p (get_transaction_hash tx)"
    and "add_tx c now p tx (get_transaction_hash tx) bsize tvc kept rel nrel ver = (True, tvc', p')"
  obtains f i h where "add_tx_fee tx tvc = Inr f"
    "store_tx p tx (get_transaction_hash tx) (make_meta bsize f i h now kept rel nrel) = (True, p')"
    "kept \<or> (\<forall>k \<in> set (key_images (vin tx)). spent_key_images p k = [])"
  using assms(5)
proof (cases rule: add_tx_cases)
  case (stored f i h q)
  have "q = p" using stored(3) remove_absent [of "get_transaction_hash tx" p] assms(4) by (auto simp: have_tx_iff)
  moreover have "kept \<or> (\<forall>k \<in> set (key_images (vin tx)). spent_key_images p k = [])"
    using stored(1) assms(3) have_keyimges_iff [of "vin tx" p]
    by (auto simp: have_tx_keyimges_as_spent_def tx_wf_def)
  ultimately show ?thesis using that stored(2,4) by blast
qed simp

lemma tx_ok_parse: "tx_ok False tx \<Longrightarrow> parse_and_validate_tx_from_blob (tx_to_blob tx) = Some tx"
  using tx_field.parse_back [of False tx] by (simp add: parse_and_validate_tx_from_blob_def tx_to_blob_def)

text \<open> C27: taking a transaction out of the pool undoes adding it. When a well-formed transaction
  that the pool did not have is added successfully, \<open>take_tx\<close> returns the same transaction with its
  size, its fee and the flags it was added with, and the pool is exactly the one before: the database,
  the key images, the order by fee and the list of timed out transactions.\<close>

theorem add_take_round_trip:
  assumes "pool_ok p" "tx_ok False tx" "tx_wf tx" "\<not> have_tx p (get_transaction_hash tx)"
    and "add_tx c now p tx (get_transaction_hash tx) bsize tvc kept rel nrel ver = (True, tvc', p')"
  shows "\<exists>f. add_tx_fee tx tvc = Inr f \<and> have_tx p' (get_transaction_hash tx)
    \<and> take_tx p' (get_transaction_hash tx) = (Some (tx, bsize, f, rel, nrel), p)"
proof -
  let ?h = "get_transaction_hash tx"
  have st: "storable tx" using tx_ok_parse [OF assms(2)] by (simp add: storable_def)
  obtain f i h where f: "add_tx_fee tx tvc = Inr f"
    and s: "store_tx p tx ?h (make_meta bsize f i h now kept rel nrel) = (True, p')"
    and k: "kept \<or> (\<forall>k \<in> set (key_images (vin tx)). spent_key_images p k = [])"
    using add_tx_new [OF assms(1) st assms(3-5)] by blast
  let ?m = "make_meta bsize f i h now kept rel nrel" and ?e = "(?h, make_meta bsize f i h now kept rel nrel, tx_to_blob tx)"
  have n: "?h \<notin> fst ` set (pool_txs p)" using assms(4) by (simp add: have_tx_iff)
  have km: "kept_by_block ?m \<or> (\<forall>k \<in> set (key_images (vin tx)). spent_key_images p k = [])"
    using k by (simp add: make_meta_def)
  note new = store_tx_new [OF assms(1) st assms(3) refl n km]
  have ok: "pool_ok p'" using conjunct2 [OF new] s by simp
  have p': "p' = p\<lparr>pool_txs := put_entry ?e (pool_txs p),
      spent_key_images := (\<lambda>k. if k \<in> set (key_images (vin tx)) then ?h # spent_key_images p k else spent_key_images p k),
      txs_by_fee_and_receive_time := emplace (sorted_entry_of ?h ?m) (txs_by_fee_and_receive_time p)\<rparr>"
    using conjunct1 [OF new] s by simp
  have e: "?e \<in> set (pool_txs p')" by (simp add: p')
  have "restrict (\<lambda>i. i \<noteq> ?h) p' = p"
  proof -
    have "filter (\<lambda>i. i \<noteq> ?h) (spent_key_images p k) = spent_key_images p k" for k
      using n images_ok_subset [of "pool_txs p" "spent_key_images p" k] assms(1)
      by (intro filter_True) (auto simp: pool_ok_def)
    then have "(\<lambda>k. filter (\<lambda>i. i \<noteq> ?h) (if k \<in> set (key_images (vin tx)) then ?h # spent_key_images p k
        else spent_key_images p k)) = spent_key_images p" by (intro ext) simp
    moreover have "snd (sorted_entry_of ?h ?m) \<notin> snd ` set (txs_by_fee_and_receive_time p)"
      using n assms(1) by (simp add: sorted_entry_of_def pool_ok_def sorted_ok_def)
    ultimately show ?thesis
      using put_entry_filter [of ?e "pool_txs p"] n emplace_filter [of "sorted_entry_of ?h ?m" "txs_by_fee_and_receive_time p"]
      by (simp add: restrict_def p' sorted_entry_of_def)
  qed
  then show ?thesis
    using take_tx_restrict [OF ok e] tx_ok_parse [OF assms(2)] f rev_image_eqI [OF e, of ?h fst]
    by (simp add: have_tx_iff) (simp add: make_meta_def)
qed

definition example_chain :: chain where
  "example_chain = \<lparr> chain_check_fee = (\<lambda>_ _. True), chain_check_tx_outputs = (\<lambda>_ tvc. (True, tvc)),
     chain_check_tx_inputs = (\<lambda>_ _ tvc. (Some (10, replicate 32 3), tvc)), chain_height = 100,
     chain_block_id = (\<lambda>_. replicate 32 4), chain_have_tx_keyimges_as_spent = (\<lambda>_. False),
     chain_have_tx = (\<lambda>_. False) \<rparr>"

lemma example_tx_wf: "tx_wf example_tx"
  by (simp add: tx_wf_def example_tx_def)

lemma example_fee: "add_tx_fee example_tx tvc = Inr 1"
  by (simp add: add_tx_fee_def get_inputs_money_amount_def get_outs_money_amount_def example_tx_def)

definition example_pool :: tx_memory_pool where
  "example_pool = snd (store_tx pool_empty example_tx (get_transaction_hash example_tx)
     (make_meta 204 1 (replicate 32 3) 10 50 False False False))"

lemma example_add:
  "\<exists>tvc. add_tx example_chain 50 pool_empty example_tx (get_transaction_hash example_tx) 204 tvc_init False False False 6
     = (True, tvc, example_pool)"
proof -
  have "remove_txpool_tx pool_empty h = pool_empty" for h by (simp add: remove_txpool_tx_def pool_empty_def)
  moreover have "fst (store_tx pool_empty example_tx (get_transaction_hash example_tx)
      (make_meta 204 1 (replicate 32 3) 10 50 False False False))"
    by (subst store_tx_new [THEN conjunct1, OF pool_ok_empty])
      (use example_tx_wf tx_ok_parse [OF example_tx_ok] in \<open>simp_all add: storable_def pool_empty_def\<close>)
  then have "store_tx pool_empty example_tx (get_transaction_hash example_tx)
      (make_meta 204 1 (replicate 32 3) 10 50 False False False) = (True, example_pool)"
    by (simp add: example_pool_def prod_eq_iff)
  moreover have "\<not> have_tx_keyimges_as_spent pool_empty example_tx"
    by (simp add: have_tx_keyimges_as_spent_def example_tx_def have_tx_keyimg_as_spent_def pool_empty_def)
  moreover have "version example_tx \<noteq> 0" "check_inputs_types_supported example_tx"
    "get_transaction_hash example_tx \<notin> set (timed_out_transactions pool_empty)"
    by (simp_all add: example_tx_def check_inputs_types_supported_def pool_empty_def)
  moreover have "\<not> get_transaction_size_limit 6 \<le> 204"
    by (simp add: get_transaction_size_limit_def get_min_block_size_def CRYPTONOTE_COINBASE_BLOB_RESERVED_SIZE_def
        CRYPTONOTE_BLOCK_GRANTED_FULL_REWARD_ZONE_V5_def)
  ultimately show ?thesis
    by (simp add: add_tx_def example_fee example_chain_def)
qed

theorem add_take_round_trip_witness:
  "take_tx example_pool (get_transaction_hash example_tx) = (Some (example_tx, 204, 1, False, False), pool_empty)"
proof -
  obtain tvc where a: "add_tx example_chain 50 pool_empty example_tx (get_transaction_hash example_tx) 204 tvc_init
      False False False 6 = (True, tvc, example_pool)" using example_add by blast
  have "\<not> have_tx pool_empty (get_transaction_hash example_tx)" by (simp add: have_tx_def pool_empty_def)
  from add_take_round_trip [OF pool_ok_empty example_tx_ok example_tx_wf this a]
  show ?thesis by (auto simp: example_fee)
qed

lemma init_loop_spent:
  "init_loop p es = (True, p') \<Longrightarrow> spent_key_images p k \<noteq> [] \<Longrightarrow> spent_key_images p' k \<noteq> []"
proof (induction es arbitrary: p)
  case (Cons e es)
  obtain txid m b where e: "e = (txid, m, b)" by (cases e)
  obtain tx where tx: "parse_and_validate_tx_from_blob b = Some tx"
    using Cons.prems(1) by (auto simp: e split: option.splits)
  obtain ok sp where sp: "insert_key_images_loop (spent_key_images p) (get_transaction_hash tx) (vin tx) (kept_by_block m) = (ok, sp)"
    by (cases "insert_key_images_loop (spent_key_images p) (get_transaction_hash tx) (vin tx) (kept_by_block m)")
  have ok and l: "init_loop (p\<lparr>spent_key_images := sp, txs_by_fee_and_receive_time :=
      emplace (sorted_entry_of txid m) (txs_by_fee_and_receive_time p)\<rparr>) es = (True, p')"
    using Cons.prems(1) by (simp_all add: e tx insert_key_images_def sp split: if_splits)
  have "sp k \<noteq> []"
    using insert_loop_True [of "spent_key_images p" "get_transaction_hash tx" "vin tx" "kept_by_block m" sp] sp \<open>ok\<close>
      insert_loop_ok [of "vin tx" "get_transaction_hash tx" "spent_key_images p" "kept_by_block m"] Cons.prems(2) by (auto split: if_splits)
  then show ?case using Cons.IH [OF l] by simp
qed simp

lemma init_loop_append:
  "init_loop p (xs @ ys) = (True, p') \<Longrightarrow> \<exists>q. init_loop p xs = (True, q) \<and> init_loop q ys = (True, p')"
proof (induction xs arbitrary: p)
  case (Cons x xs)
  then show ?case by (cases x) (auto split: option.splits prod.splits if_splits simp: Let_def)
qed simp

lemma init_loop_step:
  assumes "init_loop p ((txid, m, b) # es) = (True, p')" "spends (txid, m, b) k"
  shows "(kept_by_block m \<or> spent_key_images p k = []) \<and> spent_key_images p' k \<noteq> []"
proof -
  obtain tx where tx: "parse_and_validate_tx_from_blob b = Some tx" "k \<in> set (key_images (vin tx))"
    using assms(2) by (auto simp: spends_def split: option.splits)
  obtain ok sp where sp: "insert_key_images_loop (spent_key_images p) (get_transaction_hash tx) (vin tx) (kept_by_block m) = (ok, sp)"
    by (cases "insert_key_images_loop (spent_key_images p) (get_transaction_hash tx) (vin tx) (kept_by_block m)")
  have ok and l: "init_loop (p\<lparr>spent_key_images := sp, txs_by_fee_and_receive_time :=
      emplace (sorted_entry_of txid m) (txs_by_fee_and_receive_time p)\<rparr>) es = (True, p')"
    using assms(1) by (simp_all add: tx insert_key_images_def sp split: if_splits)
  note t = insert_loop_True [of "spent_key_images p" "get_transaction_hash tx" "vin tx" "kept_by_block m" sp]
  have "sp k \<noteq> []"
    using t sp \<open>ok\<close> tx(2) insert_loop_ok [of "vin tx" "get_transaction_hash tx" "spent_key_images p" "kept_by_block m"]
    by auto
  then show ?thesis using t sp \<open>ok\<close> tx(2) init_loop_spent [OF l, of k] by auto
qed

text \<open> C28: \<open>init\<close> does not restore every pool that the other operations build. A transaction from a
  popped block may spend a key image that a transaction from the network spends; when the order of the
  database puts the former first, \<open>init\<close> returns false on the stored pool.\<close>

theorem init_refuses_conflict:
  assumes "pool_txs p = xs @ (i1, m1, b1) # ys @ (i2, m2, b2) # zs" "spends (i1, m1, b1) k" "spends (i2, m2, b2) k"
    and "kept_by_block m1" "\<not> kept_by_block m2"
  shows "fst (init p) = False"
proof -
  have False if "init p = (True, p')" for p'
  proof -
    from that assms(1) obtain q1 where q1: "init_loop q1 ((i1, m1, b1) # ys @ (i2, m2, b2) # zs) = (True, p')"
      unfolding init_def using init_loop_append by metis
    then obtain q2 where q2: "init_loop q1 ((i1, m1, b1) # ys) = (True, q2)" "init_loop q2 ((i2, m2, b2) # zs) = (True, p')"
      using init_loop_append [of q1 "(i1, m1, b1) # ys" "(i2, m2, b2) # zs" p'] by auto
    show False using init_loop_step [OF q2(1) assms(2)] init_loop_step [OF q2(2) assms(3)] assms(5) by simp
  qed
  then show ?thesis by (cases "init p") auto
qed

definition example_conflict :: tx_memory_pool where
  "example_conflict = pool_empty\<lparr>pool_txs :=
     [(replicate 32 1, make_meta 200 1 null_hash 0 50 True False False, tx_to_blob example_tx),
      (replicate 32 2, make_meta 200 1 null_hash 0 50 False False False, tx_to_blob (example_tx\<lparr>unlock_time := 1\<rparr>))]\<rparr>"

theorem init_refuses_conflict_witness: "fst (init example_conflict) = False"
proof -
  have "tx_ok False (example_tx\<lparr>unlock_time := 1\<rparr>)" using example_tx_ok by (simp add: tx_ok_def prefix_ok_def)
  then have s: "spends (i, m, tx_to_blob example_tx) (replicate 32 5)"
    "spends (i, m, tx_to_blob (example_tx\<lparr>unlock_time := 1\<rparr>)) (replicate 32 5)" for i m
    using tx_ok_parse [of "example_tx\<lparr>unlock_time := 1\<rparr>"] tx_ok_parse [OF example_tx_ok]
    by (simp_all add: spends_def) (simp_all add: example_tx_def)
  show ?thesis
    by (rule init_refuses_conflict [of _ "[]" "replicate 32 1" "make_meta 200 1 null_hash 0 50 True False False" _
          "[]" "replicate 32 2" "make_meta 200 1 null_hash 0 50 False False False" _ "[]", OF _ s])
      (simp_all add: example_conflict_def make_meta_def)
qed

end
