(* ===== verification/Core_Tx.thy ===== *)
theory Core_Tx
  imports Pool_Invariant
begin

text \<open>
  How a transaction gets from the network into the pool: \<open>core::handle_incoming_txs\<close> of
  \<open>cryptonote_core/cryptonote_core.cpp\<close> with the checks before and after the lookup in pool and
  chain. The curve arithmetic and the ring signature verification are members of the environment, as
  are the values of the chain the checks read. The tasks of the thread pool run in the order of the
  list. Outside the area of compiled-in block hashes every transaction that reaches the pool has
  passed \<open>check_tx_semantic\<close>, which is what the invariant of the pool rests on.
\<close>

subsection \<open>Definitions\<close>

record core_env =
  env_chain :: chain
  hard_fork_version :: u8
  cumulative_blocksize_limit :: u64
  env_check_key :: "blob \<Rightarrow> bool"
  key_image_in_subgroup :: "blob \<Rightarrow> bool"
  verRct_semantics :: "rctSig \<Rightarrow> bool"
  verRctSimple_semantics :: "rctSig \<Rightarrow> bool"
  within_compiled_block_hash_area :: bool

record core =
  mempool :: tx_memory_pool
  bad_semantics_txes0 :: "blob list"
  bad_semantics_txes1 :: "blob list"

definition BAD_SEMANTICS_TXES_MAX_SIZE :: nat where "BAD_SEMANTICS_TXES_MAX_SIZE = 100"

fun keyimages_diff_loop :: "blob list \<Rightarrow> txin_v list \<Rightarrow> bool" where
  "keyimages_diff_loop ki [] = True"
| "keyimages_diff_loop ki (Txin_to_key k # ins) =
     (if k_image k \<in> set ki then False else keyimages_diff_loop (k_image k # ki) ins)"
| "keyimages_diff_loop ki (_ # ins) = False"

definition check_tx_inputs_keyimages_diff :: "transaction \<Rightarrow> bool" where
  "check_tx_inputs_keyimages_diff tx = keyimages_diff_loop [] (vin tx)"

fun ring_members_loop :: "txin_v list \<Rightarrow> bool" where
  "ring_members_loop [] = True"
| "ring_members_loop (Txin_to_key k # ins) =
     (if 0 \<in> set (tl (key_offsets k)) then False else ring_members_loop ins)"
| "ring_members_loop (_ # ins) = False"

definition check_tx_inputs_ring_members_diff :: "u8 \<Rightarrow> transaction \<Rightarrow> bool" where
  "check_tx_inputs_ring_members_diff ver tx = (if 6 \<le> ver then ring_members_loop (vin tx) else True)"

fun keyimages_domain_loop :: "(blob \<Rightarrow> bool) \<Rightarrow> txin_v list \<Rightarrow> bool" where
  "keyimages_domain_loop in_dom [] = True"
| "keyimages_domain_loop in_dom (Txin_to_key k # ins) =
     (if \<not> in_dom (k_image k) then False else keyimages_domain_loop in_dom ins)"
| "keyimages_domain_loop in_dom (_ # ins) = False"

definition check_tx_inputs_keyimages_domain :: "(blob \<Rightarrow> bool) \<Rightarrow> transaction \<Rightarrow> bool" where
  "check_tx_inputs_keyimages_domain in_dom tx = keyimages_domain_loop in_dom (vin tx)"

text \<open>The amount of the inputs is defined here, as the types of the inputs have been checked.\<close>

definition check_tx_semantic :: "core_env \<Rightarrow> transaction \<Rightarrow> bool \<Rightarrow> bool" where
  "check_tx_semantic env tx keeped_by_block =
     (if vin tx = [] then False
      else if \<not> check_inputs_types_supported tx then False
      else if \<not> check_outs_valid (env_check_key env) tx then False
      else if 1 < version tx \<and> length (outPk (rct_signatures tx)) \<noteq> length (vout tx) then False
      else if \<not> check_money_overflow tx then False
      else if version tx = 1
        \<and> (case get_inputs_money_amount tx of None \<Rightarrow> False | Some amount_in \<Rightarrow> amount_in < get_outs_money_amount tx)
      then False
      else if \<not> keeped_by_block
        \<and> cumulative_blocksize_limit env * 50 - CRYPTONOTE_COINBASE_BLOB_RESERVED_SIZE
            \<le> of_nat (length (tx_to_blob tx)) then False
      else if \<not> check_tx_inputs_keyimages_diff tx then False
      else if \<not> check_tx_inputs_ring_members_diff (hard_fork_version env) tx then False
      else if \<not> check_tx_inputs_keyimages_domain (key_image_in_subgroup env) tx then False
      else if 2 \<le> version tx then
        let rv = rct_signatures tx
        in if rct_type rv = RCTTypeNull then False
           else if rct_type rv = RCTTypeSimple then verRctSimple_semantics env rv
           else if rct_type rv = RCTTypeFull then verRct_semantics env rv
           else False
      else True)"

text \<open>Parsing, the list of transactions seen with bad semantics, and the version.\<close>

definition handle_incoming_tx_pre ::
    "core_env \<Rightarrow> core \<Rightarrow> blob \<Rightarrow> (transaction \<times> blob) option \<times> tx_verification_context" where
  "handle_incoming_tx_pre env st tx_blob =
     (let tvc = tvc_init
      in if get_max_tx_size < of_nat (length tx_blob)
      then (None, tvc\<lparr>verifivation_failed := True, too_big := True\<rparr>)
      else case parse_and_validate_tx_from_blob tx_blob of
        None \<Rightarrow> (None, tvc\<lparr>verifivation_failed := True\<rparr>)
      | Some tx \<Rightarrow>
          let tx_hash = get_transaction_hash tx
          in if tx_hash \<in> set (bad_semantics_txes0 st) \<or> tx_hash \<in> set (bad_semantics_txes1 st)
          then (None, tvc\<lparr>verifivation_failed := True\<rparr>)
          else let max_tx_version = (if hard_fork_version env = 1 then 1 else 2)
          in if version tx = 0 \<or> max_tx_version < version tx
          then (None, tvc\<lparr>verifivation_failed := True\<rparr>)
          else (Some (tx, tx_hash), tvc))"

text \<open>The keys of the outputs; \<open>None\<close> is the exception of \<open>boost::get\<close>.\<close>

fun resolve_dests :: "ctkey list \<Rightarrow> tx_out list \<Rightarrow> ctkey list option" where
  "resolve_dests (pk # pks) (out # outs) =
     (case target out of
        Txout_to_key key \<Rightarrow> map_option ((#) (pk\<lparr>ct_dest := key\<rparr>)) (resolve_dests pks outs)
      | _ \<Rightarrow> None)"
| "resolve_dests pks outs = Some pks"

definition set_outPk :: "transaction \<Rightarrow> ctkey list \<Rightarrow> transaction" where
  "set_outPk tx pks = tx\<lparr>rct_signatures := (rct_signatures tx)\<lparr>outPk := pks\<rparr>\<rparr>"

definition add_bad_semantics :: "core \<Rightarrow> blob \<Rightarrow> core" where
  "add_bad_semantics st tx_hash =
     (let b0 = (if tx_hash \<in> set (bad_semantics_txes0 st) then bad_semantics_txes0 st
                else tx_hash # bad_semantics_txes0 st)
      in if BAD_SEMANTICS_TXES_MAX_SIZE \<le> length b0
         then st\<lparr>bad_semantics_txes0 := [], bad_semantics_txes1 := b0\<rparr>
         else st\<lparr>bad_semantics_txes0 := b0\<rparr>)"

text \<open>The transaction with its output keys resolved, or \<open>None\<close> when the result is false or an exception.\<close>

definition handle_incoming_tx_post ::
    "core_env \<Rightarrow> core \<Rightarrow> transaction \<Rightarrow> blob \<Rightarrow> tx_verification_context \<Rightarrow> bool
      \<Rightarrow> transaction option \<times> tx_verification_context \<times> core" where
  "handle_incoming_tx_post env st tx tx_hash tvc keeped_by_block =
     (if 2 \<le> version tx \<and> length (outPk (rct_signatures tx)) \<noteq> length (vout tx)
      then (None, tvc\<lparr>verifivation_failed := True\<rparr>, st)
      else case (if 2 \<le> version tx
                 then map_option (set_outPk tx) (resolve_dests (outPk (rct_signatures tx)) (vout tx))
                 else Some tx) of
        None \<Rightarrow> (None, tvc, st)
      | Some tx \<Rightarrow>
          if keeped_by_block \<and> within_compiled_block_hash_area env then (Some tx, tvc, st)
          else if \<not> check_tx_semantic env tx keeped_by_block
          then (None, tvc\<lparr>verifivation_failed := True\<rparr>, add_bad_semantics st tx_hash)
          else (Some tx, tvc, st))"

definition add_new_tx ::
    "core_env \<Rightarrow> u64 \<Rightarrow> core \<Rightarrow> transaction \<Rightarrow> blob \<Rightarrow> u64 \<Rightarrow> tx_verification_context \<Rightarrow> bool \<Rightarrow> bool \<Rightarrow> bool
      \<Rightarrow> bool \<times> tx_verification_context \<times> core" where
  "add_new_tx env now st tx tx_hash bsize tvc keeped_by_block rel nrel =
     (if have_tx (mempool st) tx_hash then (True, tvc, st)
      else if chain_have_tx (env_chain env) tx_hash then (True, tvc, st)
      else let (res, tvc, p) = add_tx (env_chain env) now (mempool st) tx tx_hash bsize tvc keeped_by_block rel nrel
                                 (hard_fork_version env)
           in (res, tvc, st\<lparr>mempool := p\<rparr>))"

text \<open>The three rounds over the blobs of one message.\<close>

type_synonym tx_result = "(transaction \<times> blob) option \<times> tx_verification_context"

fun post_round :: "core_env \<Rightarrow> core \<Rightarrow> bool \<Rightarrow> tx_result list \<Rightarrow> tx_result list \<times> core" where
  "post_round env st keeped_by_block [] = ([], st)"
| "post_round env st keeped_by_block ((None, tvc) # rs) =
     (let (rs, st) = post_round env st keeped_by_block rs in ((None, tvc) # rs, st))"
| "post_round env st keeped_by_block ((Some (tx, h), tvc) # rs) =
     (if have_tx (mempool st) h \<or> chain_have_tx (env_chain env) h
      then let (rs, st) = post_round env st keeped_by_block rs in ((Some (tx, h), tvc) # rs, st)
      else let (r, tvc, st) = handle_incoming_tx_post env st tx h tvc keeped_by_block;
               (rs, st) = post_round env st keeped_by_block rs
           in ((map_option (\<lambda>tx. (tx, h)) r, tvc) # rs, st))"

fun add_round ::
    "core_env \<Rightarrow> u64 \<Rightarrow> core \<Rightarrow> bool \<Rightarrow> bool \<Rightarrow> bool \<Rightarrow> (tx_result \<times> nat) list
      \<Rightarrow> bool \<times> tx_verification_context list \<times> core" where
  "add_round env now st keeped_by_block rel nrel [] = (True, [], st)"
| "add_round env now st keeped_by_block rel nrel (((None, tvc), n) # rs) =
     (let (ok, tvcs, st) = add_round env now st keeped_by_block rel nrel rs in (False, tvc # tvcs, st))"
| "add_round env now st keeped_by_block rel nrel (((Some (tx, h), tvc), n) # rs) =
     (let (res, tvc, st) = add_new_tx env now st tx h (of_nat n) tvc keeped_by_block rel nrel;
          (ok, tvcs, st) = add_round env now st keeped_by_block rel nrel rs
      in (res \<and> ok, tvc # tvcs, st))"

definition handle_incoming_txs ::
    "core_env \<Rightarrow> u64 \<Rightarrow> core \<Rightarrow> blob list \<Rightarrow> bool \<Rightarrow> bool \<Rightarrow> bool \<Rightarrow> bool \<times> tx_verification_context list \<times> core" where
  "handle_incoming_txs env now st tx_blobs keeped_by_block rel nrel =
     (let results = map (handle_incoming_tx_pre env st) tx_blobs;
          (results, st) = post_round env st keeped_by_block results
      in add_round env now st keeped_by_block rel nrel (zip results (map length tx_blobs)))"

definition handle_incoming_tx ::
    "core_env \<Rightarrow> u64 \<Rightarrow> core \<Rightarrow> blob \<Rightarrow> bool \<Rightarrow> bool \<Rightarrow> bool \<Rightarrow> bool \<times> tx_verification_context \<times> core" where
  "handle_incoming_tx env now st tx_blob keeped_by_block rel nrel =
     (let (r, tvcv, st) = handle_incoming_txs env now st [tx_blob] keeped_by_block rel nrel in (r, hd tvcv, st))"

subsection \<open>What the checks establish\<close>

lemma keyimages_diff_iff:
  "keyimages_diff_loop ki ins \<longleftrightarrow>
     check_inputs_types ins \<and> distinct (key_images ins) \<and> set (key_images ins) \<inter> set ki = {}"
  by (induction ki ins rule: keyimages_diff_loop.induct) auto

lemma check_tx_semantic_wf: "check_tx_semantic env tx kept \<Longrightarrow> tx_wf tx"
  by (auto simp: check_tx_semantic_def tx_wf_def check_inputs_types_supported_def check_tx_inputs_keyimages_diff_def
      keyimages_diff_iff split: if_splits)

text \<open>Resolving the output keys changes neither the blob nor the hash.\<close>

lemma resolve_dests_masks: "resolve_dests pks outs = Some pks' \<Longrightarrow> map ct_mask pks' = map ct_mask pks \<and> length pks' = length pks"
proof (induction pks outs arbitrary: pks' rule: resolve_dests.induct)
  case (1 pk pks out outs)
  then show ?case by (auto split: txout_target_v.splits)
qed auto

lemma write_base_dests:
  "map ct_mask pks = map ct_mask (outPk r) \<Longrightarrow> write_rctsig_base (r\<lparr>outPk := pks\<rparr>) i n = write_rctsig_base r i n"
  using map_eq_imp_length_eq [of ct_mask pks ct_mask "outPk r"] by (simp add: write_rctsig_base_def)

lemma write_prunable_dests: "write_rctsig_prunable (r\<lparr>outPk := pks\<rparr>) ty i n m = write_rctsig_prunable r ty i n m"
  by (simp add: write_rctsig_prunable_def)

lemma write_prefix_dests: "write_prefix mm (set_outPk tx pks) = write_prefix mm tx"
  by (simp add: write_prefix_def set_outPk_def)

lemma set_outPk_same:
  assumes "map ct_mask pks = map ct_mask (outPk (rct_signatures tx))"
  shows "write_transaction mm (set_outPk tx pks) = write_transaction mm tx"
    and "get_transaction_hash (set_outPk tx pks) = get_transaction_hash tx"
proof -
  have s: "rct_signatures (set_outPk tx pks) = (rct_signatures tx)\<lparr>outPk := pks\<rparr>" "vin (set_outPk tx pks) = vin tx"
    "vout (set_outPk tx pks) = vout tx" "version (set_outPk tx pks) = version tx"
    "signatures (set_outPk tx pks) = signatures tx"
    by (simp_all add: set_outPk_def)
  have w: "write_transaction mm (set_outPk tx pks) = write_transaction mm tx" for mm
    using write_base_dests [OF assms]
    by (simp add: write_transaction_def s write_prunable_dests write_prefix_dests)
  then show "write_transaction mm (set_outPk tx pks) = write_transaction mm tx" .
  show "get_transaction_hash (set_outPk tx pks) = get_transaction_hash tx"
    using write_base_dests [OF assms]
    by (simp add: get_transaction_hash_def calculate_transaction_hash_def s write_prunable_dests w Let_def
        get_transaction_prefix_hash_def write_prefix_dests)
qed

lemma post_result:
  assumes "handle_incoming_tx_post env st tx h tvc kept = (Some tx', tvc', st')" "tx_ok False tx"
    and "\<not> (kept \<and> within_compiled_block_hash_area env)"
  shows "storable tx' \<and> tx_wf tx' \<and> get_transaction_hash tx' = get_transaction_hash tx"
proof -
  let ?r = "if 2 \<le> version tx then map_option (set_outPk tx) (resolve_dests (outPk (rct_signatures tx)) (vout tx)) else Some tx"
  have r: "?r = Some tx'" and sem: "check_tx_semantic env tx' kept"
    using assms(1,3) by (auto simp: handle_incoming_tx_post_def split: if_splits option.splits)
  have same: "tx_to_blob tx' = tx_to_blob tx \<and> vin tx' = vin tx \<and> get_transaction_hash tx' = get_transaction_hash tx"
  proof (cases "2 \<le> version tx")
    case True
    then obtain pks where pks: "resolve_dests (outPk (rct_signatures tx)) (vout tx) = Some pks" "tx' = set_outPk tx pks"
      using r by auto
    show ?thesis using set_outPk_same [of pks tx] resolve_dests_masks [OF pks(1)]
      by (simp add: pks(2) tx_to_blob_def) (simp add: set_outPk_def)
  next
    case False
    then show ?thesis using r by simp
  qed
  moreover have "parse_and_validate_tx_from_blob (tx_to_blob tx) = Some tx"
    using tx_field.parse_back [OF assms(2)] by (simp add: parse_and_validate_tx_from_blob_def tx_to_blob_def)
  ultimately show ?thesis using check_tx_semantic_wf [OF sem] by (simp add: storable_def)
qed

lemma post_mempool: "mempool (snd (snd (handle_incoming_tx_post env st tx h tvc kept))) = mempool st"
  by (simp add: handle_incoming_tx_post_def add_bad_semantics_def Let_def split: option.split)

definition parsed_result :: "tx_result \<Rightarrow> bool" where
  "parsed_result r = (case fst r of None \<Rightarrow> True | Some (tx, h) \<Rightarrow> tx_ok False tx \<and> h = get_transaction_hash tx)"

definition good_result :: "core_env \<Rightarrow> tx_memory_pool \<Rightarrow> tx_result \<Rightarrow> bool" where
  "good_result env p r = (case fst r of None \<Rightarrow> True | Some (tx, h) \<Rightarrow> h = get_transaction_hash tx
     \<and> (have_tx p h \<or> chain_have_tx (env_chain env) h \<or> storable tx \<and> tx_wf tx))"

lemma good_result_None [simp]: "good_result env p (None, t)"
  by (simp add: good_result_def)

lemma pre_parsed: "parsed_result (handle_incoming_tx_pre env st b)"
  using tx_field.parse_ok [of False b]
  by (auto simp: handle_incoming_tx_pre_def parsed_result_def Let_def parse_and_validate_tx_from_blob_def
      split: option.split)

lemma post_round_good:
  assumes "list_all parsed_result rs" "\<not> (kept \<and> within_compiled_block_hash_area env)"
    and "post_round env st kept rs = (rs', st')"
  shows "mempool st' = mempool st \<and> list_all (good_result env (mempool st)) rs'"
  using assms
proof (induction env st kept rs arbitrary: rs' st' rule: post_round.induct)
  case (1 env st kept)
  then show ?case by simp
next
  case (2 env st kept tvc rs)
  then show ?case by (auto split: prod.splits)
next
  case (3 env st kept tx h tvc rs)
  have pr: "parsed_result (Some (tx, h), tvc)" and rs: "list_all parsed_result rs"
    using "3.prems"(1) by simp_all
  have t: "tx_ok False tx" "h = get_transaction_hash tx" using pr by (simp_all add: parsed_result_def)
  show ?case
  proof (cases "have_tx (mempool st) h \<or> chain_have_tx (env_chain env) h")
    case True
    obtain rs2 st2 where p: "post_round env st kept rs = (rs2, st2)" by (cases "post_round env st kept rs")
    show ?thesis using "3.IH"(1) [OF True rs "3.prems"(2) p] "3.prems"(3) p True t
      by (auto simp: good_result_def)
  next
    case False
    obtain r tvc2 st1 where q: "handle_incoming_tx_post env st tx h tvc kept = (r, tvc2, st1)"
      by (cases "handle_incoming_tx_post env st tx h tvc kept")
    obtain rs2 st2 where p: "post_round env st1 kept rs = (rs2, st2)" by (cases "post_round env st1 kept rs")
    have m: "mempool st1 = mempool st" using post_mempool [of env st tx h tvc kept] by (simp add: q)
    have "good_result env (mempool st) (map_option (\<lambda>tx. (tx, h)) r, tvc2)"
    proof (cases r)
      case (Some tx')
      then show ?thesis using post_result [of env st tx h tvc kept tx' tvc2 st1] q t "3.prems"(2)
        by (simp add: good_result_def)
    qed (simp add: good_result_def)
    moreover have "mempool st2 = mempool st1 \<and> list_all (good_result env (mempool st1)) rs2"
      using "3.IH"(2) [OF False] q p rs "3.prems"(2) by simp
    ultimately show ?thesis using "3.prems"(3) False q p m by auto
  qed
qed

subsection \<open>The pool after a message\<close>

lemma put_entry_ids: "fst ` set (put_entry e es) = insert (fst e) (fst ` set es)"
  by simp

lemma store_tx_ids: "fst ` set (pool_txs p) \<subseteq> fst ` set (pool_txs (snd (store_tx p tx txid meta)))"
  by (auto simp: store_tx_def add_txpool_tx_def insert_key_images_def Let_def split: option.split prod.split)

lemma add_tx_ids:
  assumes "get_transaction_hash tx \<notin> fst ` set (pool_txs p)"
  shows "fst ` set (pool_txs p) \<subseteq> fst ` set (pool_txs (snd (snd (add_tx c now p tx txid bsize tvc kept rel nrel ver))))"
proof -
  obtain res t q where a: "add_tx c now p tx txid bsize tvc kept rel nrel ver = (res, t, q)"
    by (cases "add_tx c now p tx txid bsize tvc kept rel nrel ver")
  from a show ?thesis
  proof (cases rule: add_tx_cases)
    case refused
    then show ?thesis using a by simp
  next
    case (stored f i h q')
    have "q' = p" using stored(3) remove_absent [OF assms] by auto
    then show ?thesis using stored(4) a store_tx_ids [of p tx txid "make_meta bsize f i h now kept rel nrel"] by simp
  qed
qed

lemma add_new_tx_ok:
  assumes "pool_ok (mempool st)" "good_result env (mempool st) (Some (tx, h), t)"
    and "add_new_tx env now st tx h bsize tvc kept rel nrel = (res, tvc', st')"
  shows "pool_ok (mempool st') \<and> fst ` set (pool_txs (mempool st)) \<subseteq> fst ` set (pool_txs (mempool st'))"
proof (cases "have_tx (mempool st) h \<or> chain_have_tx (env_chain env) h")
  case True
  then have "st' = st" using assms(3) by (simp add: add_new_tx_def split: if_splits)
  then show ?thesis using assms(1) by simp
next
  case False
  then have g: "h = get_transaction_hash tx" "storable tx" "tx_wf tx" using assms(2) by (simp_all add: good_result_def)
  have n: "get_transaction_hash tx \<notin> fst ` set (pool_txs (mempool st))" using False g(1) by (simp add: have_tx_iff)
  have ss: "same_spends (mempool st) tx" using n unfolding same_spends_def by (metis imageI)
  obtain r1 t1 p1 where a: "add_tx (env_chain env) now (mempool st) tx h bsize tvc kept rel nrel (hard_fork_version env) = (r1, t1, p1)"
    by (cases "add_tx (env_chain env) now (mempool st) tx h bsize tvc kept rel nrel (hard_fork_version env)")
  have "st' = st\<lparr>mempool := p1\<rparr>" using assms(3) False a by (simp add: add_new_tx_def)
  moreover have "pool_ok p1" using add_tx_ok [OF assms(1) g(2,3) ss] a g(1) by (metis snd_conv)
  moreover have "fst ` set (pool_txs (mempool st)) \<subseteq> fst ` set (pool_txs p1)"
    using add_tx_ids [OF n, of "env_chain env" now h] a by (metis snd_conv)
  ultimately show ?thesis by simp
qed

lemma good_result_mono:
  "good_result env p r \<Longrightarrow> fst ` set (pool_txs p) \<subseteq> fst ` set (pool_txs q) \<Longrightarrow> good_result env q r"
  by (auto simp: good_result_def have_tx_iff split: option.splits)

lemma add_round_ok:
  assumes "pool_ok (mempool st)" "list_all (good_result env (mempool st)) (map fst rs)"
    and "add_round env now st kept rel nrel rs = (ok, tvcs, st')"
  shows "pool_ok (mempool st')"
  using assms
proof (induction env now st kept rel nrel rs arbitrary: ok tvcs st' rule: add_round.induct)
  case (1 env now st kept rel nrel)
  then show ?case by simp
next
  case (2 env now st kept rel nrel tvc n rs)
  then show ?case by (auto split: prod.splits)
next
  case (3 env now st kept rel nrel tx h tvc n rs)
  obtain res t1 st1 where a: "add_new_tx env now st tx h (of_nat n) tvc kept rel nrel = (res, t1, st1)"
    by (cases "add_new_tx env now st tx h (of_nat n) tvc kept rel nrel")
  obtain ok2 t2 st2 where l: "add_round env now st1 kept rel nrel rs = (ok2, t2, st2)"
    by (cases "add_round env now st1 kept rel nrel rs")
  have g: "good_result env (mempool st) (Some (tx, h), tvc)" "list_all (good_result env (mempool st)) (map fst rs)"
    using "3.prems"(2) by simp_all
  have n: "pool_ok (mempool st1)" "fst ` set (pool_txs (mempool st)) \<subseteq> fst ` set (pool_txs (mempool st1))"
    using add_new_tx_ok [OF "3.prems"(1) g(1) a] by simp_all
  have "list_all (good_result env (mempool st1)) (map fst rs)"
    using g(2) good_result_mono [OF _ n(2)] by (auto simp: list_all_iff)
  then have "pool_ok (mempool st2)" using "3.IH" [OF a [symmetric] refl refl] n(1) l by simp
  then show ?case using "3.prems"(3) a l by simp
qed

lemma handle_incoming_txs_ok:
  assumes "pool_ok (mempool st)" "\<not> (kept \<and> within_compiled_block_hash_area env)"
  shows "pool_ok (mempool (snd (snd (handle_incoming_txs env now st blobs kept rel nrel))))"
proof -
  let ?pre = "map (handle_incoming_tx_pre env st) blobs"
  obtain rs st1 where p: "post_round env st kept ?pre = (rs, st1)" by (cases "post_round env st kept ?pre")
  obtain ok t st2 where a: "add_round env now st1 kept rel nrel (zip rs (map length blobs)) = (ok, t, st2)"
    by (cases "add_round env now st1 kept rel nrel (zip rs (map length blobs))")
  have "list_all parsed_result ?pre" by (simp add: list_all_iff pre_parsed)
  then have g: "mempool st1 = mempool st" "list_all (good_result env (mempool st)) rs"
    using post_round_good [OF _ assms(2) p] by simp_all
  have "list_all (good_result env (mempool st1)) (map fst (zip rs (map length blobs)))"
    using g by (auto simp: list_all_iff dest: set_zip_leftD)
  then have "pool_ok (mempool st2)" using add_round_ok [OF _ _ a] assms(1) g(1) by simp
  then show ?thesis by (simp add: handle_incoming_txs_def p a)
qed

subsection \<open>Reachable pools\<close>

text \<open>
  What happens to the pool: messages from the network and the blocks that are synchronised; the
  transactions of a block that is popped from the chain; the transactions that a new block takes; the
  timers; and a restart that succeeds. Clock, chain and environment are different at every step. The
  hash of a transaction of a popped block is not the hash of a stored transaction with other inputs.
\<close>

inductive pool_reachable :: "tx_memory_pool \<Rightarrow> bool" where
  empty: "pool_reachable pool_empty"
| incoming: "pool_reachable (mempool st) \<Longrightarrow> \<not> (kept \<and> within_compiled_block_hash_area env) \<Longrightarrow>
    pool_reachable (mempool (snd (snd (handle_incoming_txs env now st blobs kept rel nrel))))"
| returned: "pool_reachable p \<Longrightarrow> tx_ok False tx \<Longrightarrow> tx_wf tx \<Longrightarrow> same_spends p tx \<Longrightarrow>
    pool_reachable (snd (snd (add_tx c now p tx (get_transaction_hash tx) bsize tvc True rel nrel ver)))"
| taken: "pool_reachable p \<Longrightarrow> pool_reachable (snd (take_tx p txid))"
| stuck: "pool_reachable p \<Longrightarrow> pool_reachable (remove_stuck_transactions now p)"
| validated: "pool_reachable p \<Longrightarrow> pool_reachable (fst (validate c p ver))"
| marked: "pool_reachable p \<Longrightarrow> pool_reachable (set_relayed now p txs)"
| restarted: "pool_reachable p \<Longrightarrow> init p = (True, p') \<Longrightarrow> pool_reachable p'"

lemma pool_ok_timed_out: "pool_ok (p\<lparr>timed_out_transactions := ts\<rparr>) = pool_ok p"
  by (simp add: pool_ok_def)

lemma reachable_ok: "pool_reachable p \<Longrightarrow> pool_ok p"
proof (induction rule: pool_reachable.induct)
  case empty
  show ?case by (rule pool_ok_empty)
next
  case (incoming st kept env now blobs rel nrel)
  then show ?case by (intro handle_incoming_txs_ok)
next
  case (returned p tx c now bsize tvc rel nrel ver)
  have "storable tx" using tx_ok_parse [OF returned(2)] by (simp add: storable_def)
  with returned show ?case by (intro add_tx_ok)
next
  case (taken p txid)
  show ?case
  proof (cases "txid \<in> fst ` set (pool_txs p)")
    case True
    then obtain m b where "(txid, m, b) \<in> set (pool_txs p)" by (elim imageE) (metis prod.collapse)
    from take_tx_restrict [OF taken.IH this] show ?thesis using pool_ok_restrict [OF taken.IH] by auto
  next
    case False
    then show ?thesis using taken.IH by (simp add: take_tx_absent)
  qed
next
  case (stuck p now)
  then show ?case by (simp add: remove_stuck_restrict Let_def pool_ok_timed_out pool_ok_restrict)
next
  case (validated p c ver)
  then show ?case by (simp add: validate_restrict Let_def pool_ok_restrict)
next
  case (marked p now txs)
  then show ?case by (intro set_relayed_ok)
next
  case (restarted p p')
  then show ?case using init_ok by blast
qed

text \<open> C25: the invariant of the transaction pool. In every pool that can be reached, the hashes are
  distinct and every stored blob parses to a transaction with the hash it is stored under; the table of
  key images lists for each image exactly the stored transactions that spend it; two transactions that
  spend one image are not both from the network; and the order by fee holds exactly the stored
  transactions, so each of them can be taken out.\<close>

theorem pool_invariant:
  assumes "pool_reachable p"
  shows "distinct (map fst (pool_txs p))
    \<and> (\<forall>(txid, meta, b) \<in> set (pool_txs p). \<exists>tx. parse_and_validate_tx_from_blob b = Some tx
         \<and> get_transaction_hash tx = txid \<and> fst (take_tx p txid) \<noteq> None)
    \<and> (\<forall>k. set (spent_key_images p k) = fst ` {e \<in> set (pool_txs p). spends e k})
    \<and> (\<forall>e1 \<in> set (pool_txs p). \<forall>e2 \<in> set (pool_txs p). \<forall>k. spends e1 k \<and> spends e2 k \<and> e1 \<noteq> e2
         \<longrightarrow> kept_by_block (fst (snd e1)) \<or> kept_by_block (fst (snd e2)))
    \<and> set (map snd (txs_by_fee_and_receive_time p)) = fst ` set (pool_txs p)"
proof -
  have ok: "pool_ok p" by (rule reachable_ok [OF assms])
  have "\<forall>(txid, meta, b) \<in> set (pool_txs p). \<exists>tx. parse_and_validate_tx_from_blob b = Some tx
      \<and> get_transaction_hash tx = txid \<and> fst (take_tx p txid) \<noteq> None"
  proof (clarify)
    fix txid meta b assume "(txid, meta, b) \<in> set (pool_txs p)"
    from take_tx_restrict [OF ok this]
    show "\<exists>tx. parse_and_validate_tx_from_blob b = Some tx \<and> get_transaction_hash tx = txid \<and> fst (take_tx p txid) \<noteq> None"
      by auto
  qed
  moreover have "\<forall>e1 \<in> set (pool_txs p). \<forall>e2 \<in> set (pool_txs p). \<forall>k. spends e1 k \<and> spends e2 k \<and> e1 \<noteq> e2
      \<longrightarrow> kept_by_block (fst (snd e1)) \<or> kept_by_block (fst (snd e2))"
    using single_okD [of "pool_txs p"] ok unfolding pool_ok_def by blast
  moreover have "distinct (map fst (pool_txs p))" "\<forall>k. set (spent_key_images p k) = fst ` {e \<in> set (pool_txs p). spends e k}"
    "set (map snd (txs_by_fee_and_receive_time p)) = fst ` set (pool_txs p)"
    using ok by (simp_all add: pool_ok_def db_ok_def images_ok_def sorted_ok_def)
  ultimately show ?thesis by (intro conjI)
qed

definition example_env :: core_env where
  "example_env = \<lparr> env_chain = example_chain, hard_fork_version = 6, cumulative_blocksize_limit = 1000000,
     env_check_key = (\<lambda>_. True), key_image_in_subgroup = (\<lambda>_. True), verRct_semantics = (\<lambda>_. True),
     verRctSimple_semantics = (\<lambda>_. True), within_compiled_block_hash_area = False \<rparr>"

definition example_core :: core where
  "example_core = \<lparr> mempool = pool_empty, bad_semantics_txes0 = [], bad_semantics_txes1 = [] \<rparr>"

lemma example_length: "length (tx_to_blob example_tx) = 204"
  by code_simp

lemma example_semantic: "check_tx_semantic example_env example_tx False"
  by (simp add: check_tx_semantic_def example_length example_env_def CRYPTONOTE_COINBASE_BLOB_RESERVED_SIZE_def)
    (simp add: example_tx_def check_inputs_types_supported_def check_outs_valid_def check_money_overflow_def
      check_inputs_overflow_def check_outs_overflow_def get_inputs_money_amount_def get_outs_money_amount_def
      check_tx_inputs_keyimages_diff_def check_tx_inputs_ring_members_diff_def check_tx_inputs_keyimages_domain_def
      word_le_nat_alt)

lemma example_incoming:
  "mempool (snd (snd (handle_incoming_txs example_env 50 example_core [tx_to_blob example_tx] False False False))) = example_pool"
proof -
  obtain tvc where a: "add_tx example_chain 50 pool_empty example_tx (get_transaction_hash example_tx) 204 tvc_init
      False False False 6 = (True, tvc, example_pool)" using example_add by blast
  have v: "version example_tx = 1" by (simp add: example_tx_def)
  have "handle_incoming_tx_pre example_env example_core (tx_to_blob example_tx)
      = (Some (example_tx, get_transaction_hash example_tx), tvc_init)"
    using tx_ok_parse [OF example_tx_ok] v
    by (simp add: handle_incoming_tx_pre_def get_max_tx_size_def example_length example_core_def example_env_def)
  moreover have "handle_incoming_tx_post example_env example_core example_tx (get_transaction_hash example_tx) tvc_init False
      = (Some example_tx, tvc_init, example_core)"
    using example_semantic v by (simp add: handle_incoming_tx_post_def word_le_nat_alt)
  moreover have "\<not> have_tx (mempool example_core) h" "\<not> chain_have_tx (env_chain example_env) h" for h
    by (simp_all add: have_tx_def example_core_def pool_empty_def example_env_def example_chain_def)
  ultimately show ?thesis using a
    by (simp add: handle_incoming_txs_def example_length add_new_tx_def)
      (simp add: example_env_def example_core_def)
qed

theorem pool_invariant_witness:
  "pool_txs example_pool \<noteq> [] \<and> set (map snd (txs_by_fee_and_receive_time example_pool)) = fst ` set (pool_txs example_pool)"
proof -
  have "pool_reachable (mempool example_core)" by (simp add: example_core_def pool_reachable.empty)
  from pool_reachable.incoming [OF this, of False example_env 50 "[tx_to_blob example_tx]" False False]
  have r: "pool_reachable example_pool" by (simp add: example_incoming)
  have "pool_txs example_pool \<noteq> []"
    by (simp add: example_pool_def store_tx_def add_txpool_tx_def pool_empty_def insert_key_images_def split_def Let_def)
  then show ?thesis using pool_invariant [OF r] by blast
qed

end
