(* ===== verification/Pool_Template.thy ===== *)
theory Pool_Template
  imports Core_Tx
begin

text \<open>
  The choice of transactions for a new block, \<open>tx_memory_pool::fill_block_template\<close>: on a consistent
  pool it ends normally, and what it chooses fits the block and does not conflict.
\<close>

subsection \<open>The key images of the template\<close>

lemma have_key_images_iff:
  "check_inputs_types ins \<Longrightarrow> have_key_images ks ins \<longleftrightarrow> (\<exists>k \<in> set (key_images ins). k \<in> set ks)"
  by (induction ins rule: key_images.induct) auto

lemma append_key_images_ok:
  assumes "check_inputs_types ins" "distinct (key_images ins)" "set (key_images ins) \<inter> set ks = {}"
  shows "append_key_images ks ins = (True, rev (key_images ins) @ ks)"
  using assms by (induction ins arbitrary: ks rule: key_images.induct) auto

subsection \<open>The loop\<close>

definition entry_size :: "pool_entry \<Rightarrow> nat" where "entry_size e = unat (blob_size (fst (snd e)))"

definition entry_fee :: "pool_entry \<Rightarrow> u64" where "entry_fee e = meta_fee (fst (snd e))"

definition entry_ready :: "chain \<Rightarrow> pool_entry \<Rightarrow> bool" where
  "entry_ready c e = (case parse_and_validate_tx_from_blob (snd (snd e)) of
     None \<Rightarrow> False | Some tx \<Rightarrow> is_transaction_ready_to_go c (fst (snd e)) tx)"

text \<open>What the template says of the transactions chosen so far.\<close>

definition template_ok ::
    "chain \<Rightarrow> tx_memory_pool \<Rightarrow> blob list \<Rightarrow> u64 \<Rightarrow> u64 \<Rightarrow> u8 \<Rightarrow> nat \<Rightarrow> pool_entry list \<Rightarrow> template \<Rightarrow> bool" where
  "template_ok c p hashes median_size coins ver limit chosen t \<longleftrightarrow>
     tx_hashes t = hashes @ map fst chosen
     \<and> set chosen \<subseteq> set (pool_txs p) \<and> distinct chosen
     \<and> list_all (entry_ready c) chosen
     \<and> (\<forall>k. length (filter (\<lambda>e. spends e k) chosen) \<le> 1)
     \<and> unat (total_size t) = sum_list (map entry_size chosen) \<and> unat (total_size t) \<le> limit
     \<and> template_fee t = sum_list (map entry_fee chosen)
     \<and> (4 \<le> ver \<longrightarrow> (\<exists>r. get_block_reward median_size (total_size t) coins ver 0 = Some (True, r)
          \<and> best_coinbase t = r + template_fee t))"

definition images_match :: "pool_entry list \<Rightarrow> template \<Rightarrow> bool" where
  "images_match chosen t \<longleftrightarrow> (\<forall>k. k \<in> set (k_images t) \<longleftrightarrow> (\<exists>e \<in> set chosen. spends e k))"

lemma template_ok_coinbase [simp]:
  "template_ok c p hs md cs ver l chosen (t\<lparr>coinbase := cb\<rparr>) = template_ok c p hs md cs ver l chosen t"
  "images_match chosen (t\<lparr>coinbase := cb\<rparr>) = images_match chosen t"
  by (simp_all add: template_ok_def images_match_def)

lemma reward_defined:
  assumes "unat md < 2147483648" "unat sz < 4294967295"
  shows "get_block_reward md sz coins ver 0 \<noteq> None"
proof -
  have "max (unat md) (unat (get_min_block_size ver)) < 4294967295"
    using assms(1) by (simp add: get_min_block_size_def CRYPTONOTE_BLOCK_GRANTED_FULL_REWARD_ZONE_V1_def
        CRYPTONOTE_BLOCK_GRANTED_FULL_REWARD_ZONE_V2_def CRYPTONOTE_BLOCK_GRANTED_FULL_REWARD_ZONE_V5_def)
  from get_block_reward_value [OF refl this assms(2), of coins 0] show ?thesis by auto
qed

text \<open>A considered transaction fits, and for the newer versions its coinbase is the reward with all fees.\<close>

lemma size_check_consider:
  assumes "template_size_check md coins ver mx t meta = Some (Consider cb)"
  shows "total_size t + blob_size meta \<le> mx \<and>
    (4 \<le> ver \<longrightarrow> (\<exists>r. get_block_reward md (total_size t + blob_size meta) coins ver 0 = Some (True, r)
       \<and> cb = r + template_fee t + meta_fee meta))"
  using assms by (auto simp: template_size_check_def Let_def split: if_splits option.splits prod.splits)

lemma size_check_defined:
  assumes "unat md < 2147483648" "unat mx < 4294967295"
  shows "template_size_check md coins ver mx t meta \<noteq> None"
proof (cases "mx < total_size t + blob_size meta \<or> \<not> 4 \<le> ver")
  case True
  then show ?thesis by (auto simp: template_size_check_def)
next
  case False
  then have "unat (total_size t + blob_size meta) < 4294967295" using assms(2) by (simp add: word_le_nat_alt not_less)
  from reward_defined [OF assms(1) this, of coins ver] obtain ok r
    where "get_block_reward md (total_size t + blob_size meta) coins ver 0 = Some (ok, r)" by auto
  then show ?thesis using False by (simp add: template_size_check_def Let_def)
qed

lemma template_step_ok:
  assumes "template_ok c p hs md coins ver (unat mx) chosen t" "images_match chosen t"
    and e: "e = (txid, meta, b)" "e \<in> set (pool_txs p)" "e \<notin> set chosen" "entry_ok e"
    and sz: "unat (total_size t) + entry_size e < 18446744073709551616"
    and cons: "template_size_check md coins ver mx t0 meta = Some (Consider (coinbase t))"
    and t0: "total_size t0 = total_size t" "template_fee t0 = template_fee t"
  shows "\<exists>chosen'. template_ok c p hs md coins ver (unat mx) chosen' (template_step c t txid meta b)
    \<and> images_match chosen' (template_step c t txid meta b) \<and> set chosen' \<subseteq> insert e (set chosen)"
proof -
  obtain tx where tx: "parse_and_validate_tx_from_blob b = Some tx" "tx_wf tx"
    using e(1,4) by (auto simp: entry_ok_def split: option.splits)
  have sp: "spends e k \<longleftrightarrow> k \<in> set (key_images (vin tx))" for k using tx(1) by (simp add: e(1) spends_def)
  show ?thesis
  proof (cases "is_transaction_ready_to_go c meta tx \<and> \<not> have_key_images (k_images t) (vin tx)")
    case False
    then have "template_step c t txid meta b = t" using tx(1) by (auto simp: template_step_def)
    then show ?thesis using assms(1,2) by auto
  next
    case True
    have dis: "set (key_images (vin tx)) \<inter> set (k_images t) = {}"
      using True tx(2) have_key_images_iff [of "vin tx" "k_images t"] by (auto simp: tx_wf_def)
    let ?t = "template_step c t txid meta b"
    have t: "?t = t\<lparr>tx_hashes := tx_hashes t @ [txid], total_size := total_size t + blob_size meta,
        template_fee := template_fee t + meta_fee meta, best_coinbase := coinbase t,
        k_images := rev (key_images (vin tx)) @ k_images t\<rparr>"
      using True tx append_key_images_ok [OF _ _ dis] by (simp add: template_step_def tx_wf_def)
    have "unat (total_size t + blob_size meta) = unat (total_size t) + entry_size e"
      using sz by (simp add: unat_add_noov e(1) entry_size_def)
    moreover have "length (filter (\<lambda>e. spends e k) (chosen @ [e])) \<le> 1" for k
    proof (cases "spends e k")
      case True
      then have "k \<notin> set (k_images t)" using sp dis by auto
      then have "filter (\<lambda>e. spends e k) chosen = []"
        using assms(2) by (simp add: images_match_def filter_empty_conv)
      then show ?thesis by simp
    qed (use assms(1) in \<open>simp add: template_ok_def\<close>)
    moreover note size_check_consider [OF cons]
    ultimately have "template_ok c p hs md coins ver (unat mx) (chosen @ [e]) ?t"
      using assms(1) e(2,3) True tx(1) t0
      by (auto simp: t template_ok_def e(1) entry_ready_def entry_fee_def word_le_nat_alt)
    moreover have "images_match (chosen @ [e]) ?t"
      using assms(2) sp by (auto simp: t images_match_def)
    moreover have "set (chosen @ [e]) \<subseteq> insert e (set chosen)" by simp
    ultimately show ?thesis by blast
  qed
qed

lemma template_loop_ok:
  assumes "pool_ok p" "template_ok c p hs md coins ver (unat mx) chosen t" "images_match chosen t"
    and "set (map snd srt) \<subseteq> fst ` set (pool_txs p)" "distinct (map snd srt)"
    and "snd ` set srt \<inter> fst ` set chosen = {}"
    and "unat md < 2147483648" "unat mx < 4294967295" "\<forall>e \<in> set (pool_txs p). entry_size e < 4294967296"
  shows "\<exists>chosen t'. template_loop c p md coins ver mx srt t = Some t' \<and> template_ok c p hs md coins ver (unat mx) chosen t'"
  using assms(2-6)
proof (induction srt arbitrary: t chosen)
  case Nil
  then show ?case by auto
next
  case (Cons s srt)
  obtain key txid where s: "s = (key, txid)" by (cases s)
  from Cons.prems(3) obtain e where e0: "e \<in> set (pool_txs p)" "fst e = txid" by (auto simp: s)
  obtain meta b where e: "e = (txid, meta, b)" using e0(2) by (cases e) auto
  have m: "map_of (pool_txs p) txid = Some (meta, b)" using assms(1) e0(1) by (simp add: e pool_ok_def db_ok_def)
  obtain v where v: "template_size_check md coins ver mx t meta = Some v"
    using size_check_defined [OF assms(7,8), of coins ver t meta] by auto
  have srt: "set (map snd srt) \<subseteq> fst ` set (pool_txs p)" "distinct (map snd srt)"
    "snd ` set srt \<inter> fst ` set chosen = {}" using Cons.prems by auto
  show ?case
  proof (cases v)
    case Stop
    then show ?thesis using Cons.prems(1) v m by (auto simp: s)
  next
    case (Skip cb)
    then show ?thesis using Cons.IH [of chosen "t\<lparr>coinbase := cb\<rparr>"] Cons.prems(1,2) srt v m by (simp add: s)
  next
    case (Consider cb)
    let ?t = "t\<lparr>coinbase := cb\<rparr>"
    have "unat (total_size t) < 4294967295" using Cons.prems(1) assms(8) by (simp add: template_ok_def)
    moreover have "entry_size e < 4294967296" using assms(9) e0(1) by blast
    ultimately have sz: "unat (total_size ?t) + entry_size e < 18446744073709551616" by simp
    have en: "entry_ok e" using assms(1) e0(1) by (simp add: pool_ok_def db_ok_def)
    have nc: "e \<notin> set chosen" using Cons.prems(5) e0(2) by (auto simp: s)
    have okt: "template_ok c p hs md coins ver (unat mx) chosen ?t" "images_match chosen ?t"
      using Cons.prems(1,2) by simp_all
    have cc: "template_size_check md coins ver mx t meta = Some (Consider (coinbase ?t))" using v Consider by simp
    obtain chosen' where c': "template_ok c p hs md coins ver (unat mx) chosen' (template_step c ?t txid meta b)"
      "images_match chosen' (template_step c ?t txid meta b)" "set chosen' \<subseteq> insert e (set chosen)"
      using template_step_ok [OF okt e e0(1) nc en sz cc] by auto
    have "fst ` set chosen' \<subseteq> insert txid (fst ` set chosen)" using image_mono [OF c'(3), of fst] e0(2) by simp
    moreover have "txid \<notin> snd ` set srt" using Cons.prems(4) by (simp add: s)
    ultimately have "snd ` set srt \<inter> fst ` set chosen' = {}" using srt(3) by blast
    then show ?thesis using Cons.IH [OF c'(1,2) srt(1,2)] v m Consider by (simp add: s)
  qed
qed

subsection \<open>Property\<close>

definition template_limit :: "nat \<Rightarrow> u8 \<Rightarrow> nat" where
  "template_limit m ver = (if 4 \<le> ver then 2 * m - 600 else 130 * m div 100 - 600)"

lemma template_max_size_value:
  assumes "462 \<le> unat md" "unat md < 2147483648"
  shows "unat (template_max_size md ver) = template_limit (unat md) ver"
proof -
  have v: "unat (2 * md) = 2 * unat md" "unat (130 * md) = 130 * unat md"
    using assms by (simp_all add: unat_mult_noov)
  have d: "unat (130 * md div 100) = 130 * unat md div 100" by (simp add: unat_div v)
  have "(600 :: u64) \<le> 2 * md" "(600 :: u64) \<le> 130 * md div 100"
    using assms by (simp_all add: word_le_nat_alt v d)
  then show ?thesis
    by (simp add: template_max_size_def template_limit_def CRYPTONOTE_COINBASE_BLOB_RESERVED_SIZE_def unat_sub_noov v d)
qed

text \<open> C26: filling a block template from any reachable pool, with a median size from 462 bytes to 2 GiB and
  transactions below 4 GiB, ends without an exception or a failed assertion. The chosen transactions are
  stored ones that are ready for the chain, none is chosen twice, and no key image is spent twice. The
  size and the fee of the template are the sums over the chosen transactions, the size is within the
  limit, and from block version 4 on the reward announced is the reward of a block of that size plus
  the fees.\<close>

theorem template_correct:
  assumes "pool_reachable p" "462 \<le> unat md" "unat md < 2147483648"
    and "\<forall>e \<in> set (pool_txs p). entry_size e < 4294967296"
  shows "\<exists>t chosen. fill_block_template c p hashes md coins ver = Some t
    \<and> tx_hashes t = hashes @ map fst chosen \<and> distinct chosen
    \<and> (\<forall>e \<in> set chosen. e \<in> set (pool_txs p) \<and> entry_ready c e)
    \<and> (\<forall>k. length (filter (\<lambda>e. spends e k) chosen) \<le> 1)
    \<and> unat (total_size t) = sum_list (map entry_size chosen) \<and> unat (total_size t) \<le> template_limit (unat md) ver
    \<and> template_fee t = sum_list (map entry_fee chosen)
    \<and> (4 \<le> ver \<longrightarrow> (\<exists>r. get_block_reward md (total_size t) coins ver 0 = Some (True, r)
         \<and> best_coinbase t = r + template_fee t))"
proof -
  have ok: "pool_ok p" by (rule reachable_ok [OF assms(1)])
  have lim: "unat (template_max_size md ver) = template_limit (unat md) ver" by (rule template_max_size_value [OF assms(2,3)])
  have mx: "unat (template_max_size md ver) < 4294967295" 
  proof -
    have "13 * unat md div 10 \<le> 2 * unat md" by simp
    then have "template_limit (unat md) ver < 4294967295" using assms(2,3) unfolding template_limit_def by auto
    then show ?thesis by (simp add: lim)
  qed
  let ?t = "\<lambda>best. \<lparr> tx_hashes = hashes, total_size = 0, template_fee = 0, best_coinbase = best, coinbase = 0, k_images = [] \<rparr>"
  have rw: "get_block_reward md 0 coins ver 0 = Some (True, block_base_reward coins ver)"
    by (simp add: get_block_reward_def Let_def)
  have t0: "template_ok c p hashes md coins ver (unat (template_max_size md ver)) [] (?t (block_base_reward coins ver))"
    by (simp add: template_ok_def rw)
  have srt: "set (map snd (txs_by_fee_and_receive_time p)) \<subseteq> fst ` set (pool_txs p)"
    "distinct (map snd (txs_by_fee_and_receive_time p))" using ok by (simp_all add: pool_ok_def sorted_ok_def)
  obtain chosen t where "fill_block_template c p hashes md coins ver = Some t"
    and "template_ok c p hashes md coins ver (unat (template_max_size md ver)) chosen t"
    using template_loop_ok [OF ok t0 _ srt _ assms(3) mx assms(4)] rw
    by (auto simp: fill_block_template_def images_match_def)
  then show ?thesis unfolding template_ok_def lim by (auto simp: list_all_iff)
qed

theorem template_correct_witness:
  "\<exists>t. fill_block_template example_chain example_pool [] 1000000 0 6 = Some t
    \<and> unat (total_size t) \<le> 1999400"
proof -
  have "pool_reachable (mempool example_core)" by (simp add: example_core_def pool_reachable.empty)
  from pool_reachable.incoming [OF this, of False example_env 50 "[tx_to_blob example_tx]" False False]
  have r: "pool_reachable example_pool" by (simp add: example_incoming)
  have "\<forall>e \<in> set (pool_txs example_pool). entry_size e < 4294967296"
    by (simp add: example_pool_def store_tx_def add_txpool_tx_def pool_empty_def insert_key_images_def split_def Let_def
        entry_size_def make_meta_def)
  from template_correct [OF r _ _ this, of 1000000 example_chain "[]" 0 6]
  show ?thesis by (auto simp: template_limit_def)
qed

end
