(* ===== verification/Blocks.thy ===== *)
theory Blocks
  imports Tx_Extra Tree_Hash Difficulty
begin

text \<open>
  Blocks of \<open>cryptonote_basic/cryptonote_basic.h\<close> and their hashes and proof of work in
  \<open>cryptonote_basic/cryptonote_format_utils.cpp\<close>. Block versions 2 and 3 are merge mined: they carry
  the block of the parent chain, whose coinbase commits to this chain's block. The cached block hash
  is the one computed here. The slow hashes and the hash of the genesis block are arguments. Members
  that a version does not read are zero. \<open>None\<close> in the hash functions is a failed assertion or an
  out-of-range access.
\<close>

subsection \<open>Types\<close>

record block_header =
  major_version :: u8
  minor_version :: u8
  timestamp :: u64
  prev_id :: blob
  nonce :: u32

record bytecoin_block =
  parent_major_version :: u8
  parent_minor_version :: u8
  parent_prev_id :: blob
  parent_nonce :: u32
  number_of_transactions :: u64
  miner_tx_branch :: "blob list"
  parent_miner_tx :: transaction
  blockchain_branch :: "blob list"

record block = block_header +
  parent_block :: bytecoin_block
  miner_tx :: transaction
  block_txs :: "blob list"

definition BLOCK_MAJOR_VERSION_8 :: u8 where "BLOCK_MAJOR_VERSION_8 = 8"

text \<open>A transaction after \<open>set_null\<close>, and the parent block of a block that has none.\<close>

definition null_tx :: transaction where
  "null_tx = \<lparr> version = 1, unlock_time = 0, vin = [], vout = [], extra = [], signatures = [], rct_signatures = rct_null \<rparr>"

definition null_parent :: bytecoin_block where
  "null_parent = \<lparr> parent_major_version = 0, parent_minor_version = 0, parent_prev_id = replicate 32 0, parent_nonce = 0,
     number_of_transactions = 0, miner_tx_branch = [], parent_miner_tx = null_tx, blockchain_branch = [] \<rparr>"

definition own_work :: "u8 \<Rightarrow> bool" where
  "own_work v \<longleftrightarrow> v = 1 \<or> 4 \<le> v"

definition merge_mined :: "u8 \<Rightarrow> bool" where
  "merge_mined v \<longleftrightarrow> v = 2 \<or> v = 3"

subsection \<open>Serialization\<close>

definition write_header :: "'a block_header_scheme \<Rightarrow> written" where
  "write_header h =
     out_list
       [out_put (write_varint (major_version h)),
        out_guard (major_version h \<le> BLOCK_MAJOR_VERSION_8),
        out_put (write_varint (minor_version h)),
        out_put (if own_work (major_version h) then write_varint (timestamp h) else []),
        out_put (prev_id h),
        out_put (if own_work (major_version h) then write_uint 4 (nonce h) else [])]"

definition read_header :: "block_header reader" where
  "read_header s =
     do { (v, s) \<leftarrow> read_uvarint s;
          if \<not> v \<le> BLOCK_MAJOR_VERSION_8 then None
          else
            do { (mi, s) \<leftarrow> read_uvarint s;
                 (ts, s) \<leftarrow> (if own_work v then read_uvarint s else Some (0, s));
                 (prev, s) \<leftarrow> read_blob 32 s;
                 (n, s) \<leftarrow> (if own_work v then read_uint 4 0 0 s else Some (0, s));
                 Some (\<lparr> major_version = v, minor_version = mi, timestamp = ts, prev_id = prev, nonce = n \<rparr>, s) } }"

text \<open>\<open>serializable_bytecoin_block\<close>; the time stamp is a member of the block itself.\<close>

definition write_parent :: "bool \<Rightarrow> bool \<Rightarrow> u64 \<Rightarrow> bytecoin_block \<Rightarrow> written" where
  "write_parent hashing_serialization header_only ts b =
     out_list
       [out_put (write_varint (parent_major_version b)),
        out_put (write_varint (parent_minor_version b)),
        out_put (write_varint ts),
        out_put (parent_prev_id b),
        out_put (write_uint 4 (parent_nonce b)),
        if hashing_serialization
        then case calculate_transaction_hash True (parent_miner_tx b) of
               None \<Rightarrow> out_guard False
             | Some (miner_tx_hash, _) \<Rightarrow>
                 (case tree_hash_from_branch (miner_tx_branch b) (length (miner_tx_branch b)) miner_tx_hash None of
                    None \<Rightarrow> out_guard False
                  | Some merkle_root \<Rightarrow> out_put merkle_root)
        else out_put [],
        out_put (write_varint (number_of_transactions b)),
        out_guard (\<not> number_of_transactions b < 1),
        if header_only then out_put []
        else out_list
          [out_guard (tree_depth (unat (number_of_transactions b)) = Some (length (miner_tx_branch b))),
           out_put (concat (miner_tx_branch b)),
           write_transaction True (parent_miner_tx b),
           case get_mm_tag_from_extra (extra (parent_miner_tx b)) of
             None \<Rightarrow> out_guard False
           | Some mm_tag \<Rightarrow> out_guard (unat (mm_depth mm_tag) = length (blockchain_branch b)),
           out_put (concat (blockchain_branch b))]]"

definition read_parent :: "(u64 \<times> bytecoin_block) reader" where
  "read_parent s =
     do { (ma, s) \<leftarrow> read_uvarint s;
          (mi, s) \<leftarrow> read_uvarint s;
          (ts, s) \<leftarrow> read_uvarint s;
          (prev, s) \<leftarrow> read_blob 32 s;
          (n, s) \<leftarrow> read_uint 4 0 0 s;
          (cnt, s) \<leftarrow> read_uvarint s;
          if cnt < 1 then None
          else
            do { branch_size \<leftarrow> tree_depth (unat cnt);
                 (branch, s) \<leftarrow> read_array (read_blob 32) branch_size s;
                 (tx, s) \<leftarrow> read_transaction True s;
                 mm_tag \<leftarrow> get_mm_tag_from_extra (extra tx);
                 (bc, s) \<leftarrow> read_array (read_blob 32) (unat (mm_depth mm_tag)) s;
                 Some ((ts, \<lparr> parent_major_version = ma, parent_minor_version = mi, parent_prev_id = prev, parent_nonce = n,
                   number_of_transactions = cnt, miner_tx_branch = branch, parent_miner_tx = tx,
                   blockchain_branch = bc \<rparr>), s) } }"

definition write_block :: "block \<Rightarrow> written" where
  "write_block b =
     out_list
       [write_header b,
        if merge_mined (major_version b) then write_parent False False (timestamp b) (parent_block b) else out_put [],
        write_transaction False (miner_tx b),
        out_put (write_vector (\<lambda>h. h) (block_txs b))]"

definition make_block :: "block_header \<Rightarrow> u64 \<Rightarrow> bytecoin_block \<Rightarrow> transaction \<Rightarrow> blob list \<Rightarrow> block" where
  "make_block h ts p tx txs =
     \<lparr> major_version = major_version h, minor_version = minor_version h, timestamp = ts, prev_id = prev_id h,
       nonce = nonce h, parent_block = p, miner_tx = tx, block_txs = txs \<rparr>"

definition read_block :: "block reader" where
  "read_block s =
     do { (h, s) \<leftarrow> read_header s;
          ((ts, p), s) \<leftarrow> (if merge_mined (major_version h) then read_parent s else Some ((timestamp h, null_parent), s));
          (tx, s) \<leftarrow> read_transaction False s;
          (txs, s) \<leftarrow> read_vector (read_blob 32) s;
          Some (make_block h ts p tx txs, s) }"

definition block_to_blob :: "block \<Rightarrow> blob" where
  "block_to_blob b = snd (write_block b)"

definition parse_and_validate_block_from_blob :: "blob \<Rightarrow> block option" where
  "parse_and_validate_block_from_blob b_blob = parse_binary read_block b_blob"

subsection \<open>Hashes\<close>

definition get_tx_tree_hash :: "block \<Rightarrow> blob option" where
  "get_tx_tree_hash b =
     (let txs_ids = get_transaction_hash (miner_tx b) # block_txs b in tree_hash txs_ids (length txs_ids))"

definition get_block_hashing_blob :: "block \<Rightarrow> blob option" where
  "get_block_hashing_blob b =
     do { tree_root_hash \<leftarrow> get_tx_tree_hash b;
          Some (snd (write_header b) @ tree_root_hash @ write_varint (of_nat (length (block_txs b) + 1) :: u64)) }"

definition get_bytecoin_block_hashing_blob :: "block \<Rightarrow> written" where
  "get_bytecoin_block_hashing_blob b = write_parent True True (timestamp b) (parent_block b)"

text \<open>The blob that is hashed, which ends with the parent block for the merge-mined versions.\<close>

definition block_hash_blob :: "block \<Rightarrow> blob option" where
  "block_hash_blob b =
     do { blob \<leftarrow> get_block_hashing_blob b;
          if merge_mined (major_version b)
          then let parent = write_parent True False (timestamp b) (parent_block b)
               in if fst parent then Some (blob @ snd parent) else None
          else Some blob }"

text \<open>\<open>get_object_hash\<close> of a string: the object is serialized before it is hashed, with its length in front.\<close>

definition get_object_hash :: "blob \<Rightarrow> blob" where
  "get_object_hash b = cn_fast_hash (write_string b)"

definition get_block_hash :: "block \<Rightarrow> blob option" where
  "get_block_hash b = map_option get_object_hash (block_hash_blob b)"

definition get_block_header_hash :: "block \<Rightarrow> blob option" where
  "get_block_header_hash b = map_option get_object_hash (get_block_hashing_blob b)"

subsection \<open>Proof of work\<close>

record slow_hashes =
  cn_slow_hash :: "blob \<Rightarrow> int \<Rightarrow> u64 \<Rightarrow> blob"
  chukwa_slow_hash_v2 :: "blob \<Rightarrow> blob"

definition cn_variant :: "u8 \<Rightarrow> int" where
  "cn_variant v = (if 4 \<le> v then (if 6 \<le> v then uint v - 2 else uint v - 3) else 0)"

definition get_block_longhash :: "slow_hashes \<Rightarrow> block \<Rightarrow> u64 \<Rightarrow> blob option" where
  "get_block_longhash sh b height =
     do { bd \<leftarrow> get_block_hashing_blob b;
          Some (if 7 \<le> major_version b then chukwa_slow_hash_v2 sh bd
                else cn_slow_hash sh bd (cn_variant (major_version b)) height) }"

definition get_bytecoin_block_longhash :: "slow_hashes \<Rightarrow> block \<Rightarrow> blob option" where
  "get_bytecoin_block_longhash sh b =
     (let bd = get_bytecoin_block_hashing_blob b
      in if fst bd then Some (cn_slow_hash sh (snd bd) 0 0) else None)"

definition check_proof_of_work_v1 :: "slow_hashes \<Rightarrow> block \<Rightarrow> u64 \<Rightarrow> u64 \<Rightarrow> bool option" where
  "check_proof_of_work_v1 sh bl current_diffic height =
     (if merge_mined (major_version bl) then Some False
      else do { proof_of_work \<leftarrow> get_block_longhash sh bl height;
                Some (check_hash proof_of_work current_diffic) })"

definition check_proof_of_work_v2 :: "slow_hashes \<Rightarrow> blob option \<Rightarrow> block \<Rightarrow> u64 \<Rightarrow> bool option" where
  "check_proof_of_work_v2 sh genesis bl current_diffic =
     (if major_version bl < 2 \<or> 3 < major_version bl then Some False
      else case get_bytecoin_block_longhash sh bl of
        None \<Rightarrow> Some False
      | Some proof_of_work \<Rightarrow>
          if \<not> check_hash proof_of_work current_diffic then Some False
          else case get_mm_tag_from_extra (extra (parent_miner_tx (parent_block bl))) of
            None \<Rightarrow> Some False
          | Some mm_tag \<Rightarrow>
              (case genesis of
                 None \<Rightarrow> Some False
               | Some genesis_block_hash \<Rightarrow>
                   let branch = blockchain_branch (parent_block bl)
                   in if 8 * 32 < length branch then Some False
                      else do { aux_block_header_hash \<leftarrow> get_block_header_hash bl;
                                aux_blocks_merkle_root \<leftarrow>
                                  tree_hash_from_branch branch (length branch) aux_block_header_hash (Some genesis_block_hash);
                                Some (aux_blocks_merkle_root = mm_merkle_root mm_tag) }))"

definition check_proof_of_work :: "slow_hashes \<Rightarrow> blob option \<Rightarrow> block \<Rightarrow> u64 \<Rightarrow> u64 \<Rightarrow> bool option" where
  "check_proof_of_work sh genesis bl current_diffic height =
     (if merge_mined (major_version bl) then check_proof_of_work_v2 sh genesis bl current_diffic
      else check_proof_of_work_v1 sh bl current_diffic height)"

subsection \<open>Round trip\<close>

definition header_ok :: "'a block_header_scheme \<Rightarrow> bool" where
  "header_ok h \<longleftrightarrow> major_version h \<le> BLOCK_MAJOR_VERSION_8 \<and> length (prev_id h) = 32
     \<and> (\<not> own_work (major_version h) \<longrightarrow> nonce h = 0)"

definition parent_ok :: "bytecoin_block \<Rightarrow> bool" where
  "parent_ok b \<longleftrightarrow> length (parent_prev_id b) = 32 \<and> \<not> number_of_transactions b < 1
     \<and> tree_depth (unat (number_of_transactions b)) = Some (length (miner_tx_branch b))
     \<and> list_all (\<lambda>h. length h = 32) (miner_tx_branch b) \<and> tx_ok True (parent_miner_tx b)
     \<and> (\<exists>mm_tag. get_mm_tag_from_extra (extra (parent_miner_tx b)) = Some mm_tag
          \<and> unat (mm_depth mm_tag) = length (blockchain_branch b))
     \<and> list_all (\<lambda>h. length h = 32) (blockchain_branch b)"

definition block_ok :: "block \<Rightarrow> bool" where
  "block_ok b \<longleftrightarrow> header_ok b \<and> tx_ok False (miner_tx b)
     \<and> length (block_txs b) < 2 ^ 64 \<and> list_all (\<lambda>h. length h = 32) (block_txs b)
     \<and> (if merge_mined (major_version b) then parent_ok (parent_block b)
        else parent_block b = null_parent \<and> (\<not> own_work (major_version b) \<longrightarrow> timestamp b = 0))"

lemma write_header_ok: "header_ok h \<Longrightarrow> write_header h =
  (True, write_varint (major_version h) @ write_varint (minor_version h)
     @ (if own_work (major_version h) then write_varint (timestamp h) else []) @ prev_id h
     @ (if own_work (major_version h) then write_uint 4 (nonce h) else []))"
  by (simp add: header_ok_def write_header_def out_seq_def)

definition plain_header :: "'a block_header_scheme \<Rightarrow> block_header" where
  "plain_header h = \<lparr> major_version = major_version h, minor_version = minor_version h,
     timestamp = (if own_work (major_version h) then timestamp h else 0), prev_id = prev_id h, nonce = nonce h \<rparr>"

lemma read_header_back:
  "header_ok h \<Longrightarrow> read_header (snd (write_header h) @ rest) = Some (plain_header h, rest)"
  using uint32_field.read_back [of "nonce h" rest]
  by (auto simp: write_header_ok read_header_def read_uvarint_back read_blob_back header_ok_def plain_header_def)

lemma read_header_ok:
  "read_header s = Some (h, rest) \<Longrightarrow> header_ok h \<and> (\<not> own_work (major_version h) \<longrightarrow> timestamp h = 0)"
  by (auto simp: read_header_def header_ok_def Option.bind_eq_Some_conv split: if_splits dest: read_blob_length)

lemma write_parent_ok:
  assumes "parent_ok b"
  shows "write_parent False False ts b =
    (True, write_varint (parent_major_version b) @ write_varint (parent_minor_version b) @ write_varint ts
       @ parent_prev_id b @ write_uint 4 (parent_nonce b) @ write_varint (number_of_transactions b)
       @ concat (miner_tx_branch b) @ snd (write_transaction True (parent_miner_tx b)) @ concat (blockchain_branch b))"
proof -
  have "fst (write_transaction True (parent_miner_tx b))" using assms by (simp add: parent_ok_def write_transaction_succeeds)
  then show ?thesis using assms by (auto simp: parent_ok_def write_parent_def out_seq_def)
qed

lemma read_parent_back:
  assumes "parent_ok b"
  shows "read_parent (snd (write_parent False False ts b) @ rest) = Some ((ts, b), rest)"
proof -
  obtain tag where tag: "get_mm_tag_from_extra (extra (parent_miner_tx b)) = Some tag"
    "unat (mm_depth tag) = length (blockchain_branch b)" using assms by (auto simp: parent_ok_def)
  have h: "list_all (\<lambda>h. length h = 32) (miner_tx_branch b)" "list_all (\<lambda>h. length h = 32) (blockchain_branch b)"
    and t: "tx_ok True (parent_miner_tx b)" using assms by (simp_all add: parent_ok_def)
  note a = hash_field.array_back [OF h(1)] hash_field.array_back [OF h(2), of rest]
  show ?thesis using assms tag a tx_field.read_back [OF t] uint32_field.read_back [of "parent_nonce b"]
    by (simp add: write_parent_ok read_parent_def read_uvarint_back read_blob_back parent_ok_def)
qed

lemma read_parent_ok: "read_parent s = Some ((ts, b), rest) \<Longrightarrow> parent_ok b"
  by (auto simp: read_parent_def parent_ok_def Option.bind_eq_Some_conv split: if_splits
      dest!: read_blob_length hash_field.array_ok dest: read_transaction_ok)

lemma write_block_ok:
  assumes "block_ok b"
  shows "write_block b = (True, snd (write_header b)
    @ (if merge_mined (major_version b) then snd (write_parent False False (timestamp b) (parent_block b)) else [])
    @ snd (write_transaction False (miner_tx b)) @ write_vector (\<lambda>h. h) (block_txs b))"
proof -
  have "fst (write_transaction False (miner_tx b))" "fst (write_header b)"
    using assms by (simp_all add: block_ok_def write_transaction_succeeds write_header_ok)
  moreover have "merge_mined (major_version b) \<Longrightarrow> fst (write_parent False False (timestamp b) (parent_block b))"
    using assms by (simp add: block_ok_def write_parent_ok)
  ultimately show ?thesis by (simp add: write_block_def out_seq_def)
qed

lemma merge_not_own: "merge_mined v \<Longrightarrow> \<not> own_work v"
  by (auto simp: merge_mined_def own_work_def word_le_nat_alt)

interpretation block_field: field "\<lambda>b. snd (write_block b)" read_block block_ok
proof
  fix b rest
  show "read_block (snd (write_block b) @ rest) = Some (b, rest)" if ok: "block_ok b"
  proof -
    have h: "header_ok b" and t: "tx_ok False (miner_tx b)"
      and v: "length (block_txs b) < 2 ^ 64 \<and> list_all (\<lambda>h. length h = 32) (block_txs b)"
      using ok by (simp_all add: block_ok_def)
    have m: "make_block (plain_header b) (timestamp b) (parent_block b) (miner_tx b) (block_txs b) = b"
      by (simp add: make_block_def plain_header_def)
    show ?thesis
    proof (cases "merge_mined (major_version b)")
      case True
      then have p: "parent_ok (parent_block b)" using ok by (simp add: block_ok_def)
      show ?thesis using True m read_parent_back [OF p] tx_field.read_back [OF t] hashes_field.read_back [OF v]
        by (simp add: write_block_ok [OF ok] read_block_def read_header_back [OF h] plain_header_def)
    next
      case False
      then have p: "parent_block b = null_parent" "timestamp (plain_header b) = timestamp b"
        using ok by (auto simp: block_ok_def plain_header_def)
      have mv: "major_version (plain_header b) = major_version b" by (simp add: plain_header_def)
      show ?thesis using False m p tx_field.read_back [OF t] hashes_field.read_back [OF v]
        by (simp add: write_block_ok [OF ok] read_block_def read_header_back [OF h] mv)
    qed
  qed
  show "block_ok b" if "read_block s = Some (b, rest)" for s
  proof -
    from that obtain h s1 ts p s2 tx s3 txs where h: "read_header s = Some (h, s1)"
      and p: "(if merge_mined (major_version h) then read_parent s1 else Some ((timestamp h, null_parent), s1)) = Some ((ts, p), s2)"
      and tx: "read_transaction False s2 = Some (tx, s3)" and txs: "read_vector (read_blob 32) s3 = Some (txs, rest)"
      and b: "b = make_block h ts p tx txs"
      by (auto simp: read_block_def Option.bind_eq_Some_conv)
    show ?thesis using read_header_ok [OF h] p read_parent_ok [of s1 ts p s2] tx_field.read_ok [OF tx] hashes_field.read_ok [OF txs]
      by (auto simp: b block_ok_def make_block_def header_ok_def split: if_splits dest: merge_not_own)
  qed
  show "snd (write_block b) \<noteq> []" if "block_ok b"
    using that by (simp add: write_block_ok write_vector_not_Nil)
qed

subsection \<open>What a hash commits to\<close>

text \<open>
  Two lists of hash inputs collide when they hold different blobs with the same hash. The inputs of
  the tree hash are the nodes of the tree, those of a branch the nodes on the way to the root.
\<close>

definition collide :: "blob list \<Rightarrow> blob list \<Rightarrow> bool" where
  "collide xs ys \<longleftrightarrow> (\<exists>x \<in> set xs. \<exists>y \<in> set ys. x \<noteq> y \<and> cn_fast_hash x = cn_fast_hash y)"

lemma collide_mono: "collide xs ys \<Longrightarrow> set xs \<subseteq> set xs' \<Longrightarrow> set ys \<subseteq> set ys' \<Longrightarrow> collide xs' ys'"
  by (auto simp: collide_def)

lemma collide_Cons: "x \<noteq> y \<Longrightarrow> cn_fast_hash x = cn_fast_hash y \<Longrightarrow> collide (x # xs) (y # ys)"
  by (auto simp: collide_def)

fun merkle_nodes :: "nat \<Rightarrow> blob list \<Rightarrow> blob list" where
  "merkle_nodes 0 xs = []"
| "merkle_nodes (Suc k) xs =
     (merkle cn_fast_hash k (take (2 ^ k) xs) @ merkle cn_fast_hash k (drop (2 ^ k) xs))
     # merkle_nodes k (take (2 ^ k) xs) @ merkle_nodes k (drop (2 ^ k) xs)"

fun pair_nodes :: "blob list \<Rightarrow> blob list" where
  "pair_nodes (a # b # xs) = (a @ b) # pair_nodes xs"
| "pair_nodes xs = []"

definition tree_nodes :: "nat \<Rightarrow> blob list \<Rightarrow> blob list" where
  "tree_nodes d xs = pair_nodes (drop (2 * 2 ^ d - length xs) xs) @ merkle_nodes d (leaf_row cn_fast_hash (2 ^ d) xs)"

abbreviation hashes32 :: "blob list \<Rightarrow> bool" where
  "hashes32 xs \<equiv> list_all (\<lambda>h. length h = 32) xs"

lemma hashes32_take_drop: "hashes32 xs \<Longrightarrow> hashes32 (take n xs) \<and> hashes32 (drop n xs)"
  by (auto simp: list_all_iff dest: in_set_takeD in_set_dropD)

lemma hashes32_pairs: "hashes32 (pairs cn_fast_hash xs)"
  by (induction cn_fast_hash xs rule: pairs.induct) (auto simp: cnh.hash_length)

lemma merkle_length: "hashes32 xs \<Longrightarrow> length xs = 2 ^ k \<Longrightarrow> length (merkle cn_fast_hash k xs) = 32"
  by (cases k) (auto simp: cnh.hash_length list_all_length)

lemma merkle_binding:
  assumes "hashes32 xs" "hashes32 ys" "length xs = 2 ^ k" "length ys = 2 ^ k"
    and "merkle cn_fast_hash k xs = merkle cn_fast_hash k ys"
  shows "xs = ys \<or> collide (merkle_nodes k xs) (merkle_nodes k ys)"
  using assms
proof (induction k arbitrary: xs ys)
  case 0
  then show ?case by (cases xs; cases ys) auto
next
  case (Suc k)
  let ?a = "take (2 ^ k) xs" and ?b = "drop (2 ^ k) xs" and ?c = "take (2 ^ k) ys" and ?d = "drop (2 ^ k) ys"
  let ?m = "merkle cn_fast_hash k"
  have h: "hashes32 ?a" "hashes32 ?b" "hashes32 ?c" "hashes32 ?d"
    using hashes32_take_drop Suc.prems(1,2) by blast+
  have l: "length ?a = 2 ^ k" "length ?b = 2 ^ k" "length ?c = 2 ^ k" "length ?d = 2 ^ k" using Suc.prems(3,4) by auto
  show ?case
  proof (cases "?m ?a @ ?m ?b = ?m ?c @ ?m ?d")
    case False
    then show ?thesis using Suc.prems(5) by (simp add: collide_Cons)
  next
    case True
    then have e: "?m ?a = ?m ?c" "?m ?b = ?m ?d" using merkle_length [OF h(1) l(1)] merkle_length [OF h(3) l(3)] by simp_all
    from Suc.IH [OF h(1,3) l(1,3) e(1)] Suc.IH [OF h(2,4) l(2,4) e(2)]
    consider "?a = ?c" "?b = ?d" | "collide (merkle_nodes k ?a) (merkle_nodes k ?c)" | "collide (merkle_nodes k ?b) (merkle_nodes k ?d)"
      by blast
    then show ?thesis
    proof cases
      case 1
      then have "xs = ys" by (metis append_take_drop_id)
      then show ?thesis by simp
    next
      case 2
      have "collide (merkle_nodes (Suc k) xs) (merkle_nodes (Suc k) ys)" by (rule collide_mono [OF 2]) auto
      then show ?thesis by simp
    next
      case 3
      have "collide (merkle_nodes (Suc k) xs) (merkle_nodes (Suc k) ys)" by (rule collide_mono [OF 3]) auto
      then show ?thesis by simp
    qed
  qed
qed

lemma pairs_binding:
  assumes "hashes32 xs" "hashes32 ys" "length xs = length ys" "even (length xs)"
    and "pairs cn_fast_hash xs = pairs cn_fast_hash ys"
  shows "xs = ys \<or> collide (pair_nodes xs) (pair_nodes ys)"
  using assms
proof (induction xs arbitrary: ys rule: pair_nodes.induct)
  case (1 a b xs)
  then obtain c d ys' where ys: "ys = c # d # ys'" by (cases ys rule: pair_nodes.cases) auto
  show ?case
  proof (cases "a @ b = c @ d")
    case False
    then show ?thesis using "1.prems"(5) by (simp add: ys collide_Cons)
  next
    case True
    then have "a = c" "b = d" using "1.prems"(1,2) by (simp_all add: ys)
    moreover have "xs = ys' \<or> collide (pair_nodes xs) (pair_nodes ys')"
      using "1.prems" by (intro "1.IH") (simp_all add: ys)
    then have "xs = ys' \<or> collide (pair_nodes (a # b # xs)) (pair_nodes ys)"
      unfolding ys by (elim disjE) (simp, intro disjI2, erule collide_mono, auto)
    ultimately show ?thesis by (auto simp: ys)
  qed
qed auto

lemma leaf_row_hashes32: "hashes32 xs \<Longrightarrow> hashes32 (leaf_row cn_fast_hash c xs)"
  using hashes32_take_drop [of xs] by (simp add: leaf_row_def hashes32_pairs)

lemma tree_root_length:
  assumes "hashes32 xs" "2 ^ d \<le> length xs" "length xs \<le> 2 * 2 ^ d"
  shows "length (tree_root cn_fast_hash xs d) = 32"
  using assms by (simp add: tree_root_def merkle_length leaf_row_hashes32 length_leaf_row)

lemma tree_binding:
  assumes "hashes32 xs" "hashes32 ys" "length xs = length ys" "2 ^ d \<le> length xs" "length xs \<le> 2 * 2 ^ d"
    and "tree_root cn_fast_hash xs d = tree_root cn_fast_hash ys d"
  shows "xs = ys \<or> collide (tree_nodes d xs) (tree_nodes d ys)"
proof -
  let ?n = "2 * 2 ^ d - length xs"
  have l: "length (leaf_row cn_fast_hash (2 ^ d) xs) = 2 ^ d" "length (leaf_row cn_fast_hash (2 ^ d) ys) = 2 ^ d"
    using assms by (simp_all add: length_leaf_row)
  from merkle_binding [OF leaf_row_hashes32 [OF assms(1)] leaf_row_hashes32 [OF assms(2)] l] assms(6)
  consider (row) "leaf_row cn_fast_hash (2 ^ d) xs = leaf_row cn_fast_hash (2 ^ d) ys"
    | (coll) "collide (merkle_nodes d (leaf_row cn_fast_hash (2 ^ d) xs)) (merkle_nodes d (leaf_row cn_fast_hash (2 ^ d) ys))"
    by (auto simp: tree_root_def)
  then show ?thesis
  proof cases
    case row
    then have t: "take ?n xs = take ?n ys" and p: "pairs cn_fast_hash (drop ?n xs) = pairs cn_fast_hash (drop ?n ys)"
      using assms(3) by (simp_all add: leaf_row_def)
    have "even (length (drop ?n xs))" using assms(4,5) by (simp add: even_diff_nat)
    then have "drop ?n xs = drop ?n ys \<or> collide (pair_nodes (drop ?n xs)) (pair_nodes (drop ?n ys))"
      using hashes32_take_drop assms(1-3) by (intro pairs_binding [OF _ _ _ _ p]) auto
    then show ?thesis
    proof
      assume "drop ?n xs = drop ?n ys"
      with t have "xs = ys" by (metis append_take_drop_id)
      then show ?thesis by simp
    next
      assume c: "collide (pair_nodes (drop ?n xs)) (pair_nodes (drop ?n ys))"
      have "collide (tree_nodes d xs) (tree_nodes d ys)"
        by (rule collide_mono [OF c]) (use assms(3) in \<open>auto simp: tree_nodes_def\<close>)
      then show ?thesis by simp
    qed
  next
    case coll
    have "collide (tree_nodes d xs) (tree_nodes d ys)" by (rule collide_mono [OF coll]) (auto simp: tree_nodes_def)
    then show ?thesis by simp
  qed
qed

text \<open>The root of a branch whose sides are given by the bits of a path.\<close>

fun climb_path :: "blob list \<Rightarrow> blob option \<Rightarrow> nat \<Rightarrow> blob \<Rightarrow> blob option" where
  "climb_path branch path 0 h = Some h"
| "climb_path branch path (Suc k) h =
     (case path_bit path k of
        None \<Rightarrow> None
      | Some right \<Rightarrow>
          if length branch \<le> k then None
          else climb_path branch path k (cn_fast_hash (if right then branch ! k @ h else h @ branch ! k)))"

fun path_nodes :: "blob list \<Rightarrow> blob option \<Rightarrow> nat \<Rightarrow> blob \<Rightarrow> blob list" where
  "path_nodes branch path 0 h = []"
| "path_nodes branch path (Suc k) h =
     (let node = (if path_bit path k = Some True then branch ! k @ h else h @ branch ! k)
      in node # path_nodes branch path k (cn_fast_hash node))"

lemma from_branch_loop_climb:
  "map_option (\<lambda>b. cn_fast_hash (fst b @ snd b)) (from_branch_loop cn_fast_hash branch path k None buffer)
     = climb_path branch path k (cn_fast_hash (fst buffer @ snd buffer))"
proof (induction k arbitrary: buffer)
  case (Suc k)
  then show ?case by (cases "path_bit path k") (auto simp: Let_def)
qed simp

lemma tree_hash_from_branch_path:
  "tree_hash_from_branch branch depth leaf path = climb_path branch path depth leaf"
proof (cases depth)
  case 0
  then show ?thesis by (simp add: tree_hash_from_branch_def tree_hash_from_branch_with_def)
next
  case (Suc k)
  show ?thesis
  proof (cases "path_bit path k")
    case None
    then show ?thesis by (simp add: Suc tree_hash_from_branch_def tree_hash_from_branch_with_def)
  next
    case (Some right)
    have "tree_hash_from_branch branch depth leaf path =
        map_option (\<lambda>b. cn_fast_hash (fst b @ snd b)) (from_branch_loop cn_fast_hash branch path depth (Some leaf) ([], []))"
      by (simp add: Suc tree_hash_from_branch_def tree_hash_from_branch_with_def split: option.split)
    then show ?thesis
      using from_branch_loop_climb [of branch path k "if right then (branch ! k, leaf) else (leaf, branch ! k)"]
      by (simp add: Suc Some Let_def split: if_splits)
  qed
qed

lemma climb_binding:
  assumes "climb_path b1 path k h1 = Some r" "climb_path b2 path k h2 = Some r"
    and "hashes32 b1" "hashes32 b2" "length h1 = 32" "length h2 = 32"
  shows "h1 = h2 \<or> collide (path_nodes b1 path k h1) (path_nodes b2 path k h2)"
  using assms
proof (induction k arbitrary: h1 h2)
  case 0
  then show ?case by simp
next
  case (Suc k)
  obtain right where right: "path_bit path k = Some right" and l: "k < length b1" "k < length b2"
    using Suc.prems(1,2) by (auto split: option.splits if_splits)
  let ?n = "\<lambda>b h. if right then b ! k @ h else h @ b ! k"
  have n: "path_nodes b path (Suc k) h = ?n b h # path_nodes b path k (cn_fast_hash (?n b h))" for b h
    using right by (cases right) (simp_all add: Let_def)
  have "cn_fast_hash (?n b1 h1) = cn_fast_hash (?n b2 h2)
      \<or> collide (path_nodes b1 path k (cn_fast_hash (?n b1 h1))) (path_nodes b2 path k (cn_fast_hash (?n b2 h2)))"
    using Suc.prems right l by (intro Suc.IH) (simp_all add: cnh.hash_length)
  then show ?case
  proof
    assume c: "collide (path_nodes b1 path k (cn_fast_hash (?n b1 h1))) (path_nodes b2 path k (cn_fast_hash (?n b2 h2)))"
    have "collide (path_nodes b1 path (Suc k) h1) (path_nodes b2 path (Suc k) h2)"
      unfolding n by (rule collide_mono [OF c]) auto
    then show ?thesis by blast
  next
    assume e: "cn_fast_hash (?n b1 h1) = cn_fast_hash (?n b2 h2)"
    show ?thesis
    proof (cases "?n b1 h1 = ?n b2 h2")
      case False
      then show ?thesis unfolding n using e collide_Cons by blast
    next
      case True
      have "length (b1 ! k) = 32" "length (b2 ! k) = 32" using Suc.prems(3,4) l by (simp_all add: list_all_length)
      then have "h1 = h2" using True Suc.prems(5,6) by (cases right) simp_all
      then show ?thesis by simp
    qed
  qed
qed

text \<open>The blobs that are hashed on the way to the hash of a block.\<close>

definition block_ids :: "block \<Rightarrow> blob list" where
  "block_ids b = get_transaction_hash (miner_tx b) # block_txs b"

definition id_nodes :: "block \<Rightarrow> blob list" where
  "id_nodes b = tree_nodes (the (tree_depth (length (block_ids b)))) (block_ids b)"

definition header_preimages :: "block \<Rightarrow> blob list" where
  "header_preimages b = write_string (the (get_block_hashing_blob b)) # id_nodes b"

definition block_preimages :: "block \<Rightarrow> blob list" where
  "block_preimages b = write_string (the (block_hash_blob b)) # id_nodes b"

definition small_block :: "block \<Rightarrow> bool" where
  "small_block b \<longleftrightarrow> block_ok b \<and> length (block_txs b) < 0x10000000"

lemma get_transaction_hash_length: "tx_ok False tx \<Longrightarrow> length (get_transaction_hash tx) = 32"
  using calculate_transaction_hash_ok [of False tx] by (auto simp: get_transaction_hash_def)

lemma block_ids_hashes32: "small_block b \<Longrightarrow> hashes32 (block_ids b)"
  by (simp add: small_block_def block_ok_def block_ids_def get_transaction_hash_length)

lemma get_tx_tree_hash_root:
  assumes "small_block b" "floor_log2 d (length (block_ids b))"
  shows "get_tx_tree_hash b = Some (tree_root cn_fast_hash (block_ids b) d)"
  using tree_hash_with_root [OF _ _ assms(2), of cn_fast_hash] assms(1)
  by (simp add: get_tx_tree_hash_def tree_hash_def block_ids_def small_block_def)

lemma small_block_depth:
  assumes "small_block b"
  obtains d where "floor_log2 d (length (block_ids b))" "tree_depth (length (block_ids b)) = Some d"
  using tree_depth_log [of "length (block_ids b)"] assms by (auto simp: block_ids_def small_block_def)

lemma tree_hash_binding:
  assumes "small_block b1" "small_block b2" "length (block_txs b1) = length (block_txs b2)"
    and "get_tx_tree_hash b1 = get_tx_tree_hash b2"
  shows "block_ids b1 = block_ids b2 \<or> collide (id_nodes b1) (id_nodes b2)"
proof -
  obtain d where d: "floor_log2 d (length (block_ids b1))" "tree_depth (length (block_ids b1)) = Some d"
    using small_block_depth [OF assms(1)] .
  have l: "length (block_ids b1) = length (block_ids b2)" using assms(3) by (simp add: block_ids_def)
  have "2 ^ d \<le> length (block_ids b1)" "length (block_ids b1) \<le> 2 * 2 ^ d"
    using d(1) by (simp_all add: floor_log2_def)
  moreover have "tree_root cn_fast_hash (block_ids b1) d = tree_root cn_fast_hash (block_ids b2) d"
    using assms(4) get_tx_tree_hash_root [OF assms(1) d(1)] get_tx_tree_hash_root [OF assms(2), of d] d(1) l by simp
  ultimately show ?thesis
    using tree_binding [OF block_ids_hashes32 [OF assms(1)] block_ids_hashes32 [OF assms(2)] l] d(2) l
    by (simp add: id_nodes_def)
qed

lemma of_nat_u64_inject: "i < 2 ^ 64 \<Longrightarrow> j < 2 ^ 64 \<Longrightarrow> (of_nat i :: u64) = of_nat j \<Longrightarrow> i = j"
  by (simp add: word_of_nat_eq_iff take_bit_nat_eq_self)

lemma varint_split:
  "write_varint (a :: u64) @ x = write_varint b @ y \<Longrightarrow> a = b \<and> x = y"
  by (metis read_uvarint_back option.inject prod.inject)

lemma varint8_split:
  "write_varint (a :: u8) @ x = write_varint b @ y \<Longrightarrow> a = b \<and> x = y"
  by (metis read_uvarint_back option.inject prod.inject)

lemma write_string_inject: "write_string x = write_string y \<Longrightarrow> x = y"
  unfolding write_string_def by (drule varint_split) simp

lemma header_split:
  assumes "header_ok h1" "header_ok h2" "snd (write_header h1) @ x = snd (write_header h2) @ y"
  shows "plain_header h1 = plain_header h2 \<and> x = y"
  using read_header_back [OF assms(1), of x] read_header_back [OF assms(2), of y] assms(3) by simp

lemma hashing_blob_exists:
  assumes "small_block b"
  obtains root where "get_tx_tree_hash b = Some root" "length root = 32"
    "get_block_hashing_blob b = Some (snd (write_header b) @ root @ write_varint (of_nat (length (block_txs b) + 1) :: u64))"
proof -
  obtain d where d: "floor_log2 d (length (block_ids b))" using small_block_depth [OF assms] .
  then have "length (tree_root cn_fast_hash (block_ids b) d) = 32"
    using block_ids_hashes32 [OF assms] by (intro tree_root_length) (simp_all add: floor_log2_def)
  with get_tx_tree_hash_root [OF assms d] that show ?thesis by (simp add: get_block_hashing_blob_def)
qed

lemma hashing_blob_binding:
  assumes "small_block b1" "small_block b2"
    and "the (get_block_hashing_blob b1) @ x = the (get_block_hashing_blob b2) @ y"
  shows "plain_header b1 = plain_header b2 \<and> x = y
    \<and> (block_ids b1 = block_ids b2 \<or> collide (id_nodes b1) (id_nodes b2))"
proof -
  let ?n = "\<lambda>b. of_nat (length (block_txs b) + 1) :: u64"
  obtain r1 where r1: "get_tx_tree_hash b1 = Some r1" "length r1 = 32"
    "get_block_hashing_blob b1 = Some (snd (write_header b1) @ r1 @ write_varint (?n b1))"
    using hashing_blob_exists [OF assms(1)] .
  obtain r2 where r2: "get_tx_tree_hash b2 = Some r2" "length r2 = 32"
    "get_block_hashing_blob b2 = Some (snd (write_header b2) @ r2 @ write_varint (?n b2))"
    using hashing_blob_exists [OF assms(2)] .
  have ok: "header_ok b1" "header_ok b2" using assms(1,2) by (simp_all only: small_block_def block_ok_def)
  have "snd (write_header b1) @ r1 @ write_varint (?n b1) @ x = snd (write_header b2) @ r2 @ write_varint (?n b2) @ y"
    using assms(3) by (simp only: r1(3) r2(3) option.sel append_assoc)
  from header_split [OF ok this]
  have h: "plain_header b1 = plain_header b2" and e: "r1 @ write_varint (?n b1) @ x = r2 @ write_varint (?n b2) @ y"
    by blast+
  have "length r1 = length r2" by (simp only: r1(2) r2(2))
  with e have r: "r1 = r2" and v: "write_varint (?n b1) @ x = write_varint (?n b2) @ y"
    using append_eq_append_conv [of r1 r2] by blast+
  from varint_split [OF v] have n: "?n b1 = ?n b2" and "x = y" by blast+
  have l: "length (block_txs b1) = length (block_txs b2)"
    using of_nat_u64_inject [OF _ _ n] assms(1,2) by (simp add: small_block_def)
  have "block_ids b1 = block_ids b2 \<or> collide (id_nodes b1) (id_nodes b2)"
    using r1(1) r2(1) r by (intro tree_hash_binding [OF assms(1,2) l]) simp
  with h \<open>x = y\<close> show ?thesis by simp
qed

text \<open>The parent block in a hashed blob holds the root of its transactions in addition to its members.\<close>

definition parent_head :: "u64 \<Rightarrow> bytecoin_block \<Rightarrow> blob" where
  "parent_head ts b = write_varint (parent_major_version b) @ write_varint (parent_minor_version b) @ write_varint ts
     @ parent_prev_id b @ write_uint 4 (parent_nonce b)"

definition parent_tail :: "bytecoin_block \<Rightarrow> blob" where
  "parent_tail b = write_varint (number_of_transactions b) @ concat (miner_tx_branch b)
     @ snd (write_transaction True (parent_miner_tx b)) @ concat (blockchain_branch b)"

lemma write_parent_parts: "parent_ok b \<Longrightarrow> snd (write_parent False False ts b) = parent_head ts b @ parent_tail b"
  by (simp add: write_parent_ok parent_head_def parent_tail_def)

lemma parent_head_split:
  assumes "parent_ok b1" "parent_ok b2" "parent_head t1 b1 @ x = parent_head t2 b2 @ y"
  shows "parent_head t1 b1 = parent_head t2 b2 \<and> x = y"
proof -
  let ?p = "\<lambda>b z. parent_prev_id b @ write_uint 4 (parent_nonce b) @ z"
  have l: "length (parent_prev_id b1) = length (parent_prev_id b2)" using assms(1,2) by (simp add: parent_ok_def)
  have e: "write_varint (parent_major_version b1) @ write_varint (parent_minor_version b1) @ write_varint t1 @ ?p b1 x
    = write_varint (parent_major_version b2) @ write_varint (parent_minor_version b2) @ write_varint t2 @ ?p b2 y"
    using assms(3) by (simp add: parent_head_def)
  from varint8_split [OF e] have a: "parent_major_version b1 = parent_major_version b2"
    and e: "write_varint (parent_minor_version b1) @ write_varint t1 @ ?p b1 x
      = write_varint (parent_minor_version b2) @ write_varint t2 @ ?p b2 y" by blast+
  from varint8_split [OF e] have b: "parent_minor_version b1 = parent_minor_version b2"
    and e: "write_varint t1 @ ?p b1 x = write_varint t2 @ ?p b2 y" by blast+
  from varint_split [OF e] have "t1 = t2" "?p b1 x = ?p b2 y" by blast+
  moreover from this(2) l have "parent_prev_id b1 = parent_prev_id b2"
    and "write_uint 4 (parent_nonce b1) @ x = write_uint 4 (parent_nonce b2) @ y" by simp_all
  moreover from uint32_field.prefix_free [OF _ _ this(2)] have "parent_nonce b1 = parent_nonce b2 \<and> x = y" by simp
  ultimately show ?thesis using a b by (simp add: parent_head_def)
qed

lemma climb_path_length:
  "length h = 32 \<Longrightarrow> k \<le> length branch \<Longrightarrow> \<exists>r. climb_path branch None k h = Some r \<and> length r = 32"
  by (induction k arbitrary: h) (simp_all add: path_bit_def cnh.hash_length)

lemma write_parent_hashing:
  assumes "parent_ok b"
  obtains root where "length root = 32" "write_parent True False ts b = (True, parent_head ts b @ root @ parent_tail b)"
proof -
  obtain h n where h: "calculate_transaction_hash True (parent_miner_tx b) = Some (h, n)" "length h = 32"
    using calculate_transaction_hash_ok [of True "parent_miner_tx b"] assms by (auto simp: parent_ok_def)
  obtain r where r: "climb_path (miner_tx_branch b) None (length (miner_tx_branch b)) h = Some r" "length r = 32"
    using climb_path_length [OF h(2)] by blast
  obtain tag where tag: "get_mm_tag_from_extra (extra (parent_miner_tx b)) = Some tag"
    "unat (mm_depth tag) = length (blockchain_branch b)" using assms by (auto simp: parent_ok_def)
  have "fst (write_transaction True (parent_miner_tx b))" using assms by (simp add: parent_ok_def write_transaction_succeeds)
  then show ?thesis using that [OF r(2)] h r tag assms
    by (simp add: parent_ok_def write_parent_def out_seq_def tree_hash_from_branch_path parent_head_def parent_tail_def)
qed

lemma parent_binding:
  assumes "parent_ok b1" "parent_ok b2" "snd (write_parent True False t1 b1) = snd (write_parent True False t2 b2)"
  shows "t1 = t2 \<and> b1 = b2"
proof -
  obtain r1 where r1: "length r1 = 32" "write_parent True False t1 b1 = (True, parent_head t1 b1 @ r1 @ parent_tail b1)"
    using write_parent_hashing [OF assms(1)] .
  obtain r2 where r2: "length r2 = 32" "write_parent True False t2 b2 = (True, parent_head t2 b2 @ r2 @ parent_tail b2)"
    using write_parent_hashing [OF assms(2)] .
  have "parent_head t1 b1 @ r1 @ parent_tail b1 = parent_head t2 b2 @ r2 @ parent_tail b2" using assms(3) r1 r2 by simp
  from parent_head_split [OF assms(1,2) this] have "parent_head t1 b1 = parent_head t2 b2" "parent_tail b1 = parent_tail b2"
    using r1(1) r2(1) by simp_all
  then show ?thesis
    using read_parent_back [OF assms(1), of t1 "[]"] read_parent_back [OF assms(2), of t2 "[]"] assms(1,2)
    by (simp add: write_parent_parts)
qed

lemma plain_header_eq:
  "plain_header b1 = plain_header b2 \<Longrightarrow> major_version b1 = major_version b2 \<and> minor_version b1 = minor_version b2
     \<and> prev_id b1 = prev_id b2 \<and> nonce b1 = nonce b2 \<and> (own_work (major_version b1) \<longrightarrow> timestamp b1 = timestamp b2)"
  by (auto simp: plain_header_def split: if_splits)

lemma block_hash_blob_parts:
  assumes "small_block b"
  shows "block_hash_blob b = Some (the (get_block_hashing_blob b)
    @ (if merge_mined (major_version b) then snd (write_parent True False (timestamp b) (parent_block b)) else []))"
proof -
  obtain r where r: "get_block_hashing_blob b = Some r" by (rule hashing_blob_exists [OF assms])
  show ?thesis
  proof (cases "merge_mined (major_version b)")
    case True
    then have "parent_ok (parent_block b)" using assms by (simp add: small_block_def block_ok_def)
    then obtain root where "write_parent True False (timestamp b) (parent_block b) =
        (True, parent_head (timestamp b) (parent_block b) @ root @ parent_tail (parent_block b))"
      by (rule write_parent_hashing)
    then have "fst (write_parent True False (timestamp b) (parent_block b))" by simp
    with True r show ?thesis by (simp add: block_hash_blob_def)
  qed (simp add: block_hash_blob_def r)
qed

lemma hashed_blob_binding:
  assumes s: "small_block b1" "small_block b2" and e: "block_hash_blob b1 = block_hash_blob b2"
    and n: "\<not> collide (id_nodes b1) (id_nodes b2)"
  shows "b2 = b1\<lparr> miner_tx := miner_tx b2 \<rparr> \<and> get_transaction_hash (miner_tx b1) = get_transaction_hash (miner_tx b2)"
proof -
  let ?p = "\<lambda>b. if merge_mined (major_version b) then snd (write_parent True False (timestamp b) (parent_block b)) else []"
  have "the (get_block_hashing_blob b1) @ ?p b1 = the (get_block_hashing_blob b2) @ ?p b2"
    using e by (simp only: block_hash_blob_parts [OF s(1)] block_hash_blob_parts [OF s(2)] option.inject)
  from hashing_blob_binding [OF s this] n
  have h: "plain_header b1 = plain_header b2" and p: "?p b1 = ?p b2" and ids: "block_ids b1 = block_ids b2" by blast+
  note v = plain_header_eq [OF h]
  have "timestamp b1 = timestamp b2 \<and> parent_block b1 = parent_block b2"
  proof (cases "merge_mined (major_version b1)")
    case True
    then have "parent_ok (parent_block b1)" "parent_ok (parent_block b2)"
      using s v by (simp_all add: small_block_def block_ok_def)
    from parent_binding [OF this] p True v show ?thesis by (simp split: if_splits)
  next
    case False
    then show ?thesis using s v by (auto simp: small_block_def block_ok_def)
  qed
  then show ?thesis using v ids by (cases b1, cases b2) (simp add: block_ids_def)
qed

text \<open>The blobs that link the merge-mining tag of the parent block to this block.\<close>

definition work_preimages :: "blob option \<Rightarrow> block \<Rightarrow> blob list" where
  "work_preimages genesis b =
     path_nodes (blockchain_branch (parent_block b)) genesis (length (blockchain_branch (parent_block b)))
       (the (get_block_header_hash b)) @ header_preimages b"

lemma header_hash_exists: "small_block b \<Longrightarrow> \<exists>h. get_block_header_hash b = Some h \<and> length h = 32"
  by (rule hashing_blob_exists, assumption) (simp add: get_block_header_hash_def get_object_hash_def cnh.hash_length)

lemma accepted_work:
  assumes "small_block b" "merge_mined (major_version b)" "check_proof_of_work sh genesis b diffic height = Some True"
  obtains tag h g where "get_mm_tag_from_extra (extra (parent_miner_tx (parent_block b))) = Some tag"
    "length (blockchain_branch (parent_block b)) = unat (mm_depth tag)" "hashes32 (blockchain_branch (parent_block b))"
    "get_block_header_hash b = Some h" "length h = 32" "genesis = Some g"
    "climb_path (blockchain_branch (parent_block b)) genesis (unat (mm_depth tag)) h = Some (mm_merkle_root tag)"
proof -
  obtain h where h: "get_block_header_hash b = Some h" "length h = 32" using header_hash_exists [OF assms(1)] by blast
  obtain tag where tag: "get_mm_tag_from_extra (extra (parent_miner_tx (parent_block b))) = Some tag"
    "unat (mm_depth tag) = length (blockchain_branch (parent_block b))" "hashes32 (blockchain_branch (parent_block b))"
    using assms(1,2) by (auto simp: small_block_def block_ok_def parent_ok_def)
  obtain g where g: "genesis = Some g"
    and "tree_hash_from_branch (blockchain_branch (parent_block b)) (length (blockchain_branch (parent_block b))) h (Some g)
      = Some (mm_merkle_root tag)"
    using assms(2,3) h(1) tag(1)
    by (auto simp: check_proof_of_work_def check_proof_of_work_v2_def Let_def Option.bind_eq_Some_conv
        split: option.splits if_splits)
  with that [OF tag(1) tag(2) [symmetric] tag(3) h g] tag(2) show ?thesis by (simp add: tree_hash_from_branch_path)
qed

lemma header_hash_binding:
  assumes "small_block b1" "small_block b2" "get_block_header_hash b1 = get_block_header_hash b2"
    and "\<not> collide (header_preimages b1) (header_preimages b2)"
  shows "plain_header b1 = plain_header b2 \<and> block_ids b1 = block_ids b2"
proof -
  obtain x1 where x1: "get_block_hashing_blob b1 = Some x1" by (rule hashing_blob_exists [OF assms(1)])
  obtain x2 where x2: "get_block_hashing_blob b2 = Some x2" by (rule hashing_blob_exists [OF assms(2)])
  have "cn_fast_hash (write_string x1) = cn_fast_hash (write_string x2)"
    using assms(3) by (simp add: get_block_header_hash_def get_object_hash_def x1 x2)
  then have "write_string x1 = write_string x2"
    using assms(4) collide_Cons [of "write_string x1" "write_string x2"] by (auto simp: header_preimages_def x1 x2)
  then have "x1 = x2" by (rule write_string_inject)
  moreover have "\<not> collide (id_nodes b1) (id_nodes b2)"
    using assms(4) unfolding header_preimages_def by (blast intro: collide_mono [OF _ set_subset_Cons set_subset_Cons])
  ultimately show ?thesis using hashing_blob_binding [OF assms(1,2), of "[]" "[]"] by (simp add: x1 x2)
qed

subsection \<open>Correctness\<close>

definition example_coinbase :: "blob \<Rightarrow> transaction" where
  "example_coinbase ex = \<lparr> version = 1, unlock_time = 60, vin = [Txin_gen 5],
     vout = [\<lparr> out_amount = 6, target = Txout_to_key (replicate 32 9) \<rparr>], extra = ex,
     signatures = [[]], rct_signatures = rct_null \<rparr>"

definition example_block :: "u8 \<Rightarrow> bytecoin_block \<Rightarrow> block" where
  "example_block v p = \<lparr> major_version = v, minor_version = 0, timestamp = (if v = 0 then 0 else 1000), prev_id = replicate 32 1,
     nonce = (if own_work v then 77 else 0), parent_block = p, miner_tx = example_coinbase [],
     block_txs = [replicate 32 3, replicate 32 4] \<rparr>"

definition header_hash :: "u8 \<Rightarrow> blob" where
  "header_hash v = the (get_block_header_hash (example_block v null_parent))"

text \<open>A parent block whose coinbase commits to the example of version 3.\<close>

definition example_extra :: blob where
  "example_extra = extra_bytes [Tx_extra_merge_mining_tag \<lparr> mm_depth = 0, mm_merkle_root = header_hash 3 \<rparr>]"

definition example_parent :: "u32 \<Rightarrow> bytecoin_block" where
  "example_parent n = \<lparr> parent_major_version = 1, parent_minor_version = 0, parent_prev_id = replicate 32 8, parent_nonce = n,
     number_of_transactions = 1, miner_tx_branch = [], parent_miner_tx = example_coinbase example_extra,
     blockchain_branch = [] \<rparr>"

lemma example_coinbase_ok: "length ex < 2 ^ 64 \<Longrightarrow> tx_ok mm (example_coinbase ex)"
  by (simp add: example_coinbase_def tx_ok_def prefix_ok_def version_accepted_def CURRENT_TRANSACTION_VERSION_def
        tx_out_ok_def get_signature_size_def)

lemma example_block_plain: "v = 0 \<or> v = 1 \<or> v = 4 \<Longrightarrow> small_block (example_block v null_parent)"
  using example_coinbase_ok [of "[]" False]
  by (auto simp: small_block_def block_ok_def header_ok_def example_block_def own_work_def merge_mined_def
        BLOCK_MAJOR_VERSION_8_def word_le_nat_alt)

lemma example_header_hash:
  "get_block_header_hash (example_block v p) = Some (header_hash v) \<and> length (header_hash v) = 32"
proof -
  obtain root where "get_tx_tree_hash (example_block 1 null_parent) = Some root"
    by (rule hashing_blob_exists [OF example_block_plain, of 1]) simp
  then have "get_tx_tree_hash (example_block w q) = Some root" for w q
    by (simp add: get_tx_tree_hash_def example_block_def)
  then have "get_block_header_hash (example_block w q) = Some (get_object_hash (snd (write_header (example_block w null_parent))
      @ root @ write_varint (3 :: u64)))" for w q
    by (simp add: get_block_header_hash_def get_block_hashing_blob_def) (simp add: example_block_def write_header_def)
  then show ?thesis by (simp add: header_hash_def get_object_hash_def cnh.hash_length)
qed

lemma example_extra_tag:
  "get_mm_tag_from_extra example_extra = Some \<lparr> mm_depth = 0, mm_merkle_root = header_hash 3 \<rparr> \<and> length example_extra < 2 ^ 64"
proof -
  have l: "length (header_hash 3) = 32" using example_header_hash by blast
  then have "parse_tx_extra example_extra = (True, [Tx_extra_merge_mining_tag \<lparr> mm_depth = 0, mm_merkle_root = header_hash 3 \<rparr>])"
    unfolding example_extra_def by (intro extra_bytes_parse) simp
  moreover have "length example_extra \<le> 100"
    using l write_varint_length [of 0] write_varint_length [of "of_nat (length (write_varint (0 :: u64) @ header_hash 3))"]
    by (simp add: example_extra_def extra_bytes_def out_seq_def write_mm_tag_def write_string_def)
  ultimately show ?thesis by (simp add: get_mm_tag_from_extra_def)
qed

lemma example_block_merge: "small_block (example_block 3 (example_parent n))"
proof -
  have "tx_ok mm (example_coinbase example_extra)" for mm by (rule example_coinbase_ok) (rule conjunct2 [OF example_extra_tag])
  moreover have "extra (example_coinbase example_extra) = example_extra" by (simp add: example_coinbase_def)
  ultimately have "parent_ok (example_parent n)"
    using example_extra_tag tree_depth_eq [of 0 1] by (auto simp: parent_ok_def example_parent_def floor_log2_def)
  then show ?thesis
    using example_coinbase_ok [of "[]" False]
    by (simp add: small_block_def block_ok_def header_ok_def example_block_def own_work_def merge_mined_def
          BLOCK_MAJOR_VERSION_8_def word_le_nat_alt)
qed

lemma example_work:
  "check_proof_of_work \<lparr> cn_slow_hash = \<lambda>_ _ _. 1 # replicate 31 0, chukwa_slow_hash_v2 = \<lambda>_. [] \<rparr> (Some (replicate 32 2))
     (example_block 3 (example_parent n)) 1 9 = Some True"
proof -
  let ?sh = "\<lparr> cn_slow_hash = \<lambda>_ _ _. 1 # replicate 31 0, chukwa_slow_hash_v2 = \<lambda>_. [] \<rparr>" and ?b = "example_block 3 (example_parent n)"
  have b: "parent_block ?b = example_parent n" "major_version ?b = 3" "timestamp ?b = 1000" by (simp_all add: example_block_def)
  have x: "extra (parent_miner_tx (example_parent n)) = example_extra" "blockchain_branch (example_parent n) = []"
    by (simp_all add: example_parent_def example_coinbase_def)
  have "tx_ok True (example_coinbase example_extra)" by (rule example_coinbase_ok) (rule conjunct2 [OF example_extra_tag])
  then have "fst (write_parent True True 1000 (example_parent n))"
    using calculate_transaction_hash_ok [of True "example_coinbase example_extra"]
    by (auto simp: write_parent_def example_parent_def out_seq_def tree_hash_from_branch_path)
  then have "get_bytecoin_block_longhash ?sh ?b = Some (1 # replicate 31 0)"
    by (simp add: get_bytecoin_block_longhash_def get_bytecoin_block_hashing_blob_def b)
  moreover have "check_hash (1 # replicate 31 0) 1" by code_simp
  ultimately show ?thesis
    using example_header_hash [of 3 "example_parent n"] example_extra_tag
    by (simp add: check_proof_of_work_def check_proof_of_work_v2_def merge_mined_def b x tree_hash_from_branch_path word_less_nat_alt)
qed

text \<open> C31: a well-formed block of any version serializes, and the parser returns the same block for
  that blob; every block the parser returns is well formed.\<close>

theorem block_round_trip:
  "(block_ok b \<longrightarrow> fst (write_block b) \<and> parse_and_validate_block_from_blob (block_to_blob b) = Some b)
   \<and> (parse_and_validate_block_from_blob data = Some b \<longrightarrow> block_ok b)"
  using block_field.parse_back [of b] block_field.parse_ok [of data b]
  by (simp add: parse_and_validate_block_from_blob_def block_to_blob_def write_block_ok)

theorem block_round_trip_witness:
  "parse_and_validate_block_from_blob (block_to_blob (example_block 4 null_parent)) = Some (example_block 4 null_parent)"
  using block_round_trip [of "example_block 4 null_parent"] example_block_plain [of 4] by (simp add: small_block_def)

text \<open> C29: the block hash commits to the block. Two well-formed blocks with fewer than \<open>2 ^ 28\<close>
  transactions have a hash of 32 bytes, and when the two hashes are equal the blocks agree in every
  member, the parent block included, except that only the hash of the miner transaction is fixed; or
  two of the blobs that were hashed for them are a collision of the hash function.\<close>

theorem block_hash_binding:
  assumes "small_block b1" "small_block b2"
  shows "(\<exists>h. get_block_hash b1 = Some h \<and> length h = 32)
    \<and> (get_block_hash b1 = get_block_hash b2 \<longrightarrow>
        b2 = b1\<lparr> miner_tx := miner_tx b2 \<rparr> \<and> get_transaction_hash (miner_tx b1) = get_transaction_hash (miner_tx b2)
        \<or> collide (block_preimages b1) (block_preimages b2))"
proof (intro conjI impI)
  show "\<exists>h. get_block_hash b1 = Some h \<and> length h = 32"
    by (simp add: get_block_hash_def get_object_hash_def block_hash_blob_parts [OF assms(1)] cnh.hash_length)
  assume "get_block_hash b1 = get_block_hash b2"
  then have e: "cn_fast_hash (write_string (the (block_hash_blob b1))) = cn_fast_hash (write_string (the (block_hash_blob b2)))"
    by (simp add: get_block_hash_def get_object_hash_def block_hash_blob_parts [OF assms(1)] block_hash_blob_parts [OF assms(2)])
  show "b2 = b1\<lparr> miner_tx := miner_tx b2 \<rparr> \<and> get_transaction_hash (miner_tx b1) = get_transaction_hash (miner_tx b2)
    \<or> collide (block_preimages b1) (block_preimages b2)"
  proof (cases "collide (block_preimages b1) (block_preimages b2)")
    case False
    then have "write_string (the (block_hash_blob b1)) = write_string (the (block_hash_blob b2))"
      using e collide_Cons [of "write_string (the (block_hash_blob b1))"] by (auto simp: block_preimages_def)
    then have "the (block_hash_blob b1) = the (block_hash_blob b2)" by (rule write_string_inject)
    then have "block_hash_blob b1 = block_hash_blob b2"
      by (simp add: block_hash_blob_parts [OF assms(1)] block_hash_blob_parts [OF assms(2)])
    moreover have "\<not> collide (id_nodes b1) (id_nodes b2)"
      using False unfolding block_preimages_def by (blast intro: collide_mono [OF _ set_subset_Cons set_subset_Cons])
    ultimately show ?thesis using hashed_blob_binding [OF assms] by blast
  qed simp
qed

theorem block_hash_binding_witness:
  "(\<exists>h. get_block_hash (example_block 3 (example_parent 1)) = Some h \<and> length h = 32)
   \<and> (example_block 3 (example_parent 1)
         = (example_block 3 (example_parent 1))\<lparr> miner_tx := miner_tx (example_block 3 (example_parent 1)) \<rparr>
      \<or> collide (block_preimages (example_block 3 (example_parent 1))) (block_preimages (example_block 3 (example_parent 1))))"
  using block_hash_binding [OF example_block_merge example_block_merge, of 1 1] by blast

text \<open> C30: the work of a parent block counts for one block only. When two merge-mined blocks are
  accepted on parent blocks whose coinbases have the same extra field, the two have the same header,
  the same miner transaction hash and the same transactions, whatever the slow hashes, the
  difficulties and the rest of the parent blocks; or two of the blobs hashed on the way are a
  collision of the hash function.\<close>

theorem work_not_reusable:
  assumes "small_block b1" "small_block b2" "merge_mined (major_version b1)" "merge_mined (major_version b2)"
    and "check_proof_of_work sh1 genesis b1 diffic1 height1 = Some True"
    and "check_proof_of_work sh2 genesis b2 diffic2 height2 = Some True"
    and "extra (parent_miner_tx (parent_block b1)) = extra (parent_miner_tx (parent_block b2))"
  shows "plain_header b1 = plain_header b2 \<and> block_ids b1 = block_ids b2
    \<or> collide (work_preimages genesis b1) (work_preimages genesis b2)"
proof (rule disjCI)
  assume n: "\<not> collide (work_preimages genesis b1) (work_preimages genesis b2)"
  let ?br = "\<lambda>b. blockchain_branch (parent_block b)"
  obtain tag h1 where tag: "get_mm_tag_from_extra (extra (parent_miner_tx (parent_block b1))) = Some tag"
    and b1: "length (?br b1) = unat (mm_depth tag)" "hashes32 (?br b1)" "get_block_header_hash b1 = Some h1" "length h1 = 32"
      "climb_path (?br b1) genesis (unat (mm_depth tag)) h1 = Some (mm_merkle_root tag)"
    by (rule accepted_work [OF assms(1,3,5)])
  obtain tag' h2 where tag': "get_mm_tag_from_extra (extra (parent_miner_tx (parent_block b2))) = Some tag'"
    and b2: "length (?br b2) = unat (mm_depth tag')" "hashes32 (?br b2)" "get_block_header_hash b2 = Some h2" "length h2 = 32"
      "climb_path (?br b2) genesis (unat (mm_depth tag')) h2 = Some (mm_merkle_root tag')"
    by (rule accepted_work [OF assms(2,4,6)])
  have t: "tag' = tag" using tag tag' assms(7) by simp
  have w: "work_preimages genesis b1 = path_nodes (?br b1) genesis (unat (mm_depth tag)) h1 @ header_preimages b1"
    "work_preimages genesis b2 = path_nodes (?br b2) genesis (unat (mm_depth tag)) h2 @ header_preimages b2"
    using b1(1,3) b2(1,3) t by (simp_all add: work_preimages_def)
  have p: "\<not> collide (path_nodes (?br b1) genesis (unat (mm_depth tag)) h1) (path_nodes (?br b2) genesis (unat (mm_depth tag)) h2)"
    and h: "\<not> collide (header_preimages b1) (header_preimages b2)"
    using n unfolding w by (auto simp: collide_def)
  from climb_binding [OF b1(5) b2(5) [unfolded t] b1(2) b2(2) b1(4) b2(4)] p have "h1 = h2" by blast
  then show "plain_header b1 = plain_header b2 \<and> block_ids b1 = block_ids b2"
    using header_hash_binding [OF assms(1,2) _ h] b1(3) b2(3) by simp
qed

theorem work_not_reusable_witness:
  "\<exists>sh. check_proof_of_work sh (Some (replicate 32 2)) (example_block 3 (example_parent 1)) 1 9 = Some True
     \<and> check_proof_of_work sh (Some (replicate 32 2)) (example_block 3 (example_parent 2)) 1 9 = Some True
     \<and> (plain_header (example_block 3 (example_parent 1)) = plain_header (example_block 3 (example_parent 2))
          \<and> block_ids (example_block 3 (example_parent 1)) = block_ids (example_block 3 (example_parent 2))
        \<or> collide (work_preimages (Some (replicate 32 2)) (example_block 3 (example_parent 1)))
            (work_preimages (Some (replicate 32 2)) (example_block 3 (example_parent 2))))"
proof -
  have m: "merge_mined (major_version (example_block 3 (example_parent n)))" for n by (simp add: example_block_def merge_mined_def)
  have e: "extra (parent_miner_tx (parent_block (example_block 3 (example_parent 1))))
      = extra (parent_miner_tx (parent_block (example_block 3 (example_parent 2))))"
    by (simp add: example_block_def example_parent_def)
  show ?thesis
    using example_work work_not_reusable [OF example_block_merge example_block_merge m m example_work example_work e] by blast
qed

end
