(* ===== verification/Chain_View.thy ===== *)
theory Chain_View
  imports Blocks
begin

text \<open>
  What \<open>cryptonote_core/blockchain.cpp\<close> reads from the main chain: the short history that nodes
  exchange and the search for the split point, the window of blocks that gives the next difficulty,
  for the main chain with its cache and for an alternative chain, and the test of a block's time
  stamp. The tables of \<open>blockchain_db/lmdb/db_lmdb.cpp\<close> are one list of rows, indexed by the height,
  since a block enters and leaves them together, and one list of transactions. \<open>None\<close> is an exception.
\<close>

subsection \<open>The database\<close>

record block_row =
  row_hash :: blob
  row_blob :: blob
  row_timestamp :: u64
  row_difficulty :: u64

record chain_db =
  block_rows :: "block_row list"
  tx_rows :: "(blob \<times> blob) list"

definition chain_height :: "chain_db \<Rightarrow> u64" where
  "chain_height db = of_nat (length (block_rows db))"

definition row_at :: "chain_db \<Rightarrow> u64 \<Rightarrow> block_row option" where
  "row_at db height = (if unat height < length (block_rows db) then Some (block_rows db ! unat height) else None)"

definition get_block_hash_from_height :: "chain_db \<Rightarrow> u64 \<Rightarrow> blob option" where
  "get_block_hash_from_height db height = map_option row_hash (row_at db height)"

definition get_block_blob_from_height :: "chain_db \<Rightarrow> u64 \<Rightarrow> blob option" where
  "get_block_blob_from_height db height = map_option row_blob (row_at db height)"

definition get_block_timestamp :: "chain_db \<Rightarrow> u64 \<Rightarrow> u64 option" where
  "get_block_timestamp db height = map_option row_timestamp (row_at db height)"

definition get_block_cumulative_difficulty :: "chain_db \<Rightarrow> u64 \<Rightarrow> u64 option" where
  "get_block_cumulative_difficulty db height = map_option row_difficulty (row_at db height)"

definition get_block_difficulty :: "chain_db \<Rightarrow> u64 \<Rightarrow> u64 option" where
  "get_block_difficulty db height =
     do { diff1 \<leftarrow> get_block_cumulative_difficulty db height;
          diff2 \<leftarrow> (if height \<noteq> 0 then get_block_cumulative_difficulty db (height - 1) else Some 0);
          Some (diff1 - diff2) }"

definition top_block_hash :: "chain_db \<Rightarrow> blob option" where
  "top_block_hash db =
     (if chain_height db \<noteq> 0 then get_block_hash_from_height db (chain_height db - 1) else Some (replicate 32 0))"

fun find_row :: "blob \<Rightarrow> block_row list \<Rightarrow> nat \<Rightarrow> nat option" where
  "find_row h [] i = None"
| "find_row h (r # rs) i = (if row_hash r = h then Some i else find_row h rs (Suc i))"

definition block_exists :: "chain_db \<Rightarrow> blob \<Rightarrow> u64 option" where
  "block_exists db h = map_option of_nat (find_row h (block_rows db) 0)"

definition get_tx_blob :: "chain_db \<Rightarrow> blob \<Rightarrow> blob option" where
  "get_tx_blob db h = map_of (tx_rows db) h"

definition get_block_id_by_height :: "chain_db \<Rightarrow> u64 \<Rightarrow> blob" where
  "get_block_id_by_height db height =
     (case get_block_hash_from_height db height of None \<Rightarrow> replicate 32 0 | Some h \<Rightarrow> h)"

definition block_difficulty :: "chain_db \<Rightarrow> u64 \<Rightarrow> u64" where
  "block_difficulty db i = (case get_block_difficulty db i of None \<Rightarrow> 0 | Some d \<Rightarrow> d)"

subsection \<open>The short history\<close>

text \<open>The loop may run forever on a 64-bit offset that wraps around; not returning is \<open>None\<close> as well.\<close>

partial_function (option) short_history_loop ::
    "chain_db \<Rightarrow> u64 \<Rightarrow> u64 \<Rightarrow> u64 \<Rightarrow> u64 \<Rightarrow> bool \<Rightarrow> (blob list \<times> bool) option" where
  "short_history_loop db sz i current_multiplier current_back_offset genesis_included =
     (if current_back_offset < sz
      then do { h \<leftarrow> get_block_hash_from_height db (sz - current_back_offset);
                (ids, g) \<leftarrow>
                  (if i < 10
                   then short_history_loop db sz (i + 1) current_multiplier (current_back_offset + 1)
                          (genesis_included \<or> sz - current_back_offset = 0)
                   else short_history_loop db sz (i + 1) (current_multiplier * 2)
                          (current_back_offset + current_multiplier * 2) (genesis_included \<or> sz - current_back_offset = 0));
                Some (h # ids, g) }
      else Some ([], genesis_included))"

definition get_short_chain_history :: "chain_db \<Rightarrow> blob list option" where
  "get_short_chain_history db =
     (let sz = chain_height db
      in if sz = 0 then Some []
         else do { (ids, genesis_included) \<leftarrow> short_history_loop db sz 0 1 1 False;
                   if \<not> genesis_included
                   then do { g \<leftarrow> get_block_hash_from_height db 0; Some (ids @ [g]) }
                   else Some ids })"

subsection \<open>What another node is missing\<close>

text \<open>The inner option is the \<open>bool\<close> result with its output parameters.\<close>

fun split_loop :: "chain_db \<Rightarrow> blob list \<Rightarrow> u64 option" where
  "split_loop db [] = None"
| "split_loop db (h # hs) = (case block_exists db h of Some height \<Rightarrow> Some height | None \<Rightarrow> split_loop db hs)"

definition find_blockchain_supplement :: "chain_db \<Rightarrow> blob list \<Rightarrow> u64 option option" where
  "find_blockchain_supplement db qblock_ids =
     (if qblock_ids = [] then Some None
      else do { gen_hash \<leftarrow> get_block_hash_from_height db 0;
                if last qblock_ids \<noteq> gen_hash then Some None
                else Some (split_loop db qblock_ids) })"

definition BLOCKS_IDS_SYNCHRONIZING_DEFAULT_COUNT :: nat where "BLOCKS_IDS_SYNCHRONIZING_DEFAULT_COUNT = 10000"
definition FIND_BLOCKCHAIN_SUPPLEMENT_MAX_SIZE :: nat where "FIND_BLOCKCHAIN_SUPPLEMENT_MAX_SIZE = 100 * 1024 * 1024"

text \<open>The first argument of the loops counts down from the largest number of entries.\<close>

fun supplement_ids :: "nat \<Rightarrow> chain_db \<Rightarrow> u64 \<Rightarrow> u64 \<Rightarrow> blob list option" where
  "supplement_ids 0 db total_height i = Some []"
| "supplement_ids (Suc n) db total_height i =
     (if i < total_height
      then do { h \<leftarrow> get_block_hash_from_height db i; hs \<leftarrow> supplement_ids n db total_height (i + 1); Some (h # hs) }
      else Some [])"

record chain_entry =
  resp_start_height :: u64
  resp_total_height :: u64
  resp_cumulative_difficulty :: u64
  m_block_ids :: "blob list"

definition find_chain_entry :: "chain_db \<Rightarrow> blob list \<Rightarrow> chain_entry option option" where
  "find_chain_entry db qblock_ids =
     do { found \<leftarrow> find_blockchain_supplement db qblock_ids;
          case found of
            None \<Rightarrow> Some None
          | Some start \<Rightarrow>
              do { ids \<leftarrow> supplement_ids BLOCKS_IDS_SYNCHRONIZING_DEFAULT_COUNT db (chain_height db) start;
                   diff \<leftarrow> get_block_cumulative_difficulty db (chain_height db - 1);
                   Some (Some \<lparr> resp_start_height = start, resp_total_height = chain_height db, resp_cumulative_difficulty = diff,
                     m_block_ids = ids \<rparr>) } }"

fun get_transactions_blobs :: "chain_db \<Rightarrow> blob list \<Rightarrow> blob list \<times> blob list" where
  "get_transactions_blobs db [] = ([], [])"
| "get_transactions_blobs db (h # hs) =
     (let (txs, missed) = get_transactions_blobs db hs
      in case get_tx_blob db h of Some tx \<Rightarrow> (tx # txs, missed) | None \<Rightarrow> (txs, h # missed))"

fun supplement_blocks :: "nat \<Rightarrow> chain_db \<Rightarrow> u64 \<Rightarrow> u64 \<Rightarrow> nat \<Rightarrow> nat \<Rightarrow> (blob \<times> blob list) list option option" where
  "supplement_blocks 0 db total_height i count sz = Some (Some [])"
| "supplement_blocks (Suc n) db total_height i count sz =
     (if i < total_height \<and> (sz < FIND_BLOCKCHAIN_SUPPLEMENT_MAX_SIZE \<or> count < 3)
      then do { b_blob \<leftarrow> get_block_blob_from_height db i;
                case parse_and_validate_block_from_blob b_blob of
                  None \<Rightarrow> Some None
                | Some b \<Rightarrow>
                    let (txs, mis) = get_transactions_blobs db (block_txs b)
                    in if mis \<noteq> [] then Some None
                       else do { rest \<leftarrow> supplement_blocks n db total_height (i + 1) (count + 1)
                                   (sz + length b_blob + sum_list (map length txs));
                                 Some (map_option (\<lambda>bs. (b_blob, txs) # bs) rest) } }
      else Some (Some []))"

definition find_full_blocks ::
    "chain_db \<Rightarrow> u64 \<Rightarrow> blob list \<Rightarrow> nat \<Rightarrow> (u64 \<times> u64 \<times> (blob \<times> blob list) list) option option" where
  "find_full_blocks db req_start_block qblock_ids max_count =
     do { start \<leftarrow> (if req_start_block > 0
                    then Some (if req_start_block \<ge> chain_height db then None else Some req_start_block)
                    else find_blockchain_supplement db qblock_ids);
          case start of
            None \<Rightarrow> Some None
          | Some start \<Rightarrow>
              do { bs \<leftarrow> supplement_blocks max_count db (chain_height db) start 0 0;
                   Some (map_option (\<lambda>bs. (chain_height db, start, bs)) bs) } }"

subsection \<open>The window of the next difficulty\<close>

definition DIFFICULTY_BLOCKS_COUNT :: nat where "DIFFICULTY_BLOCKS_COUNT = DIFFICULTY_WINDOW + 15"
definition DIFFICULTY_BLOCKS_COUNT_V3 :: nat where "DIFFICULTY_BLOCKS_COUNT_V3 = 70 + 1"
definition DIFFICULTY_BLOCKS_COUNT_V4 :: nat where "DIFFICULTY_BLOCKS_COUNT_V4 = DIFFICULTY_WINDOW_V4 + 1"

definition difficulty_blocks :: "u8 \<Rightarrow> nat" where
  "difficulty_blocks hf =
     (if 5 \<le> hf then DIFFICULTY_BLOCKS_COUNT_V4
      else if hf = 4 then DIFFICULTY_BLOCKS_COUNT_V3
      else if hf = 3 then DIFFICULTY_BLOCKS_COUNT_V2
      else DIFFICULTY_BLOCKS_COUNT)"

record difficulty_cache =
  m_timestamps :: "u64 list"
  m_difficulties :: "u64 list"
  m_timestamps_and_difficulties_height :: u64

fun read_range :: "(u64 \<Rightarrow> 'a option) \<Rightarrow> nat \<Rightarrow> nat \<Rightarrow> 'a list option" where
  "read_range f offset 0 = Some []"
| "read_range f offset (Suc n) = do { x \<leftarrow> f (of_nat offset); xs \<leftarrow> read_range f (Suc offset) n; Some (x # xs) }"

definition trim_front :: "nat \<Rightarrow> 'a list \<Rightarrow> 'a list" where
  "trim_front n xs = drop (length xs - n) xs"

definition skip_genesis :: "nat \<Rightarrow> nat" where
  "skip_genesis offset = (if offset = 0 then 1 else offset)"

definition difficulty_window :: "chain_db \<Rightarrow> u8 \<Rightarrow> difficulty_cache \<Rightarrow> difficulty_cache option" where
  "difficulty_window db hf c =
     (let height = chain_height db; n = difficulty_blocks hf
      in if m_timestamps_and_difficulties_height c \<noteq> 0 \<and> height - m_timestamps_and_difficulties_height c = 1
         then do { ts \<leftarrow> get_block_timestamp db (height - 1);
                   d \<leftarrow> get_block_cumulative_difficulty db (height - 1);
                   Some \<lparr> m_timestamps = trim_front n (m_timestamps c @ [ts]),
                     m_difficulties = trim_front n (m_difficulties c @ [d]),
                     m_timestamps_and_difficulties_height = height \<rparr> }
         else let offset = skip_genesis (unat height - min (unat height) n)
              in do { ts \<leftarrow> read_range (get_block_timestamp db) offset (unat height - offset);
                      ds \<leftarrow> read_range (get_block_cumulative_difficulty db) offset (unat height - offset);
                      Some \<lparr> m_timestamps = ts, m_difficulties = ds,
                        m_timestamps_and_difficulties_height = height \<rparr> })"

text \<open>The version \<open>hf\<close> is the one the fork object reports for the next block; the callers pass it.\<close>

definition get_difficulty_for_next_block ::
    "(u64 list \<Rightarrow> u64 list \<Rightarrow> u64 option) \<Rightarrow> chain_db \<Rightarrow> u8 \<Rightarrow> difficulty_cache \<Rightarrow> (u64 \<times> difficulty_cache) option" where
  "get_difficulty_for_next_block lwma_v4 db hf c =
     do { c \<leftarrow> difficulty_window db hf c;
          d \<leftarrow> next_difficulty lwma_v4 hf (m_timestamps c) (m_difficulties c);
          Some (d, c) }"

text \<open>
  The blocks of an alternative chain with their heights, time stamps and cumulative difficulties,
  the oldest first; \<open>height\<close> is that of the block to be added, and \<open>hf\<close> the ideal version at that
  height, which the callers pass.
\<close>

record alt_block =
  alt_height :: nat
  alt_timestamp :: u64
  alt_difficulty :: u64

definition get_next_difficulty_for_alternative_chain ::
    "(u64 list \<Rightarrow> u64 list \<Rightarrow> u64 option) \<Rightarrow> chain_db \<Rightarrow> u8 \<Rightarrow> alt_block list \<Rightarrow> nat \<Rightarrow> u64 option" where
  "get_next_difficulty_for_alternative_chain lwma_v4 db hf alt_chain height =
     (let n = difficulty_blocks hf
      in if length alt_chain < n
         then let main_chain_stop_offset = (if alt_chain \<noteq> [] then alt_height (hd alt_chain) else height);
                  main_chain_count = min (n - min n (length alt_chain)) main_chain_stop_offset;
                  main_chain_start_offset = skip_genesis (main_chain_stop_offset - main_chain_count)
              in do { ts \<leftarrow> read_range (get_block_timestamp db) main_chain_start_offset
                            (main_chain_stop_offset - main_chain_start_offset);
                      ds \<leftarrow> read_range (get_block_cumulative_difficulty db) main_chain_start_offset
                            (main_chain_stop_offset - main_chain_start_offset);
                      if \<not> length alt_chain + length ts \<le> n then Some 0
                      else next_difficulty lwma_v4 hf (ts @ map alt_timestamp alt_chain) (ds @ map alt_difficulty alt_chain) }
         else let recent = drop (length alt_chain - n) alt_chain
              in next_difficulty lwma_v4 hf (map alt_timestamp recent) (map alt_difficulty recent))"

subsection \<open>Time stamps\<close>

definition CRYPTONOTE_BLOCK_FUTURE_TIME_LIMIT :: u64 where "CRYPTONOTE_BLOCK_FUTURE_TIME_LIMIT = 500"
definition BLOCKCHAIN_TIMESTAMP_CHECK_WINDOW :: nat where "BLOCKCHAIN_TIMESTAMP_CHECK_WINDOW = 60"
definition BLOCKCHAIN_TIMESTAMP_CHECK_WINDOW_V2 :: nat where "BLOCKCHAIN_TIMESTAMP_CHECK_WINDOW_V2 = 11"

definition timestamp_window :: "u8 \<Rightarrow> nat" where
  "timestamp_window hf = (if hf < 5 then BLOCKCHAIN_TIMESTAMP_CHECK_WINDOW else BLOCKCHAIN_TIMESTAMP_CHECK_WINDOW_V2)"

text \<open>\<open>median\<close> sorts the vector in place, so \<open>back()\<close> is the last element of the sorted one.\<close>

definition check_timestamps :: "u8 \<Rightarrow> u64 list \<Rightarrow> u64 \<Rightarrow> bool option" where
  "check_timestamps hf timestamps ts =
     (let median_ts = median timestamps; timestamps = sort timestamps
      in if timestamps = [] then None
         else if 5 \<le> hf \<and> ts < last timestamps - CRYPTONOTE_BLOCK_FUTURE_TIME_LIMIT then Some False
         else if ts < median_ts then Some False
         else Some True)"

definition check_block_timestamp :: "chain_db \<Rightarrow> u8 \<Rightarrow> u64 \<Rightarrow> u64 \<Rightarrow> bool option" where
  "check_block_timestamp db hf now ts =
     (if now + CRYPTONOTE_BLOCK_FUTURE_TIME_LIMIT < ts then Some False
      else if unat (chain_height db) < timestamp_window hf then Some True
      else do { timestamps \<leftarrow> read_range (get_block_timestamp db) (unat (chain_height db) - timestamp_window hf)
                  (timestamp_window hf);
                check_timestamps hf timestamps ts })"

definition complete_timestamps_vector :: "chain_db \<Rightarrow> u8 \<Rightarrow> nat \<Rightarrow> u64 list \<Rightarrow> (bool \<times> u64 list) option" where
  "complete_timestamps_vector db hf start_top_height timestamps =
     (if timestamp_window hf \<le> length timestamps then Some (True, timestamps)
      else let need_elements = timestamp_window hf - length timestamps
           in if \<not> start_top_height < unat (chain_height db) then Some (False, timestamps)
              else let stop_offset = (if need_elements < start_top_height then start_top_height - need_elements else 0)
                   in do { ts \<leftarrow> read_range (get_block_timestamp db) (Suc stop_offset) (start_top_height - stop_offset);
                           Some (True, timestamps @ rev ts) })"

subsection \<open>Rows by height\<close>

abbreviation rows_len :: "chain_db \<Rightarrow> nat" where
  "rows_len db \<equiv> length (block_rows db)"

abbreviation hash_at :: "chain_db \<Rightarrow> nat \<Rightarrow> blob" where
  "hash_at db h \<equiv> row_hash (block_rows db ! h)"

lemma row_at_nat: "h < rows_len db \<Longrightarrow> rows_len db < 2 ^ 64 \<Longrightarrow> row_at db (of_nat h) = Some (block_rows db ! h)"
  by (simp add: row_at_def unat_of_nat_u64)

lemma hash_from_height: "h < rows_len db \<Longrightarrow> rows_len db < 2 ^ 64 \<Longrightarrow> get_block_hash_from_height db (of_nat h) = Some (hash_at db h)"
  by (simp add: get_block_hash_from_height_def row_at_nat)

lemma chain_height_unat: "rows_len db < 2 ^ 64 \<Longrightarrow> unat (chain_height db) = rows_len db"
  by (simp add: chain_height_def unat_of_nat_u64)

lemma read_range_rows:
  assumes "offset + n \<le> rows_len db" "rows_len db < 2 ^ 64"
  shows "read_range (\<lambda>h. map_option f (row_at db h)) offset n = Some (map f (take n (drop offset (block_rows db))))"
  using assms
proof (induction n arbitrary: offset)
  case (Suc n)
  then have "drop offset (block_rows db) = block_rows db ! offset # drop (Suc offset) (block_rows db)"
    by (simp add: Cons_nth_drop_Suc)
  with Suc.IH [of "Suc offset"] Suc.prems row_at_nat [of offset db] show ?case by simp
qed simp

lemma supplement_ids_rows:
  assumes "s \<le> rows_len db" "rows_len db < 2 ^ 64"
  shows "supplement_ids n db (chain_height db) (of_nat s) = Some (map row_hash (take n (drop s (block_rows db))))"
  using assms
proof (induction n arbitrary: s)
  case (Suc n)
  have lt: "(of_nat s < chain_height db) = (s < rows_len db)"
    using Suc.prems by (simp add: chain_height_def word_less_nat_alt unat_of_nat_u64)
  show ?case
  proof (cases "s < rows_len db")
    case True
    then have "drop s (block_rows db) = block_rows db ! s # drop (Suc s) (block_rows db)" by (simp add: Cons_nth_drop_Suc)
    with Suc.IH [of "Suc s"] True Suc.prems(2) lt hash_from_height [OF True] show ?thesis
      by (simp add: add.commute)
  next
    case False
    then show ?thesis using lt by simp
  qed
qed simp

lemma find_row_distinct:
  assumes "distinct (map row_hash rs)" "k < length rs"
  shows "find_row (row_hash (rs ! k)) rs i = Some (i + k)"
  using assms
proof (induction rs arbitrary: k i)
  case (Cons r rs)
  then show ?case by (cases k) auto
qed simp

lemma find_row_none: "h \<notin> set (map row_hash rs) \<Longrightarrow> find_row h rs i = None"
  by (induction rs arbitrary: i) auto

lemma split_loop_skip:
  "\<forall>x \<in> set xs. block_exists db x = None \<Longrightarrow> split_loop db (xs @ ys) = split_loop db ys"
  by (induction xs) auto

subsection \<open>The back offsets of the short history\<close>

definition history_offset :: "nat \<Rightarrow> nat" where
  "history_offset i = (if i \<le> 10 then i + 1 else 9 + 2 ^ (i - 9))"

definition history_multiplier :: "nat \<Rightarrow> nat" where
  "history_multiplier i = (if i \<le> 10 then 1 else 2 ^ (i - 10))"

lemma history_next:
  "i < 10 \<Longrightarrow> history_offset (Suc i) = history_offset i + 1 \<and> history_multiplier (Suc i) = history_multiplier i"
  "10 \<le> i \<Longrightarrow> history_multiplier (Suc i) = 2 * history_multiplier i
     \<and> history_offset (Suc i) = history_offset i + 2 * history_multiplier i \<and> history_offset (Suc i) = 2 * history_offset i - 9"
proof -
  show "i < 10 \<Longrightarrow> history_offset (Suc i) = history_offset i + 1 \<and> history_multiplier (Suc i) = history_multiplier i"
    by (simp add: history_offset_def history_multiplier_def)
  assume i: "10 \<le> i"
  then obtain k where k: "i = k + 10" using le_Suc_ex by (metis add.commute)
  show "history_multiplier (Suc i) = 2 * history_multiplier i
     \<and> history_offset (Suc i) = history_offset i + 2 * history_multiplier i \<and> history_offset (Suc i) = 2 * history_offset i - 9"
    by (cases k) (simp_all add: k history_offset_def history_multiplier_def power_add)
qed

lemma history_offset_Suc: "history_offset i < history_offset (Suc i) \<and> history_offset (Suc i) \<le> 2 * history_offset i"
proof (cases "i < 10")
  case True
  then show ?thesis by (simp add: history_next history_offset_def)
next
  case False
  then have n: "history_offset (Suc i) = history_offset i + 2 * history_multiplier i"
    "history_offset (Suc i) = 2 * history_offset i - 9" using history_next(2) [of i] by simp_all
  have "0 < history_multiplier i" by (simp add: history_multiplier_def)
  then show ?thesis using n by linarith
qed

lemma history_offset_gt: "i < history_offset i"
  by (induction i) (simp add: history_offset_def, meson history_offset_Suc less_trans_Suc)

lemma history_offset_reach: "\<exists>n. (\<forall>i < n. history_offset i < m) \<and> m \<le> history_offset n"
proof -
  have ex: "\<exists>n. m \<le> history_offset n" using history_offset_gt less_imp_le by blast
  show ?thesis
    by (intro exI [of _ "LEAST n. m \<le> history_offset n"]) (use not_less_Least LeastI_ex [OF ex] in \<open>force simp: not_le\<close>)
qed

lemma history_length:
  assumes "\<forall>i < n. history_offset i < m" "0 < m"
  shows "2 ^ n \<le> 2 ^ 10 * m"
proof (cases "n \<le> 10")
  case True
  then have "(2 :: nat) ^ n \<le> 2 ^ 10" by (rule power_increasing) simp
  also have "(2 :: nat) ^ 10 \<le> 2 ^ 10 * m" using assms(2) by simp
  finally show ?thesis .
next
  case False
  then obtain k where k: "n = k + 11" using le_Suc_ex [of 11 n] by (auto simp: add.commute)
  then have "history_offset (k + 10) < m" using assms(1) by simp
  then have "2 ^ (k + 1) < m" by (cases k) (simp_all add: history_offset_def)
  then show ?thesis by (simp add: k power_add)
qed

lemma short_history_loop_offsets:
  assumes len: "rows_len db = len" "len \<le> 2 ^ 63" and n: "\<forall>j < n. history_offset j < len" "len \<le> history_offset n"
    and small: "history_offset n < 2 ^ 64" and i: "i \<le> n"
  shows "short_history_loop db (of_nat len) (of_nat i) (of_nat (history_multiplier i)) (of_nat (history_offset i)) False
    = Some (map (\<lambda>j. hash_at db (len - history_offset j)) [i..<n], False)"
  using i
proof (induction "n - i" arbitrary: i)
  case 0
  then have "i = n" by simp
  moreover have "\<not> (of_nat (history_offset n) :: u64) < of_nat len"
    using n(2) small len by (simp add: word_less_nat_alt unat_of_nat_u64)
  ultimately show ?case by (subst short_history_loop.simps) simp
next
  case (Suc k)
  then have i: "i < n" by simp
  then have o: "history_offset i < len" using n(1) by simp
  have lt: "(of_nat (history_offset i) :: u64) < of_nat len"
    using o len by (simp add: word_less_nat_alt unat_of_nat_u64)
  have diff: "(of_nat len :: u64) - of_nat (history_offset i) = of_nat (len - history_offset i)" using o by (simp add: of_nat_diff)
  have nz: "(of_nat (len - history_offset i) :: u64) \<noteq> 0"
  proof
    assume "(of_nat (len - history_offset i) :: u64) = 0"
    then have "(of_nat (len - history_offset i) :: u64) = of_nat 0" by simp
    moreover have "len - history_offset i < 2 ^ 64" using len(2) by simp
    ultimately have "len - history_offset i = 0" using of_nat_u64_inject by (metis zero_less_power zero_less_numeral)
    with o show False by simp
  qed
  have h: "get_block_hash_from_height db (of_nat (len - history_offset i)) = Some (hash_at db (len - history_offset i))"
    using o len history_offset_gt [of i] by (intro hash_from_height) simp_all
  have i10: "((of_nat i :: u64) < 10) = (i < 10)"
    using history_offset_gt [of i] o len by (simp add: word_less_nat_alt unat_of_nat_u64)
  have IH: "short_history_loop db (of_nat len) (of_nat (Suc i)) (of_nat (history_multiplier (Suc i))) (of_nat (history_offset (Suc i))) False
    = Some (map (\<lambda>j. hash_at db (len - history_offset j)) [Suc i..<n], False)"
    using Suc.hyps(2) i by (intro Suc.hyps(1)) simp_all
  have "short_history_loop db (of_nat len) (of_nat i) (of_nat (history_multiplier i)) (of_nat (history_offset i)) False
    = map_option (\<lambda>(ids, g). (hash_at db (len - history_offset i) # ids, g))
        (short_history_loop db (of_nat len) (of_nat (Suc i)) (of_nat (history_multiplier (Suc i))) (of_nat (history_offset (Suc i))) False)"
  proof (cases "i < 10")
    case True
    then show ?thesis using lt diff nz h i10 history_next(1) [OF True]
      by (subst short_history_loop.simps) (simp add: map_option_case add.commute split: option.split)
  next
    case False
    then show ?thesis using lt diff nz h i10 history_next(2) [of i]
      by (subst short_history_loop.simps) (simp add: map_option_case mult.commute add.commute split: option.split)
  qed
  then show ?case using IH upt_conv_Cons [OF i] by simp
qed

lemma short_history:
  assumes "0 < rows_len db" "rows_len db \<le> 2 ^ 63"
    and n: "\<forall>i < n. history_offset i < rows_len db" "rows_len db \<le> history_offset n"
  shows "get_short_chain_history db =
    Some (map (\<lambda>i. hash_at db (rows_len db - history_offset i)) [0..<n] @ [hash_at db 0])"
proof -
  have small: "history_offset n < 2 ^ 64"
  proof (cases n)
    case 0
    then show ?thesis by (simp add: history_offset_def)
  next
    case (Suc m)
    then have "history_offset m < 2 ^ 63" using n(1) assms(2) by auto
    then show ?thesis using history_offset_Suc [of m] Suc by simp
  qed
  have one: "history_offset 0 = 1" "history_multiplier 0 = 1" by (simp_all add: history_offset_def history_multiplier_def)
  have z: "(of_nat (rows_len db) :: u64) \<noteq> 0"
    using of_nat_u64_inject [of "rows_len db" 0] assms(1,2) by auto
  have g: "get_block_hash_from_height db 0 = Some (hash_at db 0)"
    using hash_from_height [of 0 db] assms(1,2) by simp
  show ?thesis
    using short_history_loop_offsets [OF refl assms(2) n small, of 0] z g
    by (simp add: one get_short_chain_history_def chain_height_def Let_def)
qed

lemma history_offset_bound:
  assumes "\<forall>j < i. history_offset j \<le> d"
  shows "history_offset i \<le> max (d + 1) (2 * d)"
proof (cases i)
  case 0
  then show ?thesis by (simp add: history_offset_def)
next
  case (Suc j)
  then have "history_offset j \<le> d" using assms by simp
  then show ?thesis using history_offset_Suc [of j] Suc by (simp add: le_max_iff_disj)
qed

text \<open>The chains \<open>a\<close> and \<open>b\<close> agree on the first \<open>p\<close> blocks, and \<open>b\<close> has none of the later blocks of \<open>a\<close>.\<close>

definition chains_split :: "chain_db \<Rightarrow> chain_db \<Rightarrow> nat \<Rightarrow> bool" where
  "chains_split a b p \<longleftrightarrow> 0 < p \<and> p \<le> rows_len a \<and> p \<le> rows_len b
     \<and> (\<forall>h < p. hash_at a h = hash_at b h) \<and> distinct (map row_hash (block_rows b))
     \<and> (\<forall>h. p \<le> h \<and> h < rows_len a \<longrightarrow> hash_at a h \<notin> set (map row_hash (block_rows b)))"

lemma block_exists_common:
  assumes "chains_split a b p" "h < p"
  shows "block_exists b (hash_at a h) = Some (of_nat h)"
proof -
  have "h < rows_len b" "hash_at a h = hash_at b h" "distinct (map row_hash (block_rows b))"
    using assms by (auto simp: chains_split_def)
  then show ?thesis using find_row_distinct [of "block_rows b" h 0] by (simp add: block_exists_def)
qed

lemma block_exists_private:
  "chains_split a b p \<Longrightarrow> p \<le> h \<Longrightarrow> h < rows_len a \<Longrightarrow> block_exists b (hash_at a h) = None"
  by (simp add: chains_split_def block_exists_def find_row_none)

lemma split_loop_history:
  assumes s: "chains_split a b p" and n: "\<forall>i < n. history_offset i < rows_len a"
  obtains start where "split_loop b (map (\<lambda>i. hash_at a (rows_len a - history_offset i)) [0..<n] @ [hash_at a 0]) = Some (of_nat start)"
    "start < p" "start = 0 \<or> rows_len a - start \<le> max (rows_len a - p + 1) (2 * (rows_len a - p))"
proof -
  let ?h = "\<lambda>i. hash_at a (rows_len a - history_offset i)" and ?d = "rows_len a - p"
  have p: "0 < p" "p \<le> rows_len a" using s by (simp_all add: chains_split_def)
  have skip: "block_exists b (?h i) = None" if "history_offset i \<le> ?d" for i
    using that p history_offset_gt [of i] by (intro block_exists_private [OF s]) linarith+
  show ?thesis
  proof (cases "\<exists>i < n. ?d < history_offset i")
    case False
    have "block_exists b (?h i) = None" if "i < n" for i using False that by (intro skip) (meson not_less)
    then have "split_loop b (map ?h [0..<n] @ [hash_at a 0]) = split_loop b [hash_at a 0]"
      by (intro split_loop_skip) simp
    with that [of 0] p block_exists_common [OF s p(1)] show ?thesis by simp
  next
    case True
    define i where "i = (LEAST i. ?d < history_offset i)"
    have d: "?d < history_offset i" using True LeastI_ex [of "\<lambda>i. ?d < history_offset i"] by (auto simp: i_def)
    have before: "\<forall>j < i. history_offset j \<le> ?d"
      using not_less_Least [of _ "\<lambda>i. ?d < history_offset i"] unfolding i_def not_less by blast
    have "i < n" using True before by (meson leD le_less_trans not_le_imp_less)
    then have o: "history_offset i < rows_len a" using n by simp
    have "[0..<n] = [0..<i] @ i # [Suc i..<n]"
      using \<open>i < n\<close> upt_add_eq_append [of 0 i "n - i"] by (simp add: upt_conv_Cons)
    then have "split_loop b (map ?h [0..<n] @ [hash_at a 0]) = split_loop b (?h i # map ?h [Suc i..<n] @ [hash_at a 0])"
      using before skip split_loop_skip [of "map ?h [0..<i]" b] by simp
    also have "\<dots> = Some (of_nat (rows_len a - history_offset i))"
      using block_exists_common [OF s, of "rows_len a - history_offset i"] d o p by simp
    finally show ?thesis
      using that [of "rows_len a - history_offset i"] history_offset_bound [OF before] d o p by simp
  qed
qed

subsection \<open>The window of the difficulty\<close>

definition window :: "nat \<Rightarrow> 'a list \<Rightarrow> 'a list" where
  "window n xs = drop (max 1 (length xs - n)) xs"

definition fresh_window :: "chain_db \<Rightarrow> nat \<Rightarrow> difficulty_cache" where
  "fresh_window db n = \<lparr> m_timestamps = map row_timestamp (window n (block_rows db)),
     m_difficulties = map row_difficulty (window n (block_rows db)), m_timestamps_and_difficulties_height = chain_height db \<rparr>"

definition empty_cache :: difficulty_cache where
  "empty_cache = \<lparr> m_timestamps = [], m_difficulties = [], m_timestamps_and_difficulties_height = 0 \<rparr>"

text \<open>The cache holds the window of the chain as it was at the stored height.\<close>

definition cache_ok :: "chain_db \<Rightarrow> nat \<Rightarrow> difficulty_cache \<Rightarrow> bool" where
  "cache_ok db n c \<longleftrightarrow> m_timestamps_and_difficulties_height c = 0
     \<or> (let k = unat (m_timestamps_and_difficulties_height c)
        in k \<le> rows_len db \<and> m_timestamps c = map row_timestamp (window n (take k (block_rows db)))
           \<and> m_difficulties c = map row_difficulty (window n (take k (block_rows db))))"

lemma window_extend:
  assumes "xs \<noteq> []" "n' \<le> n"
  shows "trim_front n' (window n xs @ [x]) = window n' (xs @ [x])"
proof -
  let ?m = "max 1 (length xs - n)"
  have m: "?m \<le> length xs" using assms(1) by (cases xs) auto
  then have w: "window n xs @ [x] = drop ?m (xs @ [x])" by (simp add: window_def)
  have d: "trim_front n' (drop k ys) = drop (length ys - k - n' + k) ys" for k and ys :: "'a list" by (simp add: trim_front_def)
  have "length (xs @ [x]) - ?m - n' + ?m = max 1 (length (xs @ [x]) - n')" using m assms by (auto simp: max_def)
  then show ?thesis unfolding w unfolding d unfolding window_def by (simp only:)
qed

lemma read_range_window:
  assumes "rows_len db < 2 ^ 64"
  shows "read_range (\<lambda>h. map_option f (row_at db h)) (skip_genesis (rows_len db - n)) (rows_len db - skip_genesis (rows_len db - n))
    = Some (map f (window n (block_rows db)))"
proof (cases "rows_len db = 0")
  case False
  then have "skip_genesis (rows_len db - n) \<le> rows_len db" "skip_genesis (rows_len db - n) = max 1 (rows_len db - n)"
    by (auto simp: skip_genesis_def Suc_le_eq)
  then show ?thesis
    using read_range_rows [of "max 1 (rows_len db - n)" "rows_len db - max 1 (rows_len db - n)" db f] assms by (simp add: window_def)
qed (simp add: skip_genesis_def window_def)

lemma difficulty_window_fresh:
  assumes "rows_len db < 2 ^ 64"
    and "m_timestamps_and_difficulties_height c = 0 \<or> chain_height db - m_timestamps_and_difficulties_height c \<noteq> 1"
  shows "difficulty_window db hf c = Some (fresh_window db (difficulty_blocks hf))"
proof -
  have "unat (chain_height db) - min (unat (chain_height db)) n = rows_len db - n" for n
    using chain_height_unat [OF assms(1)] by auto
  moreover have "\<not> (m_timestamps_and_difficulties_height c \<noteq> 0 \<and> chain_height db - m_timestamps_and_difficulties_height c = 1)"
    using assms(2) by blast
  ultimately show ?thesis
    using chain_height_unat [OF assms(1)] read_range_window [OF assms(1), of row_timestamp] read_range_window [OF assms(1), of row_difficulty]
    unfolding difficulty_window_def Let_def
    by (simp only: if_False get_block_timestamp_def [abs_def] get_block_cumulative_difficulty_def [abs_def] fresh_window_def) simp
qed

lemma difficulty_window_hit:
  assumes "m_timestamps_and_difficulties_height c \<noteq> 0" "chain_height db - m_timestamps_and_difficulties_height c = 1"
    and "row_at db (chain_height db - 1) = Some r"
  shows "difficulty_window db hf c = Some \<lparr>
    m_timestamps = trim_front (difficulty_blocks hf) (m_timestamps c @ [row_timestamp r]),
    m_difficulties = trim_front (difficulty_blocks hf) (m_difficulties c @ [row_difficulty r]),
    m_timestamps_and_difficulties_height = chain_height db \<rparr>"
  unfolding difficulty_window_def Let_def get_block_timestamp_def get_block_cumulative_difficulty_def assms(2,3)
  using assms(1) by simp

lemma cache_height:
  assumes "rows_len db < 2 ^ 64" "unat m \<le> rows_len db" "m \<noteq> 0" "chain_height db - m = 1"
  shows "rows_len db = Suc (unat m)"
proof -
  have "chain_height db = m + 1" using assms(4) by (simp add: diff_eq_eq add.commute)
  then have "rows_len db = (unat m + 1) mod 2 ^ 64"
    using chain_height_unat [OF assms(1)] by (simp add: unat_word_ariths)
  moreover have "unat m < 2 ^ 64" using unat_less_u64 [of m] by simp
  moreover have "unat m \<noteq> 0" using assms(3) by (simp add: unat_eq_zero)
  ultimately show ?thesis using assms(2) by (cases "unat m + 1 = 2 ^ 64") simp_all
qed

lemma difficulty_window_cached:
  assumes "rows_len db < 2 ^ 64" "cache_ok db n c"
    and h: "m_timestamps_and_difficulties_height c \<noteq> 0" "chain_height db - m_timestamps_and_difficulties_height c = 1"
  obtains k where "rows_len db = Suc k" "0 < k"
    "difficulty_window db hf c = Some \<lparr>
       m_timestamps = trim_front (difficulty_blocks hf) (map row_timestamp (window n (take k (block_rows db)) @ [block_rows db ! k])),
       m_difficulties = trim_front (difficulty_blocks hf) (map row_difficulty (window n (take k (block_rows db)) @ [block_rows db ! k])),
       m_timestamps_and_difficulties_height = chain_height db \<rparr>"
proof -
  let ?k = "unat (m_timestamps_and_difficulties_height c)"
  have k: "?k \<le> rows_len db" "m_timestamps c = map row_timestamp (window n (take ?k (block_rows db)))"
    "m_difficulties c = map row_difficulty (window n (take ?k (block_rows db)))"
    using assms(2) h(1) unfolding cache_ok_def Let_def by blast+
  have len: "rows_len db = Suc ?k" by (rule cache_height [OF assms(1) k(1) h])
  have pos: "0 < ?k" using h(1) by (simp only: unat_gt_0 simp_thms)
  have "unat (chain_height db - 1) = ?k"
    using len h(2) by (metis add_diff_cancel_left' diff_add_cancel diff_diff_eq2 diff_eq_eq)
  then have "row_at db (chain_height db - 1) = Some (block_rows db ! ?k)"
    unfolding row_at_def using len by simp
  note w = difficulty_window_hit [OF h this, of hf, unfolded k(2,3)]
  show ?thesis by (rule that [OF len pos]) (simp only: w map_append list.map)
qed

lemma cached_is_fresh:
  assumes "rows_len db < 2 ^ 64" "cache_ok db n c" "difficulty_blocks hf \<le> n"
  shows "difficulty_window db hf c = Some (fresh_window db (difficulty_blocks hf))"
proof (cases "m_timestamps_and_difficulties_height c = 0 \<or> chain_height db - m_timestamps_and_difficulties_height c \<noteq> 1")
  case True
  then show ?thesis by (rule difficulty_window_fresh [OF assms(1)])
next
  case False
  then obtain k where k: "rows_len db = Suc k" "0 < k"
    "difficulty_window db hf c = Some \<lparr>
       m_timestamps = trim_front (difficulty_blocks hf) (map row_timestamp (window n (take k (block_rows db)) @ [block_rows db ! k])),
       m_difficulties = trim_front (difficulty_blocks hf) (map row_difficulty (window n (take k (block_rows db)) @ [block_rows db ! k])),
       m_timestamps_and_difficulties_height = chain_height db \<rparr>"
    using difficulty_window_cached [OF assms(1,2)] by blast
  have t: "trim_front m (map f xs) = map f (trim_front m xs)" for m and f :: "block_row \<Rightarrow> u64" and xs
    by (simp add: trim_front_def drop_map)
  have "take k (block_rows db) @ [block_rows db ! k] = block_rows db" using k(1) take_Suc_conv_app_nth [of k "block_rows db"] by simp
  moreover have "take k (block_rows db) \<noteq> []" using k(1,2) by auto
  ultimately show ?thesis unfolding k(3) t using window_extend [OF _ assms(3), of "take k (block_rows db)"] by (simp add: fresh_window_def)
qed

lemma fresh_window_ok:
  assumes "rows_len db < 2 ^ 64"
  shows "cache_ok (db\<lparr> block_rows := block_rows db @ new \<rparr>) n (fresh_window db n)"
  using chain_height_unat [OF assms] by (simp add: cache_ok_def fresh_window_def Let_def)

text \<open>The blocks \<open>new\<close> as an alternative chain on top of the first \<open>split\<close> blocks.\<close>

definition alt_blocks :: "nat \<Rightarrow> block_row list \<Rightarrow> alt_block list" where
  "alt_blocks split new = map (\<lambda>i. \<lparr> alt_height = split + i, alt_timestamp = row_timestamp (new ! i),
     alt_difficulty = row_difficulty (new ! i) \<rparr>) [0..<length new]"

lemma alt_blocks_maps:
  "length (alt_blocks split new) = length new" "map alt_timestamp (alt_blocks split new) = map row_timestamp new"
  "map alt_difficulty (alt_blocks split new) = map row_difficulty new" "alt_blocks split new = [] \<longleftrightarrow> new = []"
  "new \<noteq> [] \<Longrightarrow> alt_height (hd (alt_blocks split new)) = split"
  by (auto simp: alt_blocks_def hd_map intro: nth_equalityI)

lemma sorted_le_last: "sorted xs \<Longrightarrow> (x :: 'a :: linorder) \<in> set xs \<Longrightarrow> x \<le> last xs"
  by (induction xs) (auto simp: Ball_def)

lemma sort_Nil: "sort xs = [] \<longleftrightarrow> xs = []"
  by (metis length_0_conv length_sort)

lemma last_sort: "xs \<noteq> [] \<Longrightarrow> last (sort xs) = Max (set xs)"
  using sorted_le_last [OF sorted_sort, of _ xs] last_in_set [of "sort xs"]
  by (intro Max_eqI [symmetric]) (auto simp: sort_Nil)

subsection \<open>Correctness\<close>

definition example_row :: "u8 \<Rightarrow> block_row" where
  "example_row k = \<lparr> row_hash = replicate 32 k, row_blob = [], row_timestamp = ucast k * 120, row_difficulty = ucast k * 1000 \<rparr>"

definition example_db :: "u8 list \<Rightarrow> chain_db" where
  "example_db ks = \<lparr> block_rows = map example_row ks, tx_rows = [] \<rparr>"

lemma example_len: "rows_len (example_db (replicate m k)) = m"
  by (simp add: example_db_def)

lemma example_cache:
  "m < 2 ^ 64 \<Longrightarrow> cache_ok (example_db (replicate (Suc m) k)) n (fresh_window (example_db (replicate m k)) n)"
proof -
  assume m: "m < 2 ^ 64"
  have "take m (block_rows (example_db (replicate (Suc m) k))) = block_rows (example_db (replicate m k))"
    by (simp only: example_db_def chain_db.simps map_replicate take_replicate min_def) simp
  then show ?thesis using chain_height_unat [of "example_db (replicate m k)"] m
    by (simp add: cache_ok_def fresh_window_def Let_def example_len del: replicate_Suc)
qed

lemma example_row_hash: "row_hash (example_row k) = row_hash (example_row l) \<longleftrightarrow> k = l"
  by (simp add: example_row_def)

lemma example_split: "chains_split (example_db [1, 2, 3]) (example_db [1, 2, 7, 8, 9]) 2"
proof -
  have "h = 2" if "2 \<le> h" "h < 3" for h :: nat using that by simp
  then show ?thesis by (auto simp: chains_split_def example_db_def example_row_hash less_2_cases_iff)
qed

text \<open> C32: the loop of the short history returns for every chain of up to \<open>2 ^ 63\<close> blocks. The
  list has the blocks at the back offsets 1 to 11, 13, 17, 25 and so on that are less than the
  height, and ends with the genesis block; its length is logarithmic in the height.\<close>

theorem short_history_terminates:
  assumes "0 < rows_len db" "rows_len db \<le> 2 ^ 63"
  shows "\<exists>n. get_short_chain_history db =
      Some (map (\<lambda>i. hash_at db (rows_len db - history_offset i)) [0..<n] @ [hash_at db 0])
    \<and> (\<forall>i < n. history_offset i < rows_len db) \<and> rows_len db \<le> history_offset n \<and> 2 ^ n \<le> 2 ^ 10 * rows_len db"
proof -
  obtain n where n: "\<forall>i < n. history_offset i < rows_len db" "rows_len db \<le> history_offset n"
    using history_offset_reach by blast
  then show ?thesis using short_history [OF assms n] history_length [OF n(1) assms(1)] by blast
qed

theorem short_history_terminates_witness:
  "get_short_chain_history (example_db [1, 2, 3]) = Some [replicate 32 3, replicate 32 2, replicate 32 1]"
proof -
  have l: "rows_len (example_db [1, 2, 3]) = 3" by (simp add: example_db_def)
  obtain n where n: "get_short_chain_history (example_db [1, 2, 3]) =
      Some (map (\<lambda>i. hash_at (example_db [1, 2, 3]) (3 - history_offset i)) [0..<n] @ [hash_at (example_db [1, 2, 3]) 0])"
    "\<forall>i < n. history_offset i < 3" "3 \<le> history_offset n"
    using short_history_terminates [of "example_db [1, 2, 3]"] unfolding l by auto
  have "\<not> 2 < n" using n(2) by (auto simp: history_offset_def)
  moreover have "n \<noteq> 0" using n(3) by (cases "n = 0") (simp_all add: history_offset_def)
  moreover have "n \<noteq> 1" using n(3) by (cases "n = 1") (simp_all add: history_offset_def)
  ultimately have "n = 2" by simp
  with n(1) show ?thesis by (simp add: example_db_def example_row_def history_offset_def upt_rec)
qed

text \<open> C33: synchronization finds a common block. When the chains of two nodes agree up to a
  split point, the short history of one leads the other to a common block, from which on it answers
  with the hashes of up to 10000 of its own blocks. The common block is the genesis block, or at most
  twice as deep below the top as the split.\<close>

theorem sync_finds_common_block:
  assumes "chains_split a b p" "rows_len a \<le> 2 ^ 63" "rows_len b < 2 ^ 64"
  shows "\<exists>ids start e. get_short_chain_history a = Some ids \<and> find_chain_entry b ids = Some (Some e)
    \<and> resp_start_height e = of_nat start \<and> start < p
    \<and> (start = 0 \<or> rows_len a - start \<le> max (rows_len a - p + 1) (2 * (rows_len a - p)))
    \<and> m_block_ids e = map row_hash (take 10000 (drop start (block_rows b)))"
proof -
  have p: "0 < rows_len a" "0 < rows_len b" "hash_at a 0 = hash_at b 0" using assms(1) by (auto simp: chains_split_def)
  obtain n where n: "\<forall>i < n. history_offset i < rows_len a" "rows_len a \<le> history_offset n"
    using history_offset_reach by blast
  define ids where "ids = map (\<lambda>i. hash_at a (rows_len a - history_offset i)) [0..<n] @ [hash_at a 0]"
  have h: "get_short_chain_history a = Some ids" unfolding ids_def by (rule short_history [OF p(1) assms(2) n])
  obtain start where st: "split_loop b ids = Some (of_nat start)" "start < p"
    "start = 0 \<or> rows_len a - start \<le> max (rows_len a - p + 1) (2 * (rows_len a - p))"
    unfolding ids_def by (rule split_loop_history [OF assms(1) n(1)])
  have f: "find_blockchain_supplement b ids = Some (Some (of_nat start))"
    using st(1) p hash_from_height [of 0 b] assms(3) by (simp add: find_blockchain_supplement_def ids_def)
  have "start \<le> rows_len b" using st(2) assms(1) by (simp add: chains_split_def)
  note i = supplement_ids_rows [OF this assms(3), of BLOCKS_IDS_SYNCHRONIZING_DEFAULT_COUNT]
  have "chain_height b - 1 = of_nat (rows_len b - 1)" using p(2) by (simp add: chain_height_def of_nat_diff Suc_le_eq)
  then obtain d where d: "get_block_cumulative_difficulty b (chain_height b - 1) = Some d"
    using row_at_nat [of "rows_len b - 1" b] p(2) assms(3) by (simp add: get_block_cumulative_difficulty_def)
  let ?e = "\<lparr> resp_start_height = of_nat start, resp_total_height = chain_height b, resp_cumulative_difficulty = d,
    m_block_ids = map row_hash (take 10000 (drop start (block_rows b))) \<rparr>"
  have "find_chain_entry b ids = Some (Some ?e)"
    using f i d by (simp add: find_chain_entry_def BLOCKS_IDS_SYNCHRONIZING_DEFAULT_COUNT_def)
  then show ?thesis using h st(2,3) by (intro exI [of _ ids] exI [of _ start] exI [of _ ?e] conjI) simp_all
qed

theorem sync_finds_common_block_witness:
  "\<exists>ids start e. get_short_chain_history (example_db [1, 2, 3]) = Some ids
    \<and> find_chain_entry (example_db [1, 2, 7, 8, 9]) ids = Some (Some e)
    \<and> resp_start_height e = of_nat start \<and> start < 2
    \<and> m_block_ids e = map row_hash (take 10000 (drop start (map example_row [1, 2, 7, 8, 9])))"
proof -
  have l: "rows_len (example_db [1, 2, 3]) \<le> 2 ^ 63" "rows_len (example_db [1, 2, 7, 8, 9]) < 2 ^ 64"
    and r: "block_rows (example_db [1, 2, 7, 8, 9]) = map example_row [1, 2, 7, 8, 9]"
    by (simp_all add: example_db_def)
  show ?thesis using sync_finds_common_block [OF example_split l] unfolding r by blast
qed

text \<open> C34: the cache of the difficulty window changes nothing. As long as the window of the version
  is not longer than the one the cache was filled for, the cached and the recomputed window are the
  same, the next difficulty is the same, and the new cache is right for every extension of the chain.\<close>

theorem difficulty_cache_correct:
  assumes "rows_len db < 2 ^ 64" "cache_ok db n c" "difficulty_blocks hf \<le> n"
  shows "\<exists>c'. difficulty_window db hf c = Some c' \<and> difficulty_window db hf empty_cache = Some c'
    \<and> get_difficulty_for_next_block lwma_v4 db hf c = get_difficulty_for_next_block lwma_v4 db hf empty_cache
    \<and> cache_ok (db\<lparr> block_rows := block_rows db @ new \<rparr>) (difficulty_blocks hf) c'"
  using cached_is_fresh [OF assms] difficulty_window_fresh [OF assms(1), of empty_cache hf] fresh_window_ok [OF assms(1)]
  by (simp add: get_difficulty_for_next_block_def empty_cache_def)

theorem difficulty_cache_correct_witness:
  "difficulty_window (example_db [1, 2, 3]) 5 (fresh_window (example_db [1, 2]) 61) =
     difficulty_window (example_db [1, 2, 3]) 5 empty_cache"
proof -
  have "cache_ok (example_db [1, 2, 3]) 61 (fresh_window (example_db [1, 2]) 61)"
    by (simp add: cache_ok_def fresh_window_def example_db_def chain_height_def window_def)
  moreover have "rows_len (example_db [1, 2, 3]) < 2 ^ 64" "difficulty_blocks 5 \<le> 61"
    by (simp_all add: example_db_def difficulty_blocks_def DIFFICULTY_BLOCKS_COUNT_V4_def DIFFICULTY_WINDOW_V4_def)
  ultimately obtain c' where "difficulty_window (example_db [1, 2, 3]) 5 (fresh_window (example_db [1, 2]) 61) = Some c'"
    "difficulty_window (example_db [1, 2, 3]) 5 empty_cache = Some c'"
    using difficulty_cache_correct [of "example_db [1, 2, 3]" 61 "fresh_window (example_db [1, 2]) 61" 5] by blast
  then show ?thesis by simp
qed

text \<open> C36: at the switch from version 3 to version 4 the window grows from 29 to 71 blocks, but the
  cache only grows by one block. The difficulty of a node with a filled cache is computed from 30
  blocks, that of a node that has just started from 71.\<close>

theorem cache_shorter_after_fork:
  assumes "rows_len db < 2 ^ 64" "cache_ok db (difficulty_blocks 3) c" "72 \<le> rows_len db"
    and "m_timestamps_and_difficulties_height c \<noteq> 0" "chain_height db - m_timestamps_and_difficulties_height c = 1"
  shows "\<exists>c1 c2. difficulty_window db 4 c = Some c1 \<and> difficulty_window db 4 empty_cache = Some c2
    \<and> length (m_timestamps c1) = 30 \<and> length (m_timestamps c2) = 71"
proof -
  have n: "difficulty_blocks 3 = 29" "difficulty_blocks 4 = 71"
    by (simp_all add: difficulty_blocks_def DIFFICULTY_BLOCKS_COUNT_V2_def DIFFICULTY_BLOCKS_COUNT_V3_def
          DIFFICULTY_WINDOW_V2_def DIFFICULTY_CUT_V2_def word_le_nat_alt)
  obtain k where k: "rows_len db = Suc k"
    and c1: "difficulty_window db 4 c = Some \<lparr>
       m_timestamps = trim_front (difficulty_blocks 4) (map row_timestamp (window (difficulty_blocks 3) (take k (block_rows db)) @ [block_rows db ! k])),
       m_difficulties = trim_front (difficulty_blocks 4) (map row_difficulty (window (difficulty_blocks 3) (take k (block_rows db)) @ [block_rows db ! k])),
       m_timestamps_and_difficulties_height = chain_height db \<rparr>"
    by (rule difficulty_window_cached [OF assms(1,2,4,5)])
  have c2: "difficulty_window db 4 empty_cache = Some (fresh_window db (difficulty_blocks 4))"
    by (rule difficulty_window_fresh [OF assms(1)]) (simp add: empty_cache_def)
  have "length (window 29 (take k (block_rows db))) = 29" "length (window 71 (block_rows db)) = 71"
    using assms(3) k by (simp_all add: window_def)
  then show ?thesis unfolding c1 c2 by (simp add: n trim_front_def fresh_window_def)
qed

theorem cache_shorter_after_fork_witness:
  "\<exists>c1 c2. difficulty_window (example_db (replicate (Suc 71) 1)) 4 (fresh_window (example_db (replicate 71 1)) 29) = Some c1
    \<and> difficulty_window (example_db (replicate (Suc 71) 1)) 4 empty_cache = Some c2
    \<and> length (m_timestamps c1) = 30 \<and> length (m_timestamps c2) = 71"
proof -
  let ?c = "fresh_window (example_db (replicate 71 1)) 29"
  have n: "difficulty_blocks 3 = 29"
    by (simp add: difficulty_blocks_def DIFFICULTY_BLOCKS_COUNT_V2_def DIFFICULTY_WINDOW_V2_def DIFFICULTY_CUT_V2_def word_le_nat_alt)
  have r: "cache_ok (example_db (replicate (Suc 71) 1)) (difficulty_blocks 3) ?c" unfolding n by (rule example_cache) simp
  have h: "m_timestamps_and_difficulties_height ?c = 71" "chain_height (example_db (replicate (Suc 71) 1)) = 72"
    by (simp_all only: fresh_window_def difficulty_cache.simps chain_height_def example_len) simp_all
  have l: "rows_len (example_db (replicate (Suc 71) 1)) < 2 ^ 64" "72 \<le> rows_len (example_db (replicate (Suc 71) 1))"
    by (simp_all only: example_len) simp_all
  show ?thesis by (rule cache_shorter_after_fork [OF l(1) r l(2)]) (simp_all only: h, simp_all)
qed

text \<open> C35: the difficulty that is demanded on an alternative chain is the one that the main chain
  would demand if the alternative blocks were its top blocks.\<close>

theorem alternative_difficulty_agrees:
  assumes "rows_len db < 2 ^ 64" "0 < split" "split \<le> rows_len db" "split + length new < 2 ^ 64"
  shows "get_next_difficulty_for_alternative_chain lwma_v4 db hf (alt_blocks split new) (split + length new) =
    map_option fst (get_difficulty_for_next_block lwma_v4 (db\<lparr> block_rows := take split (block_rows db) @ new \<rparr>) hf empty_cache)"
proof -
  let ?db = "db\<lparr> block_rows := take split (block_rows db) @ new \<rparr>" and ?n = "difficulty_blocks hf"
  let ?w = "window ?n (take split (block_rows db) @ new)"
  have main: "map_option fst (get_difficulty_for_next_block lwma_v4 ?db hf empty_cache) =
      next_difficulty lwma_v4 hf (map row_timestamp ?w) (map row_difficulty ?w)"
    using difficulty_window_fresh [of ?db empty_cache hf] assms
    by (simp add: get_difficulty_for_next_block_def empty_cache_def fresh_window_def split: bind_split option.split)
  show ?thesis
  proof (cases "length new < ?n")
    case True
    define start where "start = skip_genesis (split - min (?n - min ?n (length new)) split)"
    have st: "start = max 1 (split + length new - ?n)" "start \<le> split" "split - start + length new \<le> ?n"
      using True assms(2) by (auto simp: start_def skip_genesis_def)
    have w: "?w = take (split - start) (drop start (block_rows db)) @ new"
      using st assms(3) by (simp add: window_def drop_take)
    have r: "read_range (\<lambda>h. map_option f (row_at db h)) start (split - start) = Some (map f (take (split - start) (drop start (block_rows db))))"
      for f :: "block_row \<Rightarrow> u64" using st(2) assms(1,3) by (intro read_range_rows) simp_all
    have stop: "(if alt_blocks split new \<noteq> [] then alt_height (hd (alt_blocks split new)) else split + length new) = split"
      using alt_blocks_maps(4,5) by auto
    have len: "length new + length (map f (take (split - start) (drop start (block_rows db)))) \<le> ?n" for f :: "block_row \<Rightarrow> u64"
      using st(2,3) assms(3) by simp
    show ?thesis
      unfolding main w get_next_difficulty_for_alternative_chain_def Let_def alt_blocks_maps(1-3) stop start_def [symmetric]
        get_block_timestamp_def [abs_def] get_block_cumulative_difficulty_def [abs_def] r
      using True len by (simp only: if_True bind.bind_lunit map_append not_not simp_thms) simp
  next
    case False
    then have w: "?w = drop (length new - ?n) new" using assms(2,3) by (simp add: window_def)
    show ?thesis
      unfolding main w get_next_difficulty_for_alternative_chain_def Let_def drop_map [symmetric] alt_blocks_maps(1-3)
      using False by simp
  qed
qed

theorem alternative_difficulty_agrees_witness:
  "get_next_difficulty_for_alternative_chain (\<lambda>_ _. None) (example_db [1, 2, 3]) 5 (alt_blocks 2 [example_row 7]) 3 =
     map_option fst (get_difficulty_for_next_block (\<lambda>_ _. None) (example_db [1, 2, 7]) 5 empty_cache)"
proof -
  have "(example_db [1, 2, 3])\<lparr> block_rows := take 2 (block_rows (example_db [1, 2, 3])) @ [example_row 7] \<rparr> = example_db [1, 2, 7]"
    by (simp add: example_db_def)
  then show ?thesis
    using alternative_difficulty_agrees [of "example_db [1, 2, 3]" 2 "[example_row 7]" "\<lambda>_ _. None" 5]
    by (simp add: example_db_def)
qed

text \<open> C37: once the chain has a full window of blocks, a time stamp is accepted exactly when it is at
  most 500 seconds ahead of the clock, not less than the median of the window, and from version 5 on
  at most 500 seconds behind the largest time stamp of the window, which need not be that of the top
  block.\<close>

theorem timestamp_check_exact:
  assumes "rows_len db < 2 ^ 64" "timestamp_window hf \<le> rows_len db" "unat now + 500 < 2 ^ 64"
    and "w = map row_timestamp (drop (rows_len db - timestamp_window hf) (block_rows db))" "500 \<le> Max (set w)"
  shows "check_block_timestamp db hf now ts =
    Some (unat ts \<le> unat now + 500 \<and> median w \<le> ts \<and> (5 \<le> hf \<longrightarrow> unat (Max (set w)) \<le> unat ts + 500))"
proof -
  have "0 < timestamp_window hf"
    by (simp add: timestamp_window_def BLOCKCHAIN_TIMESTAMP_CHECK_WINDOW_def BLOCKCHAIN_TIMESTAMP_CHECK_WINDOW_V2_def)
  then have ne: "w \<noteq> []" using assms(2,4) by simp
  have r: "read_range (get_block_timestamp db) (unat (chain_height db) - timestamp_window hf) (timestamp_window hf) = Some w"
    using read_range_rows [of "rows_len db - timestamp_window hf" "timestamp_window hf" db row_timestamp] assms(1,2,4)
    by (simp add: get_block_timestamp_def [abs_def] chain_height_unat)
  have a: "(now + CRYPTONOTE_BLOCK_FUTURE_TIME_LIMIT < ts) = (unat now + 500 < unat ts)"
    using assms(3) by (simp add: CRYPTONOTE_BLOCK_FUTURE_TIME_LIMIT_def word_less_nat_alt unat_word_ariths)
  have b: "(ts < Max (set w) - CRYPTONOTE_BLOCK_FUTURE_TIME_LIMIT) = (unat ts + 500 < unat (Max (set w)))"
    using assms(5) by (auto simp: CRYPTONOTE_BLOCK_FUTURE_TIME_LIMIT_def word_less_nat_alt unat_sub word_le_nat_alt)
  have "check_timestamps hf w ts = Some (\<not> (5 \<le> hf \<and> ts < Max (set w) - CRYPTONOTE_BLOCK_FUTURE_TIME_LIMIT) \<and> \<not> ts < median w)"
    using ne last_sort [OF ne] by (simp add: check_timestamps_def Let_def sort_Nil)
  then show ?thesis
    using r a b assms(2) chain_height_unat [OF assms(1)] by (auto simp: check_block_timestamp_def not_less)
qed

theorem timestamp_check_exact_witness: "check_block_timestamp (example_db (replicate 11 5)) 5 1000 700 = Some True"
proof -
  let ?db = "example_db (replicate 11 5)"
  have t: "timestamp_window 5 = 11" by (simp add: timestamp_window_def BLOCKCHAIN_TIMESTAMP_CHECK_WINDOW_V2_def)
  have l: "rows_len ?db = 11" by (simp only: example_db_def chain_db.simps length_map length_replicate)
  have r: "map row_timestamp (block_rows ?db) = replicate 11 600"
    by (simp only: example_db_def chain_db.simps map_replicate) (simp add: example_row_def)
  have w: "replicate 11 600 = map row_timestamp (drop (rows_len ?db - timestamp_window 5) (block_rows ?db))"
    unfolding l t by (simp only: diff_self_eq_0 drop_0 r)
  have m: "median (replicate 11 600) = 600" by code_simp
  have x: "Max (set (replicate 11 (600 :: u64))) = 600" by (simp only: set_replicate_conv_if) simp
  have "check_block_timestamp ?db 5 1000 700 = Some (unat (700 :: u64) \<le> unat (1000 :: u64) + 500 \<and> median (replicate 11 600) \<le> 700
      \<and> (5 \<le> (5 :: u8) \<longrightarrow> unat (Max (set (replicate 11 (600 :: u64)))) \<le> unat (700 :: u64) + 500))"
    by (rule timestamp_check_exact [OF _ _ _ w]) (simp_all only: l t x, simp_all add: word_le_nat_alt)
  then show ?thesis unfolding m x by (simp add: word_le_nat_alt)
qed

end
