(* ===== verification/Block_Store.thy ===== *)
theory Block_Store
  imports Blocks
begin

text \<open>
  The block database: \<open>blockchain_db/blockchain_db.cpp\<close> on the tables of
  \<open>blockchain_db/lmdb/db_lmdb.cpp\<close>. Tables with numbers as keys that are only appended to are
  association lists, the tables indexed by hashes are maps, the table of spent key images is a set.
  Heights, transaction ids and output indices are natural numbers. An exception is \<open>None\<close>; it aborts the
  database transaction, so the caller keeps the old store. The entry of the hard fork table that
  \<open>add_block\<close> also writes belongs to the hard fork component, the counters for the size estimate are
  left out. The commitment of a coinbase amount is an argument.
\<close>

subsection \<open>Tables\<close>

record block_info =
  bi_timestamp :: u64
  bi_coins :: u64
  bi_size :: nat
  bi_diff :: u64
  bi_hash :: blob

record tx_data =
  td_tx_id :: nat
  td_unlock_time :: u64
  td_block_id :: nat

record out_key =
  ok_output_id :: nat
  ok_pubkey :: blob
  ok_unlock_time :: u64
  ok_height :: nat
  ok_commitment :: "blob option"

record out_tables =
  m_output_txs :: "(nat \<times> blob \<times> nat) list"
  m_output_amounts :: "u64 \<Rightarrow> (nat \<times> out_key) list"

record store =
  m_blocks :: "(nat \<times> blob) list"
  m_block_info :: "(nat \<times> block_info) list"
  m_block_heights :: "blob \<Rightarrow> nat option"
  m_txs :: "(nat \<times> blob) list"
  m_tx_indices :: "blob \<Rightarrow> tx_data option"
  m_tx_outputs :: "(nat \<times> nat list) list"
  m_outs :: out_tables
  m_spent_keys :: "blob set"

definition empty_store :: store where
  "empty_store = \<lparr> m_blocks = [], m_block_info = [], m_block_heights = (\<lambda>_. None), m_txs = [], m_tx_indices = (\<lambda>_. None),
     m_tx_outputs = [], m_outs = \<lparr> m_output_txs = [], m_output_amounts = (\<lambda>_. []) \<rparr>, m_spent_keys = {} \<rparr>"

text \<open>A put with \<open>MDB_APPEND\<close> or \<open>MDB_APPENDDUP\<close> fails unless the key is greater than the last one.\<close>

definition put_append :: "nat \<Rightarrow> 'a \<Rightarrow> (nat \<times> 'a) list \<Rightarrow> (nat \<times> 'a) list option" where
  "put_append k v xs = (if xs \<noteq> [] \<and> k \<le> fst (last xs) then None else Some (xs @ [(k, v)]))"

definition del_key :: "nat \<Rightarrow> (nat \<times> 'a) list \<Rightarrow> (nat \<times> 'a) list" where
  "del_key k xs = filter (\<lambda>e. fst e \<noteq> k) xs"

definition db_height :: "store \<Rightarrow> nat" where "db_height db = length (m_blocks db)"
definition get_tx_count :: "store \<Rightarrow> nat" where "get_tx_count db = length (m_txs db)"
definition num_outputs :: "out_tables \<Rightarrow> nat" where "num_outputs t = length (m_output_txs t)"

subsection \<open>Reading\<close>

definition tx_exists :: "store \<Rightarrow> blob \<Rightarrow> bool" where
  "tx_exists db h \<longleftrightarrow> m_tx_indices db h \<noteq> None"

definition has_key_image :: "store \<Rightarrow> blob \<Rightarrow> bool" where
  "has_key_image db img \<longleftrightarrow> img \<in> m_spent_keys db"

definition get_tx :: "store \<Rightarrow> blob \<Rightarrow> transaction option" where
  "get_tx db h =
     do { tip \<leftarrow> m_tx_indices db h; bd \<leftarrow> map_of (m_txs db) (td_tx_id tip); parse_and_validate_tx_from_blob bd }"

definition get_block_from_height :: "store \<Rightarrow> nat \<Rightarrow> block option" where
  "get_block_from_height db height =
     do { bd \<leftarrow> map_of (m_blocks db) height; parse_and_validate_block_from_blob bd }"

definition get_block :: "store \<Rightarrow> blob \<Rightarrow> block option" where
  "get_block db h = do { height \<leftarrow> m_block_heights db h; get_block_from_height db height }"

text \<open>Without a row the code logs a warning and reads a value that was never set, a trap.\<close>

definition get_tx_amount_output_indices :: "store \<Rightarrow> nat \<Rightarrow> nat list option" where
  "get_tx_amount_output_indices db tx_id = map_of (m_tx_outputs db) tx_id"

subsection \<open>Adding\<close>

definition add_block_data :: "store \<Rightarrow> block \<Rightarrow> nat \<Rightarrow> u64 \<Rightarrow> u64 \<Rightarrow> blob \<Rightarrow> store option" where
  "add_block_data db blk block_size cumulative_difficulty coins_generated blk_hash =
     (let m_height = db_height db
      in if m_block_heights db blk_hash \<noteq> None then None
         else if m_height > 0 \<and> m_block_heights db (prev_id blk) = None then None
         else if m_height > 0 \<and> m_block_heights db (prev_id blk) \<noteq> Some (m_height - 1) then None
         else do { blocks \<leftarrow> put_append m_height (block_to_blob blk) (m_blocks db);
                   info \<leftarrow> put_append m_height \<lparr> bi_timestamp = timestamp blk, bi_coins = coins_generated,
                     bi_size = block_size, bi_diff = cumulative_difficulty, bi_hash = blk_hash \<rparr> (m_block_info db);
                   Some (db\<lparr> m_blocks := blocks, m_block_info := info,
                     m_block_heights := (m_block_heights db)(blk_hash \<mapsto> m_height) \<rparr>) })"

definition add_transaction_data :: "store \<Rightarrow> transaction \<Rightarrow> blob \<Rightarrow> (nat \<times> store) option" where
  "add_transaction_data db tx tx_hash =
     (let tx_id = get_tx_count db
      in if m_tx_indices db tx_hash \<noteq> None then None
         else do { txs \<leftarrow> put_append tx_id (tx_to_blob tx) (m_txs db);
                   Some (tx_id, db\<lparr> m_tx_indices := (m_tx_indices db)(tx_hash \<mapsto>
                       \<lparr> td_tx_id = tx_id, td_unlock_time = unlock_time tx, td_block_id = db_height db \<rparr>),
                     m_txs := txs \<rparr>) })"

definition add_output ::
    "out_tables \<Rightarrow> nat \<Rightarrow> blob \<Rightarrow> tx_out \<Rightarrow> nat \<Rightarrow> u64 \<Rightarrow> blob option \<Rightarrow> (nat \<times> out_tables) option" where
  "add_output t m_height tx_hash tx_output local_index unlock commitment =
     (case target tx_output of
        Txout_to_key key \<Rightarrow>
          if out_amount tx_output = 0 \<and> commitment = None then None
          else let amount = out_amount tx_output; amount_index = length (m_output_amounts t amount)
               in do { txs \<leftarrow> put_append (num_outputs t) (tx_hash, local_index) (m_output_txs t);
                       keys \<leftarrow> put_append amount_index \<lparr> ok_output_id = num_outputs t, ok_pubkey = key,
                         ok_unlock_time = unlock, ok_height = m_height,
                         ok_commitment = (if amount = 0 then commitment else None) \<rparr> (m_output_amounts t amount);
                       Some (amount_index, \<lparr> m_output_txs = txs,
                         m_output_amounts = (m_output_amounts t)(amount := keys) \<rparr>) }
      | _ \<Rightarrow> None)"

text \<open>The output and the commitment that are stored for output \<open>i\<close>; an index outside \<open>outPk\<close> is a trap.\<close>

definition stored_output :: "(u64 \<Rightarrow> blob) \<Rightarrow> bool \<Rightarrow> transaction \<Rightarrow> nat \<Rightarrow> (tx_out \<times> blob option) option" where
  "stored_output zeroCommit miner tx i =
     (let vo = vout tx ! i
      in if miner \<and> version tx = 2 then Some (vo\<lparr> out_amount := 0 \<rparr>, Some (zeroCommit (out_amount vo)))
         else if version tx > 1
         then if i < length (outPk (rct_signatures tx)) then Some (vo, Some (ct_mask (outPk (rct_signatures tx) ! i))) else None
         else Some (vo, None))"

text \<open>The loop over the outputs after its first \<open>n\<close> rounds.\<close>

fun add_outputs ::
    "(u64 \<Rightarrow> blob) \<Rightarrow> bool \<Rightarrow> nat \<Rightarrow> blob \<Rightarrow> transaction \<Rightarrow> nat \<Rightarrow> out_tables \<Rightarrow> (nat list \<times> out_tables) option" where
  "add_outputs zeroCommit miner m_height tx_hash tx 0 t = Some ([], t)"
| "add_outputs zeroCommit miner m_height tx_hash tx (Suc i) t =
     do { (indices, t) \<leftarrow> add_outputs zeroCommit miner m_height tx_hash tx i t;
          (vo, commitment) \<leftarrow> stored_output zeroCommit miner tx i;
          (k, t) \<leftarrow> add_output t m_height tx_hash vo i (unlock_time tx) commitment;
          Some (indices @ [k], t) }"

text \<open>
  The loop over the inputs: the spent keys and whether an input is \<open>txin_gen\<close>; the inner \<open>None\<close> is an
  unsupported input.
\<close>

fun spend_inputs :: "txin_v list \<Rightarrow> bool \<Rightarrow> blob set \<Rightarrow> (bool option \<times> blob set) option" where
  "spend_inputs [] miner spent = Some (Some miner, spent)"
| "spend_inputs (Txin_to_key i # ins) miner spent =
     (if k_image i \<in> spent then None else spend_inputs ins miner (insert (k_image i) spent))"
| "spend_inputs (Txin_gen h # ins) miner spent = spend_inputs ins True spent"
| "spend_inputs (_ # ins) miner spent = Some (None, spent)"

fun unspend_inputs :: "txin_v list \<Rightarrow> blob set \<Rightarrow> blob set" where
  "unspend_inputs [] spent = spent"
| "unspend_inputs (Txin_to_key i # ins) spent = unspend_inputs ins (spent - {k_image i})"
| "unspend_inputs (_ # ins) spent = unspend_inputs ins spent"

definition add_transaction :: "(u64 \<Rightarrow> blob) \<Rightarrow> store \<Rightarrow> transaction \<Rightarrow> blob \<Rightarrow> store option" where
  "add_transaction zeroCommit db tx tx_hash =
     do { (r, spent) \<leftarrow> spend_inputs (vin tx) False (m_spent_keys db);
          case r of
            None \<Rightarrow> Some (db\<lparr> m_spent_keys := unspend_inputs (vin tx) spent \<rparr>)
          | Some miner \<Rightarrow>
              do { (tx_id, db) \<leftarrow> add_transaction_data (db\<lparr> m_spent_keys := spent \<rparr>) tx tx_hash;
                   (indices, t) \<leftarrow> add_outputs zeroCommit miner (db_height db) tx_hash tx (length (vout tx)) (m_outs db);
                   outs \<leftarrow> put_append tx_id indices (m_tx_outputs db);
                   Some (db\<lparr> m_outs := t, m_tx_outputs := outs \<rparr>) } }"

text \<open>The transactions with the hashes that the block lists for them.\<close>

fun add_transactions :: "(u64 \<Rightarrow> blob) \<Rightarrow> (blob \<times> transaction) list \<Rightarrow> store \<Rightarrow> store option" where
  "add_transactions zeroCommit [] db = Some db"
| "add_transactions zeroCommit ((h, tx) # txs) db =
     do { db \<leftarrow> add_transaction zeroCommit db tx h; add_transactions zeroCommit txs db }"

definition add_block ::
    "(u64 \<Rightarrow> blob) \<Rightarrow> store \<Rightarrow> block \<Rightarrow> nat \<Rightarrow> u64 \<Rightarrow> u64 \<Rightarrow> transaction list \<Rightarrow> (nat \<times> store) option" where
  "add_block zeroCommit db blk block_size cumulative_difficulty coins_generated txs =
     do { blk_hash \<leftarrow> get_block_hash blk;
          let prev_height = db_height db;
          db \<leftarrow> add_transaction zeroCommit db (miner_tx blk) (get_transaction_hash (miner_tx blk));
          if length (block_txs blk) < length txs then None
          else
            do { db \<leftarrow> add_transactions zeroCommit (zip (block_txs blk) txs) db;
                 db \<leftarrow> add_block_data db blk block_size cumulative_difficulty coins_generated blk_hash;
                 Some (prev_height, db) } }"

subsection \<open>Removing\<close>

definition remove_block :: "store \<Rightarrow> store option" where
  "remove_block db =
     (let m_height = db_height db
      in if m_height = 0 then None
         else do { bi \<leftarrow> map_of (m_block_info db) (m_height - 1);
                   _ \<leftarrow> m_block_heights db (bi_hash bi);
                   _ \<leftarrow> map_of (m_blocks db) (m_height - 1);
                   Some (db\<lparr> m_block_heights := (m_block_heights db)(bi_hash bi := None),
                     m_blocks := del_key (m_height - 1) (m_blocks db),
                     m_block_info := del_key (m_height - 1) (m_block_info db) \<rparr>) })"

definition remove_output :: "u64 \<Rightarrow> nat \<Rightarrow> out_tables \<Rightarrow> out_tables option" where
  "remove_output amount out_index t =
     do { key \<leftarrow> map_of (m_output_amounts t amount) out_index;
          _ \<leftarrow> map_of (m_output_txs t) (ok_output_id key);
          Some \<lparr> m_output_txs = del_key (ok_output_id key) (m_output_txs t),
            m_output_amounts = (m_output_amounts t)(amount := del_key out_index (m_output_amounts t amount)) \<rparr> }"

definition is_pseudo_rct :: "transaction \<Rightarrow> bool" where
  "is_pseudo_rct tx \<longleftrightarrow> version tx \<ge> 2 \<and> (case vin tx of [Txin_gen _] \<Rightarrow> True | _ \<Rightarrow> False)"

text \<open>The loop runs from the last output down; the argument counts the outputs left.\<close>

fun remove_outputs :: "transaction \<Rightarrow> nat list \<Rightarrow> nat \<Rightarrow> out_tables \<Rightarrow> out_tables option" where
  "remove_outputs tx indices 0 t = Some t"
| "remove_outputs tx indices (Suc i) t =
     (if length indices \<le> i then None
      else do { t \<leftarrow> remove_output (if is_pseudo_rct tx then 0 else out_amount (vout tx ! i)) (indices ! i) t;
                remove_outputs tx indices i t })"

definition remove_tx_outputs :: "store \<Rightarrow> nat \<Rightarrow> transaction \<Rightarrow> store option" where
  "remove_tx_outputs db tx_id tx =
     do { indices \<leftarrow> get_tx_amount_output_indices db tx_id;
          if indices = [] \<and> vout tx \<noteq> [] then None
          else do { t \<leftarrow> remove_outputs tx indices (length (vout tx)) (m_outs db); Some (db\<lparr> m_outs := t \<rparr>) } }"

definition remove_transaction_data :: "store \<Rightarrow> blob \<Rightarrow> transaction \<Rightarrow> store option" where
  "remove_transaction_data db tx_hash tx =
     do { tip \<leftarrow> m_tx_indices db tx_hash;
          _ \<leftarrow> map_of (m_txs db) (td_tx_id tip);
          db \<leftarrow> remove_tx_outputs (db\<lparr> m_txs := del_key (td_tx_id tip) (m_txs db) \<rparr>) (td_tx_id tip) tx;
          Some (db\<lparr> m_tx_outputs := del_key (td_tx_id tip) (m_tx_outputs db),
            m_tx_indices := (m_tx_indices db)(tx_hash := None) \<rparr>) }"

definition remove_transaction :: "store \<Rightarrow> blob \<Rightarrow> store option" where
  "remove_transaction db tx_hash =
     do { tx \<leftarrow> get_tx db tx_hash;
          remove_transaction_data (db\<lparr> m_spent_keys := unspend_inputs (vin tx) (m_spent_keys db) \<rparr>) tx_hash tx }"

fun remove_transactions :: "blob list \<Rightarrow> store \<Rightarrow> (transaction list \<times> store) option" where
  "remove_transactions [] db = Some ([], db)"
| "remove_transactions (h # hs) db =
     do { tx \<leftarrow> get_tx db h; db \<leftarrow> remove_transaction db h; (txs, db) \<leftarrow> remove_transactions hs db; Some (tx # txs, db) }"

text \<open>An empty chain gives a default block, on which \<open>remove_block\<close> throws.\<close>

definition pop_block :: "store \<Rightarrow> (block \<times> transaction list \<times> store) option" where
  "pop_block db =
     (if db_height db = 0 then None
      else do { blk \<leftarrow> get_block_from_height db (db_height db - 1);
                db \<leftarrow> remove_block db;
                (txs, db) \<leftarrow> remove_transactions (rev (block_txs blk)) db;
                db \<leftarrow> remove_transaction db (get_transaction_hash (miner_tx blk));
                Some (blk, txs, db) })"

subsection \<open>Numbered tables\<close>

text \<open>The keys of a table that is only appended to and cut at its end are the numbers below its length.\<close>

definition numbered :: "(nat \<times> 'a) list \<Rightarrow> bool" where
  "numbered xs \<longleftrightarrow> map fst xs = [0..<length xs]"

lemma numbered_key: "numbered xs \<Longrightarrow> e \<in> set xs \<Longrightarrow> fst e < length xs"
  by (metis numbered_def atLeastLessThan_iff image_eqI list.set_map set_upt)

lemma put_append_numbered: "numbered xs \<Longrightarrow> put_append (length xs) v xs = Some (xs @ [(length xs, v)])"
  using numbered_key [of xs "last xs"] by (auto simp: put_append_def)

lemma numbered_append: "numbered xs \<Longrightarrow> numbered (xs @ [(length xs, v)])"
  by (simp add: numbered_def)

lemma map_of_numbered: "numbered xs \<Longrightarrow> map_of (xs @ [(length xs, v)]) (length xs) = Some v"
proof -
  assume "numbered xs"
  then have "map_of xs (length xs) = None" using numbered_key [of xs] by (fastforce simp: map_of_eq_None_iff)
  then show ?thesis by (simp add: map_add_def)
qed

lemma del_numbered: "numbered xs \<Longrightarrow> del_key (length xs) (xs @ [(length xs, v)]) = xs"
  using numbered_key [of xs] by (fastforce simp: del_key_def filter_id_conv)

lemma map_of_numbered_old: "k < length xs \<Longrightarrow> map_of (xs @ [(length xs, v)]) k = map_of xs k"
  by (simp add: map_add_def split: option.split)

lemmas numbered_rules = put_append_numbered numbered_append map_of_numbered del_numbered

definition outs_ok :: "out_tables \<Rightarrow> bool" where
  "outs_ok t \<longleftrightarrow> numbered (m_output_txs t) \<and> (\<forall>a. numbered (m_output_amounts t a))"

definition store_ok :: "store \<Rightarrow> bool" where
  "store_ok db \<longleftrightarrow> numbered (m_blocks db) \<and> numbered (m_block_info db) \<and> length (m_block_info db) = length (m_blocks db)
     \<and> numbered (m_txs db) \<and> numbered (m_tx_outputs db) \<and> length (m_tx_outputs db) = length (m_txs db) \<and> outs_ok (m_outs db)"

lemma empty_store_ok: "store_ok empty_store"
  by (simp add: store_ok_def empty_store_def numbered_def outs_ok_def)

subsection \<open>Outputs\<close>

lemma add_output_undo:
  assumes "outs_ok t" "add_output t hgt h vo i u c = Some (k, t')"
  shows "outs_ok t' \<and> remove_output (out_amount vo) k t' = Some t"
proof -
  let ?a = "out_amount vo"
  obtain key where key: "target vo = Txout_to_key key" using assms(2) by (auto simp: add_output_def split: txout_target_v.splits)
  have n: "numbered (m_output_txs t)" "numbered (m_output_amounts t a)" for a using assms(1) by (simp_all add: outs_ok_def)
  define e where "e = \<lparr> ok_output_id = length (m_output_txs t), ok_pubkey = key, ok_unlock_time = u, ok_height = hgt,
    ok_commitment = (if ?a = 0 then c else None) \<rparr>"
  have t': "k = length (m_output_amounts t ?a)" "t' = \<lparr> m_output_txs = m_output_txs t @ [(length (m_output_txs t), h, i)],
      m_output_amounts = (m_output_amounts t)(?a := m_output_amounts t ?a @ [(length (m_output_amounts t ?a), e)]) \<rparr>"
    using assms(2) n by (auto simp: add_output_def key Let_def num_outputs_def put_append_numbered e_def split: if_splits)
  have "ok_output_id e = length (m_output_txs t)" by (simp add: e_def)
  then show ?thesis
    using n by (simp add: t' remove_output_def numbered_rules outs_ok_def map_of_numbered [simplified])
qed

lemma add_outputs_length: "add_outputs zc mi hgt h tx n t = Some (idx, t') \<Longrightarrow> length idx = n"
  by (induction n arbitrary: idx t') (auto simp: Option.bind_eq_Some_conv)

text \<open>The amount under which an output is stored is the one under which it is removed.\<close>

definition amounts_agree :: "bool \<Rightarrow> transaction \<Rightarrow> bool" where
  "amounts_agree mi tx \<longleftrightarrow> (mi \<and> version tx = 2) = is_pseudo_rct tx"

lemma stored_output_amount:
  "amounts_agree mi tx \<Longrightarrow> stored_output zc mi tx i = Some (vo, c) \<Longrightarrow>
     out_amount vo = (if is_pseudo_rct tx then 0 else out_amount (vout tx ! i))"
  by (auto simp: amounts_agree_def stored_output_def Let_def split: if_splits)

lemma add_outputs_undo:
  assumes "amounts_agree mi tx" "outs_ok t" "add_outputs zc mi hgt h tx n t = Some (idx, t')"
  shows "outs_ok t' \<and> (\<forall>more. remove_outputs tx (idx @ more) n t' = Some t)"
  using assms(3)
proof (induction n arbitrary: idx t')
  case 0
  then show ?case using assms(2) by simp
next
  case (Suc n)
  then obtain ids t1 vo c k where s: "add_outputs zc mi hgt h tx n t = Some (ids, t1)"
    "stored_output zc mi tx n = Some (vo, c)" "add_output t1 hgt h vo n (unlock_time tx) c = Some (k, t')" "idx = ids @ [k]"
    by (auto simp: Option.bind_eq_Some_conv)
  note IH = Suc.IH [OF s(1)]
  have u: "outs_ok t' \<and> remove_output (out_amount vo) k t' = Some t1" using add_output_undo [OF _ s(3)] IH by blast
  have "remove_outputs tx (idx @ more) (Suc n) t' = Some t" for more
    using u IH stored_output_amount [OF assms(1) s(2)] add_outputs_length [OF s(1)]
    by (simp add: s(4) nth_append)
  then show ?case using u by blast
qed

subsection \<open>Inputs\<close>

fun images :: "txin_v list \<Rightarrow> blob list" where
  "images [] = []"
| "images (Txin_to_key i # ins) = k_image i # images ins"
| "images (_ # ins) = images ins"

fun is_gen :: "txin_v \<Rightarrow> bool" where
  "is_gen (Txin_gen _) = True"
| "is_gen _ = False"

fun supported :: "txin_v \<Rightarrow> bool" where
  "supported (Txin_gen _) = True"
| "supported (Txin_to_key _) = True"
| "supported _ = False"

lemma unspend_inputs_images: "unspend_inputs ins spent = spent - set (images ins)"
  by (induction ins spent rule: unspend_inputs.induct) auto

lemma spend_inputs_exact:
  "list_all supported ins \<Longrightarrow> spend_inputs ins mi spent =
     (if distinct (images ins) \<and> set (images ins) \<inter> spent = {}
      then Some (Some (mi \<or> list_ex is_gen ins), spent \<union> set (images ins)) else None)"
  by (induction ins mi spent rule: spend_inputs.induct) auto

subsection \<open>Transactions\<close>

text \<open>What the checks before a block is added leave: supported inputs, and a generating one alone.\<close>

definition storable_tx :: "transaction \<Rightarrow> bool" where
  "storable_tx tx \<longleftrightarrow> tx_ok False tx \<and> list_all supported (vin tx) \<and> (list_ex is_gen (vin tx) \<longrightarrow> length (vin tx) = 1)"

lemma storable_amounts: "storable_tx tx \<Longrightarrow> amounts_agree (list_ex is_gen (vin tx)) tx"
proof -
  assume s: "storable_tx tx"
  have v: "version tx \<le> 2"
    using s by (auto simp: storable_tx_def tx_ok_def prefix_ok_def version_accepted_def CURRENT_TRANSACTION_VERSION_def)
  have "list_ex is_gen (vin tx) = (case vin tx of [Txin_gen _] \<Rightarrow> True | _ \<Rightarrow> False)"
    using s by (auto simp: storable_tx_def split: list.splits txin_v.splits elim: is_gen.elims)
  moreover have "(version tx = 2) = (version tx \<ge> 2)" using v by auto
  ultimately show ?thesis by (auto simp: amounts_agree_def is_pseudo_rct_def)
qed

text \<open>A transaction that was added: the tables that grew, and the key images that were spent.\<close>

lemma add_transaction_cases:
  assumes "store_ok db" "storable_tx tx" "add_transaction zc db tx h = Some db'"
  obtains idx t where "distinct (images (vin tx))" "set (images (vin tx)) \<inter> m_spent_keys db = {}" "m_tx_indices db h = None"
    "add_outputs zc (list_ex is_gen (vin tx)) (db_height db) h tx (length (vout tx)) (m_outs db) = Some (idx, t)"
    "db' = db\<lparr> m_spent_keys := m_spent_keys db \<union> set (images (vin tx)),
       m_tx_indices := (m_tx_indices db)(h \<mapsto> \<lparr> td_tx_id = length (m_txs db), td_unlock_time = unlock_time tx, td_block_id = db_height db \<rparr>),
       m_txs := m_txs db @ [(length (m_txs db), tx_to_blob tx)], m_outs := t,
       m_tx_outputs := m_tx_outputs db @ [(length (m_txs db), idx)] \<rparr>"
proof -
  have sup: "list_all supported (vin tx)" using assms(2) by (simp add: storable_tx_def)
  have n: "numbered (m_txs db)" "numbered (m_tx_outputs db)" "length (m_tx_outputs db) = length (m_txs db)"
    using assms(1) by (simp_all add: store_ok_def)
  have put: "put_append (length (m_txs db)) v (m_tx_outputs db) = Some (m_tx_outputs db @ [(length (m_txs db), v)])" for v
    using put_append_numbered [OF n(2)] n(3) by simp
  have d: "distinct (images (vin tx))" "set (images (vin tx)) \<inter> m_spent_keys db = {}"
    using assms(3) by (auto simp: add_transaction_def spend_inputs_exact [OF sup] split: if_splits)
  then have sp: "spend_inputs (vin tx) False (m_spent_keys db) =
      Some (Some (list_ex is_gen (vin tx)), m_spent_keys db \<union> set (images (vin tx)))"
    by (simp add: spend_inputs_exact [OF sup])
  have i: "m_tx_indices db h = None"
    using assms(3) by (auto simp: add_transaction_def sp add_transaction_data_def Let_def split: if_splits)
  have "\<exists>idx t. add_outputs zc (list_ex is_gen (vin tx)) (db_height db) h tx (length (vout tx)) (m_outs db) = Some (idx, t)
    \<and> db' = db\<lparr> m_spent_keys := m_spent_keys db \<union> set (images (vin tx)),
       m_tx_indices := (m_tx_indices db)(h \<mapsto> \<lparr> td_tx_id = length (m_txs db), td_unlock_time = unlock_time tx, td_block_id = db_height db \<rparr>),
       m_txs := m_txs db @ [(length (m_txs db), tx_to_blob tx)], m_outs := t,
       m_tx_outputs := m_tx_outputs db @ [(length (m_txs db), idx)] \<rparr>"
    using assms(3) by (auto simp: add_transaction_def sp add_transaction_data_def i get_tx_count_def Let_def
        put_append_numbered [OF n(1)] put db_height_def Option.bind_eq_Some_conv)
  with that [OF d i] show ?thesis by blast
qed

lemma parse_tx_back: "tx_ok False tx \<Longrightarrow> parse_and_validate_tx_from_blob (tx_to_blob tx) = Some tx"
  using tx_field.parse_back [of False tx] by (simp add: parse_and_validate_tx_from_blob_def tx_to_blob_def)

lemma add_transaction_undo:
  assumes "store_ok db" "storable_tx tx" "add_transaction zc db tx h = Some db'"
  shows "store_ok db' \<and> db_height db' = db_height db \<and> get_tx db' h = Some tx \<and> remove_transaction db' h = Some db"
proof -
  obtain idx t where c: "distinct (images (vin tx))" "set (images (vin tx)) \<inter> m_spent_keys db = {}" "m_tx_indices db h = None"
    "add_outputs zc (list_ex is_gen (vin tx)) (db_height db) h tx (length (vout tx)) (m_outs db) = Some (idx, t)"
    and db': "db' = db\<lparr> m_spent_keys := m_spent_keys db \<union> set (images (vin tx)),
       m_tx_indices := (m_tx_indices db)(h \<mapsto> \<lparr> td_tx_id = length (m_txs db), td_unlock_time = unlock_time tx, td_block_id = db_height db \<rparr>),
       m_txs := m_txs db @ [(length (m_txs db), tx_to_blob tx)], m_outs := t,
       m_tx_outputs := m_tx_outputs db @ [(length (m_txs db), idx)] \<rparr>"
    by (rule add_transaction_cases [OF assms])
  have n: "numbered (m_txs db)" "numbered (m_tx_outputs db)" "length (m_tx_outputs db) = length (m_txs db)" "outs_ok (m_outs db)"
    using assms(1) by (simp_all add: store_ok_def)
  have o: "outs_ok t \<and> remove_outputs tx idx (length (vout tx)) t = Some (m_outs db)"
    using add_outputs_undo [OF storable_amounts [OF assms(2)] n(4) c(4)] by (metis append_Nil2)
  have l: "length idx = length (vout tx)" by (rule add_outputs_length [OF c(4)])
  have tx: "parse_and_validate_tx_from_blob (tx_to_blob tx) = Some tx" using assms(2) by (simp add: storable_tx_def parse_tx_back)
  have g: "get_tx db' h = Some tx" using tx map_of_numbered [OF n(1)] by (simp add: get_tx_def db')
  have m2: "map_of (m_tx_outputs db @ [(length (m_txs db), idx)]) (length (m_txs db)) = Some idx"
    "del_key (length (m_txs db)) (m_tx_outputs db @ [(length (m_txs db), idx)]) = m_tx_outputs db"
    using map_of_numbered [OF n(2), of idx] del_numbered [OF n(2), of idx] n(3) by simp_all
  have f: "(m_tx_indices db)(h := None) = m_tx_indices db" using c(3) by (simp add: fun_upd_idem)
  have s: "m_spent_keys db \<union> set (images (vin tx)) - set (images (vin tx)) = m_spent_keys db" using c(2) by blast
  have "remove_transaction db' h = Some db"
    using g o l m2 f s map_of_numbered [OF n(1), of "tx_to_blob tx"] del_numbered [OF n(1), of "tx_to_blob tx"]
    by (simp add: remove_transaction_def unspend_inputs_images) (auto simp: db' remove_transaction_data_def
        remove_tx_outputs_def get_tx_amount_output_indices_def)
  moreover have "store_ok db'" using assms(1) o n(3) numbered_append [OF n(2), of idx]
    by (auto simp: store_ok_def db' numbered_append)
  ultimately show ?thesis using g by (simp add: db' db_height_def)
qed

lemma add_transactions_undo:
  assumes "store_ok db" "list_all storable_tx (map snd txs)" "add_transactions zc txs db = Some db'"
  shows "store_ok db' \<and> db_height db' = db_height db
    \<and> (\<forall>hs. remove_transactions (rev (map fst txs) @ hs) db' =
         map_option (\<lambda>(old, db). (rev (map snd txs) @ old, db)) (remove_transactions hs db))"
  using assms
proof (induction txs arbitrary: db)
  case Nil
  then show ?case by (auto simp: option.map_ident)
next
  case (Cons e txs)
  obtain h tx where e: "e = (h, tx)" by (cases e)
  obtain db1 where db1: "add_transaction zc db tx h = Some db1" "add_transactions zc txs db1 = Some db'"
    using Cons.prems(3) by (auto simp: e Option.bind_eq_Some_conv)
  have u: "store_ok db1 \<and> db_height db1 = db_height db \<and> get_tx db1 h = Some tx \<and> remove_transaction db1 h = Some db"
    using add_transaction_undo [OF Cons.prems(1) _ db1(1)] Cons.prems(2) by (simp add: e)
  have IH: "store_ok db' \<and> db_height db' = db_height db1 \<and> (\<forall>hs. remove_transactions (rev (map fst txs) @ hs) db' =
         map_option (\<lambda>(old, db). (rev (map snd txs) @ old, db)) (remove_transactions hs db1))"
    using u Cons.prems(2) by (intro Cons.IH [OF _ _ db1(2)]) (simp_all add: e)
  have "remove_transactions (h # hs) db1 = map_option (\<lambda>(old, db). (tx # old, db)) (remove_transactions hs db)" for hs
    using u by (simp add: map_option_case split: option.split)
  then show ?case using u IH by (simp add: e option.map_comp comp_def case_prod_unfold)
qed

lemma add_block_data_undo:
  assumes "store_ok db" "add_block_data db blk sz diff coins h = Some db'"
  shows "store_ok db' \<and> db_height db' = Suc (db_height db) \<and> remove_block db' = Some db
    \<and> map_of (m_blocks db') (db_height db) = Some (block_to_blob blk)"
proof -
  have n: "numbered (m_blocks db)" "numbered (m_block_info db)" "length (m_block_info db) = length (m_blocks db)"
    using assms(1) by (simp_all add: store_ok_def)
  define bi where "bi = \<lparr> bi_timestamp = timestamp blk, bi_coins = coins, bi_size = sz, bi_diff = diff, bi_hash = h \<rparr>"
  have put: "put_append (length (m_blocks db)) v (m_block_info db) = Some (m_block_info db @ [(length (m_blocks db), v)])"
    "map_of (m_block_info db @ [(length (m_blocks db), v)]) (length (m_blocks db)) = Some v"
    "del_key (length (m_blocks db)) (m_block_info db @ [(length (m_blocks db), v)]) = m_block_info db"
    "numbered (m_block_info db @ [(length (m_blocks db), v)])" for v
    using put_append_numbered [OF n(2)] map_of_numbered [OF n(2)] del_numbered [OF n(2)] numbered_append [OF n(2)] n(3) by simp_all
  have h: "m_block_heights db h = None" using assms(2) by (auto simp: add_block_data_def Let_def split: if_splits)
  have db': "db' = db\<lparr> m_blocks := m_blocks db @ [(length (m_blocks db), block_to_blob blk)],
      m_block_info := m_block_info db @ [(length (m_blocks db), bi)], m_block_heights := (m_block_heights db)(h \<mapsto> length (m_blocks db)) \<rparr>"
    using assms(2) put_append_numbered [OF n(1)] put(1)
    by (auto simp: add_block_data_def Let_def db_height_def bi_def split: if_splits)
  have "bi_hash bi = h" by (simp add: bi_def)
  moreover have "(m_block_heights db)(h := None) = m_block_heights db" using h by (simp add: fun_upd_idem)
  ultimately have "remove_block db' = Some db"
    using put map_of_numbered [OF n(1)] del_numbered [OF n(1)] by (simp add: remove_block_def db' db_height_def Let_def)
  moreover have "store_ok db'" using assms(1) numbered_append [OF n(1)] put(4) by (simp add: store_ok_def db')
  ultimately show ?thesis using map_of_numbered [OF n(1)] by (simp add: db' db_height_def)
qed

lemma add_block_steps:
  assumes "add_block zc db blk sz diff coins txs = Some (n, db')"
  obtains h db1 db2 where "get_block_hash blk = Some h"
    "add_transaction zc db (miner_tx blk) (get_transaction_hash (miner_tx blk)) = Some db1" "length txs \<le> length (block_txs blk)"
    "add_transactions zc (zip (block_txs blk) txs) db1 = Some db2" "add_block_data db2 blk sz diff coins h = Some db'"
    "n = db_height db"
  using assms by (auto simp: add_block_def Option.bind_eq_Some_conv split: if_splits)

definition storable_block :: "block \<Rightarrow> transaction list \<Rightarrow> bool" where
  "storable_block blk txs \<longleftrightarrow> block_ok blk \<and> storable_tx (miner_tx blk) \<and> list_all storable_tx txs \<and> length txs = length (block_txs blk)"

lemma parse_block_back: "block_ok b \<Longrightarrow> parse_and_validate_block_from_blob (block_to_blob b) = Some b"
  using block_field.parse_back [of b] by (simp add: parse_and_validate_block_from_blob_def block_to_blob_def)

lemma add_block_undo:
  assumes "store_ok db" "storable_block blk txs" "add_block zc db blk sz diff coins txs = Some (n, db')"
  shows "store_ok db' \<and> db_height db' = Suc (db_height db) \<and> n = db_height db \<and> pop_block db' = Some (blk, rev txs, db)"
proof -
  have ok: "block_ok blk" "storable_tx (miner_tx blk)" "list_all storable_tx txs" "length txs = length (block_txs blk)"
    using assms(2) by (simp_all add: storable_block_def)
  obtain h db1 db2 where st: "get_block_hash blk = Some h"
    "add_transaction zc db (miner_tx blk) (get_transaction_hash (miner_tx blk)) = Some db1"
    "add_transactions zc (zip (block_txs blk) txs) db1 = Some db2" "add_block_data db2 blk sz diff coins h = Some db'"
    and n: "n = db_height db"
    by (rule add_block_steps [OF assms(3)])
  have z: "map fst (zip (block_txs blk) txs) = block_txs blk" "map snd (zip (block_txs blk) txs) = txs" using ok(4) by simp_all
  note m = add_transaction_undo [OF assms(1) ok(2) st(2)]
  have t: "store_ok db2 \<and> db_height db2 = db_height db1
    \<and> (\<forall>hs. remove_transactions (rev (block_txs blk) @ hs) db2 = map_option (\<lambda>(old, db). (rev txs @ old, db)) (remove_transactions hs db1))"
    using add_transactions_undo [OF _ _ st(3)] m ok(3) unfolding z by blast
  have b: "store_ok db' \<and> db_height db' = Suc (db_height db2) \<and> remove_block db' = Some db2
    \<and> map_of (m_blocks db') (db_height db2) = Some (block_to_blob blk)"
    using add_block_data_undo [OF _ st(4)] t by blast
  have "get_block_from_height db' (db_height db' - 1) = Some blk"
    using b parse_block_back [OF ok(1)] by (simp add: get_block_from_height_def)
  moreover have "remove_transactions (rev (block_txs blk)) db2 = Some (rev txs, db1)"
    using spec [OF conjunct2 [OF conjunct2 [OF t]], of "[]"] by simp
  ultimately have "pop_block db' = Some (blk, rev txs, db)" using b m by (simp add: pop_block_def)
  then show ?thesis using b t m n by simp
qed

subsection \<open>Chains of stored blocks\<close>

definition block_images :: "block \<times> transaction list \<Rightarrow> blob list" where
  "block_images e = concat (map (\<lambda>tx. images (vin tx)) (miner_tx (fst e) # snd e))"

definition chain_images :: "(block \<times> transaction list) list \<Rightarrow> blob list" where
  "chain_images ch = concat (map block_images ch)"

definition chain_hash :: "(block \<times> transaction list) list \<Rightarrow> nat \<Rightarrow> blob option" where
  "chain_hash ch i = (if i < length ch then get_block_hash (fst (ch ! i)) else None)"

text \<open>The stores that a sequence of added blocks leaves, with the blocks and their transactions.\<close>

inductive stored :: "(u64 \<Rightarrow> blob) \<Rightarrow> (block \<times> transaction list) list \<Rightarrow> store \<Rightarrow> bool" for zc where
  stored_empty: "stored zc [] empty_store"
| stored_add: "stored zc ch db \<Longrightarrow> storable_block blk txs \<Longrightarrow> add_block zc db blk sz diff coins txs = Some (n, db') \<Longrightarrow>
     stored zc (ch @ [(blk, txs)]) db'"

inductive_cases stored_NilE: "stored zc [] db"
inductive_cases stored_snocE: "stored zc (ch @ [e]) db"

lemma add_transaction_frame:
  assumes "store_ok db" "storable_tx tx" "add_transaction zc db tx h = Some db'"
  shows "m_blocks db' = m_blocks db \<and> m_block_heights db' = m_block_heights db
    \<and> distinct (images (vin tx)) \<and> set (images (vin tx)) \<inter> m_spent_keys db = {}
    \<and> m_spent_keys db' = m_spent_keys db \<union> set (images (vin tx))"
  by (rule add_transaction_cases [OF assms]) simp

lemma add_transactions_frame:
  assumes "store_ok db" "list_all storable_tx (map snd txs)" "add_transactions zc txs db = Some db'"
  shows "m_blocks db' = m_blocks db \<and> m_block_heights db' = m_block_heights db
    \<and> distinct (concat (map (\<lambda>tx. images (vin tx)) (map snd txs)))
    \<and> set (concat (map (\<lambda>tx. images (vin tx)) (map snd txs))) \<inter> m_spent_keys db = {}
    \<and> m_spent_keys db' = m_spent_keys db \<union> set (concat (map (\<lambda>tx. images (vin tx)) (map snd txs)))"
  using assms
proof (induction txs arbitrary: db)
  case (Cons e txs)
  obtain h tx where e: "e = (h, tx)" by (cases e)
  obtain db1 where db1: "add_transaction zc db tx h = Some db1" "add_transactions zc txs db1 = Some db'"
    using Cons.prems(3) by (auto simp: e Option.bind_eq_Some_conv)
  have tx: "storable_tx tx" using Cons.prems(2) by (simp add: e)
  note f = add_transaction_frame [OF Cons.prems(1) tx db1(1)]
  have "store_ok db1" using add_transaction_undo [OF Cons.prems(1) tx db1(1)] by blast
  note IH = Cons.IH [OF this _ db1(2)]
  show ?case using f IH Cons.prems(2) by (auto simp: e)
qed simp

lemma add_block_data_frame:
  assumes "add_block_data db blk sz diff coins h = Some db'"
  shows "m_spent_keys db' = m_spent_keys db \<and> m_block_heights db h = None \<and> m_block_heights db' = (m_block_heights db)(h \<mapsto> db_height db)
    \<and> (0 < db_height db \<longrightarrow> m_block_heights db (prev_id blk) = Some (db_height db - 1))
    \<and> m_blocks db' = m_blocks db @ [(db_height db, block_to_blob blk)]"
  using assms by (auto simp: add_block_data_def Let_def put_append_def Option.bind_eq_Some_conv split: if_splits)

lemma add_block_frame:
  assumes "store_ok db" "storable_block blk txs" "add_block zc db blk sz diff coins txs = Some (n, db')"
  obtains h where "get_block_hash blk = Some h" "m_block_heights db h = None"
    "m_block_heights db' = (m_block_heights db)(h \<mapsto> db_height db)"
    "0 < db_height db \<longrightarrow> m_block_heights db (prev_id blk) = Some (db_height db - 1)"
    "m_blocks db' = m_blocks db @ [(db_height db, block_to_blob blk)]"
    "distinct (block_images (blk, txs))" "set (block_images (blk, txs)) \<inter> m_spent_keys db = {}"
    "m_spent_keys db' = m_spent_keys db \<union> set (block_images (blk, txs))"
proof -
  have ok: "storable_tx (miner_tx blk)" "list_all storable_tx txs" "length txs = length (block_txs blk)"
    using assms(2) by (simp_all add: storable_block_def)
  obtain h db1 db2 where st: "get_block_hash blk = Some h"
    "add_transaction zc db (miner_tx blk) (get_transaction_hash (miner_tx blk)) = Some db1"
    "add_transactions zc (zip (block_txs blk) txs) db1 = Some db2" "add_block_data db2 blk sz diff coins h = Some db'"
    by (rule add_block_steps [OF assms(3)])
  have z: "map snd (zip (block_txs blk) txs) = txs" using ok(3) by simp
  note m = add_transaction_frame [OF assms(1) ok(1) st(2)] add_transaction_undo [OF assms(1) ok(1) st(2)]
  have t: "m_blocks db2 = m_blocks db1 \<and> m_block_heights db2 = m_block_heights db1
    \<and> distinct (concat (map (\<lambda>tx. images (vin tx)) txs)) \<and> set (concat (map (\<lambda>tx. images (vin tx)) txs)) \<inter> m_spent_keys db1 = {}
    \<and> m_spent_keys db2 = m_spent_keys db1 \<union> set (concat (map (\<lambda>tx. images (vin tx)) txs))"
    using add_transactions_frame [OF _ _ st(3)] m ok(2) unfolding z by blast
  have hgt: "db_height db2 = db_height db" using t m by (simp add: db_height_def)
  note b = add_block_data_frame [OF st(4), unfolded hgt]
  show ?thesis
  proof (rule that [OF st(1)])
    show "distinct (block_images (blk, txs))" "set (block_images (blk, txs)) \<inter> m_spent_keys db = {}"
      "m_spent_keys db' = m_spent_keys db \<union> set (block_images (blk, txs))"
      using m(1) t b by (auto simp: block_images_def)
  qed (use m(1) t b in simp_all)
qed

definition chain_stored :: "(block \<times> transaction list) list \<Rightarrow> store \<Rightarrow> bool" where
  "chain_stored ch db \<longleftrightarrow> store_ok db \<and> db_height db = length ch \<and> distinct (chain_images ch) \<and> m_spent_keys db = set (chain_images ch)
     \<and> (\<forall>i < length ch. map_of (m_blocks db) i = Some (block_to_blob (fst (ch ! i))) \<and> block_ok (fst (ch ! i)))
     \<and> (\<forall>h i. m_block_heights db h = Some i \<longleftrightarrow> chain_hash ch i = Some h)
     \<and> (\<forall>i. Suc i < length ch \<longrightarrow> chain_hash ch i = Some (prev_id (fst (ch ! Suc i))))"

lemma chain_hash_snoc: "chain_hash (ch @ [e]) i = (if i = length ch then get_block_hash (fst e) else chain_hash ch i)"
  by (auto simp: chain_hash_def nth_append)

lemma stored_chain_stored: "stored zc ch db \<Longrightarrow> chain_stored ch db"
proof (induction rule: stored.induct)
  case stored_empty
  show ?case by (simp add: chain_stored_def empty_store_ok) (simp add: empty_store_def db_height_def chain_images_def chain_hash_def)
next
  case (stored_add ch db blk txs sz diff coins n db')
  have ok: "store_ok db" "db_height db = length ch" "distinct (chain_images ch)" "m_spent_keys db = set (chain_images ch)"
    and bl: "\<And>i. i < length ch \<Longrightarrow> map_of (m_blocks db) i = Some (block_to_blob (fst (ch ! i))) \<and> block_ok (fst (ch ! i))"
    and hs: "\<And>h i. m_block_heights db h = Some i \<longleftrightarrow> chain_hash ch i = Some h"
    and ln: "\<And>i. Suc i < length ch \<Longrightarrow> chain_hash ch i = Some (prev_id (fst (ch ! Suc i)))"
    using stored_add.IH by (simp_all add: chain_stored_def)
  obtain h where f: "get_block_hash blk = Some h" "m_block_heights db h = None"
    "m_block_heights db' = (m_block_heights db)(h \<mapsto> length ch)"
    "0 < length ch \<longrightarrow> m_block_heights db (prev_id blk) = Some (length ch - 1)"
    "m_blocks db' = m_blocks db @ [(length ch, block_to_blob blk)]"
    "distinct (block_images (blk, txs))" "set (block_images (blk, txs)) \<inter> m_spent_keys db = {}"
    "m_spent_keys db' = m_spent_keys db \<union> set (block_images (blk, txs))"
    using add_block_frame [OF ok(1) stored_add.hyps(2,3)] unfolding ok(2) by blast
  have u: "store_ok db'" "db_height db' = Suc (length ch)" using add_block_undo [OF ok(1) stored_add.hyps(2,3)] ok(2) by simp_all
  have len: "length (m_blocks db) = length ch" using ok(2) by (simp add: db_height_def)
  have num: "numbered (m_blocks db)" using ok(1) by (simp add: store_ok_def)
  have blocks: "map_of (m_blocks db') i = Some (block_to_blob (fst ((ch @ [(blk, txs)]) ! i))) \<and> block_ok (fst ((ch @ [(blk, txs)]) ! i))"
    if "i < Suc (length ch)" for i
  proof (cases "i = length ch")
    case True
    then show ?thesis using f(5) map_of_numbered [OF num] len stored_add.hyps(2) by (simp add: storable_block_def)
  next
    case False
    then show ?thesis using that bl [of i] f(5) map_of_numbered_old [of i "m_blocks db" "block_to_blob blk"] len by (simp add: nth_append)
  qed
  have none: "chain_hash ch (length ch) = None" by (simp add: chain_hash_def)
  have heights: "m_block_heights db' g = Some i \<longleftrightarrow> chain_hash (ch @ [(blk, txs)]) i = Some g" for g i
    using hs [of g i] hs [of h i] f(1,2,3) none by (auto simp: chain_hash_snoc)
  have links: "chain_hash (ch @ [(blk, txs)]) i = Some (prev_id (fst ((ch @ [(blk, txs)]) ! Suc i)))" if "i < length ch" for i
  proof (cases "Suc i = length ch")
    case True
    then show ?thesis using f(4) hs [of "prev_id blk" i] that by (auto simp: chain_hash_snoc nth_append)
  next
    case False
    then show ?thesis using ln [of i] that by (simp add: chain_hash_snoc nth_append)
  qed
  show ?case unfolding chain_stored_def
    using u blocks heights links ok(3,4) f(6,7,8) by (auto simp: chain_images_def)
qed

subsection \<open>Correctness\<close>

definition example_first :: block where
  "example_first = (example_block 4 null_parent)\<lparr> block_txs := [] \<rparr>"

lemma example_first_storable: "storable_block example_first []"
proof -
  have m: "miner_tx example_first = example_coinbase []" by (simp add: example_first_def example_block_def)
  have "block_ok example_first"
    using example_coinbase_ok [of "[]" False]
    by (simp add: example_first_def block_ok_def header_ok_def example_block_def own_work_def merge_mined_def
          BLOCK_MAJOR_VERSION_8_def word_le_nat_alt)
  moreover have "storable_tx (example_coinbase [])" using example_coinbase_ok [of "[]" False]
    by (simp add: storable_tx_def) (simp add: example_coinbase_def)
  ultimately show ?thesis unfolding storable_block_def m by (simp add: example_first_def)
qed

lemma example_stored: "\<exists>db. stored zc [(example_first, [])] db"
proof -
  have "small_block example_first" using example_first_storable by (simp add: storable_block_def small_block_def example_first_def)
  then obtain h where h: "get_block_hash example_first = Some h"
    using block_hash_blob_parts by (auto simp: get_block_hash_def)
  have m: "miner_tx example_first = example_coinbase []" "block_txs example_first = []"
    by (simp_all add: example_first_def example_block_def)
  obtain db1 where db1: "add_transaction zc empty_store (example_coinbase []) (get_transaction_hash (example_coinbase [])) = Some db1"
    by (simp add: add_transaction_def example_coinbase_def empty_store_def add_transaction_data_def get_tx_count_def
        put_append_def stored_output_def add_output_def num_outputs_def)
  have "storable_tx (example_coinbase [])" using example_first_storable by (simp add: storable_block_def m)
  note f = add_transaction_frame [OF empty_store_ok this db1] add_transaction_undo [OF empty_store_ok this db1]
  have e: "m_blocks db1 = []" "m_block_heights db1 = (\<lambda>_. None)" using f(1) by (simp_all add: empty_store_def)
  then have "m_block_info db1 = []" using f(2) by (simp add: store_ok_def)
  then obtain db2 where "add_block_data db1 example_first 100 1 50 h = Some db2"
    using e by (simp add: add_block_data_def db_height_def put_append_def)
  then have "add_block zc empty_store example_first 100 1 50 [] = Some (db_height empty_store, db2)"
    by (simp add: add_block_def h m db1)
  from stored_add [OF stored_empty example_first_storable this] show ?thesis by auto
qed

text \<open> C39: popping inverts adding. In a store that any sequence of added blocks has left, popping
  returns the last block and its transactions in reverse order and leaves the store of the blocks
  before it: every table is as if the last block had never been added. Nothing is popped from an
  empty store.\<close>

theorem pop_inverts_add:
  assumes "stored zc ch db"
  shows "(ch = [] \<longrightarrow> pop_block db = None)
    \<and> (ch \<noteq> [] \<longrightarrow> (\<exists>db'. pop_block db = Some (fst (last ch), rev (snd (last ch)), db') \<and> stored zc (butlast ch) db'))"
  using assms
proof (cases rule: stored.cases)
  case stored_empty
  then show ?thesis by (simp add: pop_block_def empty_store_def db_height_def)
next
  case (stored_add ch0 db0 blk txs sz diff coins n)
  have "store_ok db0" using stored_chain_stored [OF stored_add(2)] by (simp add: chain_stored_def)
  from add_block_undo [OF this stored_add(3,4)] show ?thesis using stored_add(1,2) by auto
qed

theorem pop_inverts_add_witness:
  "\<exists>db db'. stored (\<lambda>_. []) [(example_first, [])] db \<and> pop_block db = Some (example_first, [], db') \<and> stored (\<lambda>_. []) [] db'"
  using example_stored [of "\<lambda>_. []"] pop_inverts_add [of "\<lambda>_. []" "[(example_first, [])]"] by fastforce

text \<open> C38: the main chain spends no key image twice. In every store that a sequence of added blocks
  has left, the key images of all transactions of the chain are distinct and are exactly the ones the
  database reports as spent; each block after the first refers to the hash of the block before it, and
  every block is found under its hash.\<close>

theorem main_chain_invariant:
  assumes "stored zc ch db"
  shows "db_height db = length ch \<and> distinct (chain_images ch)
    \<and> (\<forall>img. has_key_image db img \<longleftrightarrow> img \<in> set (chain_images ch))
    \<and> (\<forall>i. Suc i < length ch \<longrightarrow> get_block_hash (fst (ch ! i)) = Some (prev_id (fst (ch ! Suc i))))
    \<and> (\<forall>i h. i < length ch \<and> get_block_hash (fst (ch ! i)) = Some h \<longrightarrow> get_block db h = Some (fst (ch ! i)))"
proof -
  have c: "chain_stored ch db" by (rule stored_chain_stored [OF assms])
  have "get_block db h = Some (fst (ch ! i))" if "i < length ch" "get_block_hash (fst (ch ! i)) = Some h" for i h
  proof -
    have "m_block_heights db h = Some i" using c that by (simp add: chain_stored_def chain_hash_def)
    moreover have "map_of (m_blocks db) i = Some (block_to_blob (fst (ch ! i)))" "block_ok (fst (ch ! i))"
      using c that(1) by (simp_all add: chain_stored_def)
    ultimately show ?thesis by (simp add: get_block_def get_block_from_height_def parse_block_back)
  qed
  then show ?thesis using c by (auto simp: chain_stored_def has_key_image_def chain_hash_def)
qed

theorem main_chain_invariant_witness:
  "\<exists>db. stored (\<lambda>_. []) [(example_first, [])] db \<and> db_height db = 1 \<and> \<not> has_key_image db (replicate 32 7)"
proof -
  obtain db where db: "stored (\<lambda>_. []) [(example_first, [])] db" using example_stored by blast
  have "chain_images [(example_first, [])] = []"
    by (simp add: chain_images_def block_images_def example_first_def example_block_def example_coinbase_def)
  with main_chain_invariant [OF db] db show ?thesis by auto
qed

subsection \<open>Which blocks are added\<close>

text \<open>
  The outputs that \<open>add_output\<close> stores: they pay to a key, an output of a ring transaction has its
  commitment, and an output of an old transaction has an amount.
\<close>

definition outputs_storable :: "transaction \<Rightarrow> bool" where
  "outputs_storable tx \<longleftrightarrow> (\<forall>i < length (vout tx). (\<exists>k. target (vout tx ! i) = Txout_to_key k)
     \<and> (if version tx > 1 then list_ex is_gen (vin tx) \<and> version tx = 2 \<or> i < length (outPk (rct_signatures tx))
        else out_amount (vout tx ! i) \<noteq> 0))"

definition block_tx_ids :: "block \<times> transaction list \<Rightarrow> blob list" where
  "block_tx_ids e = get_transaction_hash (miner_tx (fst e)) # block_txs (fst e)"

definition chain_tx_ids :: "(block \<times> transaction list) list \<Rightarrow> blob list" where
  "chain_tx_ids ch = concat (map block_tx_ids ch)"

lemma add_output_iff:
  "outs_ok t \<Longrightarrow> (\<exists>r. add_output t hgt h vo i u c = Some r) \<longleftrightarrow> (\<exists>k. target vo = Txout_to_key k) \<and> (out_amount vo = 0 \<longrightarrow> c \<noteq> None)"
  by (cases "target vo") (auto simp: add_output_def outs_ok_def num_outputs_def put_append_numbered Let_def)

lemma stored_output_iff:
  "(\<exists>k. target (vout tx ! i) = Txout_to_key k)
     \<and> (if version tx > 1 then mi \<and> version tx = 2 \<or> i < length (outPk (rct_signatures tx)) else out_amount (vout tx ! i) \<noteq> 0)
   \<longleftrightarrow> (\<exists>vo c. stored_output zc mi tx i = Some (vo, c) \<and> (\<exists>k. target vo = Txout_to_key k) \<and> (out_amount vo = 0 \<longrightarrow> c \<noteq> None))"
  by (auto simp: stored_output_def Let_def)

lemma add_outputs_iff:
  assumes "amounts_agree mi tx" "outs_ok t"
  shows "(\<exists>r. add_outputs zc mi hgt h tx n t = Some r) \<longleftrightarrow> (\<forall>i < n. \<exists>vo c. stored_output zc mi tx i = Some (vo, c)
    \<and> (\<exists>k. target vo = Txout_to_key k) \<and> (out_amount vo = 0 \<longrightarrow> c \<noteq> None))"
proof (induction n)
  case (Suc n)
  have "(\<exists>r. add_outputs zc mi hgt h tx (Suc n) t = Some r) \<longleftrightarrow> (\<exists>r. add_outputs zc mi hgt h tx n t = Some r)
      \<and> (\<exists>vo c. stored_output zc mi tx n = Some (vo, c) \<and> (\<exists>k. target vo = Txout_to_key k) \<and> (out_amount vo = 0 \<longrightarrow> c \<noteq> None))"
  proof (cases "add_outputs zc mi hgt h tx n t")
    case (Some r)
    obtain idx t1 where r: "r = (idx, t1)" by (cases r)
    have "outs_ok t1" using add_outputs_undo [OF assms, of zc hgt h n idx t1] Some r by blast
    note out = add_output_iff [OF this, of hgt h _ n "unlock_time tx"]
    show ?thesis
    proof (cases "stored_output zc mi tx n")
      case s: (Some p)
      obtain vo c where p: "p = (vo, c)" by (cases p)
      have "(\<exists>r. add_outputs zc mi hgt h tx (Suc n) t = Some r) \<longleftrightarrow> (\<exists>r. add_output t1 hgt h vo n (unlock_time tx) c = Some r)"
        by (cases "add_output t1 hgt h vo n (unlock_time tx) c") (auto simp: Some r s p)
      then show ?thesis unfolding out by (simp add: Some s p)
    qed (simp add: Some r)
  qed simp
  with Suc.IH show ?case by (auto simp: less_Suc_eq)
qed simp

lemma add_transaction_iff:
  assumes "store_ok db" "storable_tx tx"
  shows "(\<exists>db'. add_transaction zc db tx h = Some db') \<longleftrightarrow> distinct (images (vin tx)) \<and> set (images (vin tx)) \<inter> m_spent_keys db = {}
    \<and> m_tx_indices db h = None \<and> outputs_storable tx"
proof -
  let ?mi = "list_ex is_gen (vin tx)"
  have sup: "list_all supported (vin tx)" using assms(2) by (simp add: storable_tx_def)
  have n: "numbered (m_txs db)" "numbered (m_tx_outputs db)" "length (m_tx_outputs db) = length (m_txs db)" "outs_ok (m_outs db)"
    using assms(1) by (simp_all add: store_ok_def)
  have put: "put_append (length (m_txs db)) v (m_tx_outputs db) = Some (m_tx_outputs db @ [(length (m_txs db), v)])" for v
    using put_append_numbered [OF n(2)] n(3) by simp
  have o: "outputs_storable tx \<longleftrightarrow> (\<exists>r. add_outputs zc ?mi (db_height db) h tx (length (vout tx)) (m_outs db) = Some r)"
    unfolding outputs_storable_def stored_output_iff [of tx _ ?mi zc] add_outputs_iff [OF storable_amounts [OF assms(2)] n(4)] ..
  show ?thesis unfolding o
    by (auto simp: add_transaction_def spend_inputs_exact [OF sup] add_transaction_data_def get_tx_count_def Let_def
        put_append_numbered [OF n(1)] put db_height_def Option.bind_eq_Some_conv split: if_splits)
qed

lemma add_transaction_indices:
  "store_ok db \<Longrightarrow> storable_tx tx \<Longrightarrow> add_transaction zc db tx h = Some db' \<Longrightarrow> dom (m_tx_indices db') = insert h (dom (m_tx_indices db))"
  by (erule (2) add_transaction_cases) simp

lemma add_transactions_iff:
  assumes "store_ok db" "list_all storable_tx (map snd txs)"
  shows "(\<exists>db'. add_transactions zc txs db = Some db') \<longleftrightarrow> distinct (concat (map (\<lambda>tx. images (vin tx)) (map snd txs)))
    \<and> set (concat (map (\<lambda>tx. images (vin tx)) (map snd txs))) \<inter> m_spent_keys db = {}
    \<and> distinct (map fst txs) \<and> set (map fst txs) \<inter> dom (m_tx_indices db) = {} \<and> list_all outputs_storable (map snd txs)"
  using assms
proof (induction txs arbitrary: db)
  case (Cons e txs)
  obtain h tx where e: "e = (h, tx)" by (cases e)
  have tx: "storable_tx tx" "list_all storable_tx (map snd txs)" using Cons.prems(2) by (simp_all add: e)
  show ?case
  proof (cases "add_transaction zc db tx h")
    case None
    then show ?thesis using add_transaction_iff [OF Cons.prems(1) tx(1), of zc h] by (auto simp: e)
  next
    case (Some db1)
    have "store_ok db1" using add_transaction_undo [OF Cons.prems(1) tx(1) Some] by blast
    from Cons.IH [OF this tx(2)] show ?thesis
      using add_transaction_iff [OF Cons.prems(1) tx(1), of zc h] add_transaction_frame [OF Cons.prems(1) tx(1) Some]
        add_transaction_indices [OF Cons.prems(1) tx(1) Some] by (auto simp: e Some)
  qed
qed simp

lemma add_transactions_indices:
  "store_ok db \<Longrightarrow> list_all storable_tx (map snd txs) \<Longrightarrow> add_transactions zc txs db = Some db' \<Longrightarrow>
     dom (m_tx_indices db') = set (map fst txs) \<union> dom (m_tx_indices db)"
proof (induction txs arbitrary: db)
  case (Cons e txs)
  obtain h tx where e: "e = (h, tx)" by (cases e)
  obtain db1 where db1: "add_transaction zc db tx h = Some db1" "add_transactions zc txs db1 = Some db'"
    using Cons.prems(3) by (auto simp: e Option.bind_eq_Some_conv)
  have tx: "storable_tx tx" using Cons.prems(2) by (simp add: e)
  have "store_ok db1" using add_transaction_undo [OF Cons.prems(1) tx db1(1)] by blast
  from Cons.IH [OF this _ db1(2)] Cons.prems(2) add_transaction_indices [OF Cons.prems(1) tx db1(1)] show ?case by (simp add: e)
qed simp

lemma add_block_data_iff:
  assumes "store_ok db"
  shows "(\<exists>db'. add_block_data db blk sz diff coins h = Some db') \<longleftrightarrow> m_block_heights db h = None
    \<and> (0 < db_height db \<longrightarrow> m_block_heights db (prev_id blk) = Some (db_height db - 1))"
proof -
  have n: "numbered (m_blocks db)" "numbered (m_block_info db)" "length (m_block_info db) = length (m_blocks db)"
    using assms by (simp_all add: store_ok_def)
  have "put_append (length (m_blocks db)) v (m_block_info db) \<noteq> None" for v using put_append_numbered [OF n(2), of v] n(3) by simp
  then show ?thesis using put_append_numbered [OF n(1)] by (auto simp: add_block_data_def Let_def db_height_def Option.bind_eq_Some_conv)
qed

lemma add_block_iff:
  assumes "store_ok db" "storable_block blk txs"
  shows "(\<exists>n db'. add_block zc db blk sz diff coins txs = Some (n, db')) \<longleftrightarrow>
    (\<exists>h. get_block_hash blk = Some h \<and> m_block_heights db h = None)
    \<and> (0 < db_height db \<longrightarrow> m_block_heights db (prev_id blk) = Some (db_height db - 1))
    \<and> distinct (block_images (blk, txs)) \<and> set (block_images (blk, txs)) \<inter> m_spent_keys db = {}
    \<and> distinct (block_tx_ids (blk, txs)) \<and> set (block_tx_ids (blk, txs)) \<inter> dom (m_tx_indices db) = {}
    \<and> list_all outputs_storable (miner_tx blk # txs)"
proof -
  let ?t = "miner_tx blk" and ?h = "get_transaction_hash (miner_tx blk)" and ?z = "zip (block_txs blk) txs"
  have ok: "storable_tx ?t" "list_all storable_tx txs" "length txs = length (block_txs blk)"
    using assms(2) by (simp_all add: storable_block_def)
  have z: "map fst ?z = block_txs blk" "map snd ?z = txs" using ok(3) by simp_all
  show ?thesis
  proof (cases "add_transaction zc db ?t ?h")
    case None
    then show ?thesis using add_transaction_iff [OF assms(1) ok(1), of zc ?h]
      by (auto simp: add_block_def block_images_def block_tx_ids_def)
  next
    case m: (Some db1)
    have s1: "store_ok db1" using add_transaction_undo [OF assms(1) ok(1) m] by blast
    note f1 = add_transaction_iff [OF assms(1) ok(1), of zc ?h] add_transaction_frame [OF assms(1) ok(1) m]
      add_transaction_indices [OF assms(1) ok(1) m]
    note i = add_transactions_iff [of db1 ?z zc, unfolded z, OF s1 ok(2)]
    show ?thesis
    proof (cases "add_transactions zc ?z db1")
      case None
      then show ?thesis using i f1 m ok(3) by (auto simp: add_block_def block_images_def block_tx_ids_def)
    next
      case (Some db2)
      have s2: "store_ok db2" using add_transactions_undo [of db1 ?z zc db2, unfolded z, OF s1 ok(2) Some] by blast
      have f2: "m_blocks db2 = m_blocks db1" "m_block_heights db2 = m_block_heights db1"
        using add_transactions_frame [of db1 ?z zc db2, unfolded z, OF s1 ok(2) Some] by simp_all
      have h2: "db_height db2 = db_height db" using f2 f1 by (simp add: db_height_def)
      have "(\<exists>n db'. add_block zc db blk sz diff coins txs = Some (n, db')) \<longleftrightarrow>
          (\<exists>h. get_block_hash blk = Some h \<and> (\<exists>db'. add_block_data db2 blk sz diff coins h = Some db'))"
        using m Some ok(3) by (auto simp: add_block_def Option.bind_eq_Some_conv)
      also have "\<dots> \<longleftrightarrow> (\<exists>h. get_block_hash blk = Some h \<and> m_block_heights db h = None)
          \<and> (0 < db_height db \<longrightarrow> m_block_heights db (prev_id blk) = Some (db_height db - 1))"
        unfolding add_block_data_iff [OF s2] h2 using f2 f1 by auto
      finally show ?thesis using i f1 m Some by (auto simp: block_images_def block_tx_ids_def)
    qed
  qed
qed

lemma stored_tx_ids: "stored zc ch db \<Longrightarrow> dom (m_tx_indices db) = set (chain_tx_ids ch) \<and> distinct (chain_tx_ids ch)"
proof (induction rule: stored.induct)
  case stored_empty
  show ?case by (simp add: empty_store_def chain_tx_ids_def)
next
  case (stored_add ch db blk txs sz diff coins n db')
  have ok: "storable_tx (miner_tx blk)" "list_all storable_tx txs" "length txs = length (block_txs blk)"
    using stored_add.hyps(2) by (simp_all add: storable_block_def)
  have sk: "store_ok db" using stored_chain_stored [OF stored_add.hyps(1)] by (simp add: chain_stored_def)
  obtain h db1 db2 where st: "add_transaction zc db (miner_tx blk) (get_transaction_hash (miner_tx blk)) = Some db1"
    "add_transactions zc (zip (block_txs blk) txs) db1 = Some db2" "add_block_data db2 blk sz diff coins h = Some db'"
    by (rule add_block_steps [OF stored_add.hyps(3)])
  have z: "map fst (zip (block_txs blk) txs) = block_txs blk" "map snd (zip (block_txs blk) txs) = txs" using ok(3) by simp_all
  have s1: "store_ok db1" using add_transaction_undo [OF sk ok(1) st(1)] by blast
  have "m_tx_indices db' = m_tx_indices db2"
    using st(3) by (auto simp: add_block_data_def Let_def Option.bind_eq_Some_conv split: if_splits)
  then have "dom (m_tx_indices db') = set (block_tx_ids (blk, txs)) \<union> dom (m_tx_indices db)"
    using add_transaction_indices [OF sk ok(1) st(1)] add_transactions_indices [of db1 "zip (block_txs blk) txs", unfolded z, OF s1 ok(2) st(2)]
    by (auto simp: block_tx_ids_def)
  moreover have "distinct (block_tx_ids (blk, txs)) \<and> set (block_tx_ids (blk, txs)) \<inter> dom (m_tx_indices db) = {}"
    using add_block_iff [OF sk stored_add.hyps(2), of zc sz diff coins] stored_add.hyps(3) by blast
  ultimately show ?case using stored_add.IH by (auto simp: chain_tx_ids_def)
qed

text \<open> C40: the database accepts exactly the blocks that fit. In a store that any sequence of added
  blocks has left, a well-formed block is added if and only if its hash is new, it refers to the hash
  of the last block (if there is one), no key image of its transactions occurs twice or was spent in the chain, no
  transaction id of it occurs twice or is in the chain, and its outputs can be stored.\<close>

theorem add_block_exact:
  assumes "stored zc ch db" "storable_block blk txs"
  shows "(\<exists>n db'. add_block zc db blk sz diff coins txs = Some (n, db')) \<longleftrightarrow>
    (\<exists>h. get_block_hash blk = Some h \<and> (\<forall>e \<in> set ch. get_block_hash (fst e) \<noteq> Some h))
    \<and> (ch \<noteq> [] \<longrightarrow> get_block_hash (fst (last ch)) = Some (prev_id blk))
    \<and> distinct (chain_images (ch @ [(blk, txs)])) \<and> distinct (chain_tx_ids (ch @ [(blk, txs)]))
    \<and> list_all outputs_storable (miner_tx blk # txs)"
proof -
  have c: "store_ok db" "db_height db = length ch" "distinct (chain_images ch)" "m_spent_keys db = set (chain_images ch)"
    and hs: "\<And>h i. m_block_heights db h = Some i \<longleftrightarrow> chain_hash ch i = Some h"
    using stored_chain_stored [OF assms(1)] by (simp_all add: chain_stored_def)
  have new: "m_block_heights db h = None \<longleftrightarrow> (\<forall>e \<in> set ch. get_block_hash (fst e) \<noteq> Some h)" for h
  proof -
    have "m_block_heights db h = None \<longleftrightarrow> (\<forall>i. chain_hash ch i \<noteq> Some h)" using hs [of h] by (metis not_None_eq)
    also have "\<dots> \<longleftrightarrow> (\<forall>i < length ch. get_block_hash (fst (ch ! i)) \<noteq> Some h)" by (auto simp: chain_hash_def split: if_splits)
    finally show ?thesis by (simp add: all_set_conv_all_nth)
  qed
  have tip: "(0 < db_height db \<longrightarrow> m_block_heights db (prev_id blk) = Some (db_height db - 1)) \<longleftrightarrow>
      (ch \<noteq> [] \<longrightarrow> get_block_hash (fst (last ch)) = Some (prev_id blk))"
    by (cases "ch = []") (simp_all add: c(2) hs chain_hash_def last_conv_nth)
  show ?thesis
    unfolding add_block_iff [OF c(1) assms(2)] new tip using c(3,4) stored_tx_ids [OF assms(1)]
    by (auto simp: chain_images_def chain_tx_ids_def)
qed

definition example_spend :: transaction where
  "example_spend = example_tx\<lparr> vin := vin example_tx @ vin example_tx, signatures := signatures example_tx @ signatures example_tx \<rparr>"

lemma example_spend_storable: "storable_block (example_first\<lparr> block_txs := [replicate 32 3] \<rparr>) [example_spend]"
proof -
  have "storable_tx example_spend"
    using example_tx_ok by (simp add: storable_tx_def example_spend_def example_tx_def tx_ok_def prefix_ok_def)
  moreover have "block_ok (example_first\<lparr> block_txs := [replicate 32 3] \<rparr>) \<and> storable_tx (miner_tx (example_first\<lparr> block_txs := [replicate 32 3] \<rparr>))"
    using example_first_storable by (simp add: storable_block_def block_ok_def header_ok_def)
  ultimately show ?thesis by (simp add: storable_block_def)
qed

theorem add_block_exact_witness:
  "(\<exists>n db'. add_block (\<lambda>_. []) empty_store example_first 100 1 50 [] = Some (n, db'))
   \<and> add_block (\<lambda>_. []) empty_store (example_first\<lparr> block_txs := [replicate 32 3] \<rparr>) 100 1 50 [example_spend] = None"
proof
  have "small_block example_first" using example_first_storable by (simp add: storable_block_def small_block_def example_first_def)
  then obtain h where h: "get_block_hash example_first = Some h"
    using block_hash_blob_parts by (auto simp: get_block_hash_def)
  show "\<exists>n db'. add_block (\<lambda>_. []) empty_store example_first 100 1 50 [] = Some (n, db')"
    by (rule add_block_exact [OF stored_empty example_first_storable, THEN iffD2])
      (use h in \<open>simp add: chain_images_def chain_tx_ids_def block_images_def block_tx_ids_def outputs_storable_def
        example_first_def example_block_def example_coinbase_def\<close>)
  have "\<not> distinct (chain_images ([] @ [(example_first\<lparr> block_txs := [replicate 32 3] \<rparr>, [example_spend])]))"
    by (simp add: chain_images_def block_images_def example_spend_def example_tx_def example_first_def example_block_def example_coinbase_def)
  then show "add_block (\<lambda>_. []) empty_store (example_first\<lparr> block_txs := [replicate 32 3] \<rparr>) 100 1 50 [example_spend] = None"
    using add_block_exact [OF stored_empty example_spend_storable, of "\<lambda>_. []" 100 1 50] by (metis not_None_eq prod.exhaust)
qed

text \<open>
  An unsupported input makes \<open>add_transaction\<close> take back the key images of all inputs, also of those
  after it, which it has not added: a key image that was spent before is then no longer spent.
\<close>

lemma unsupported_input_unspends:
  assumes "vin tx = [Txin_to_script p n sg, Txin_to_key i]"
  shows "add_transaction zc db tx h = Some (db\<lparr> m_spent_keys := m_spent_keys db - {k_image i} \<rparr>)"
  using assms by (simp add: add_transaction_def)

end
