(* ===== verification/Blockchain.thy ===== *)
theory Blockchain
  imports Block_Reward Checkpoints Hard_Fork Pool_Invariant Chain_View Block_Store
begin

text \<open>
  The main chain (\<open>cryptonote_core/blockchain.cpp\<close>): a block is checked and connected to the tip, or
  kept as an alternative; a heavier alternative replaces the end of the main chain; a failed switch
  puts the old blocks back. The state joins the database, the transaction pool, the fork votes, the
  cached difficulty window and the two collections of blocks that are not on the main chain.

  The ring signatures (\<open>check_tx_inputs\<close>), the slow hashes, the commitments, the clock and what the
  pool asks the chain are members of the environment. An exception that leaves a handler is
  \<open>None\<close>. The tables of precomputed block hashes and long hashes are state that other code fills.
\<close>

subsection \<open>State\<close>



text \<open>The cumulative size and the coins of an entry are never read and are left out.\<close>

record block_extended_info =
  bei_bl :: block
  bei_height :: nat
  bei_cumulative_difficulty :: u64

record blockchain =
  bc_db :: store
  bc_tx_pool :: tx_memory_pool
  bc_hardfork :: hard_fork
  bc_difficulties :: difficulty_cache
  alternative_chains :: "(blob \<times> block_extended_info) list"
  invalid_blocks :: "(blob \<times> block_extended_info) list"
  blocks_longhash_table :: "(blob \<times> blob) list"
  blocks_hash_check :: "blob list"
  blocks_txs_check :: "blob list"
  current_block_cumul_sz_limit :: u64

record chain_env =
  env_zeroCommit :: "u64 \<Rightarrow> blob"
  env_slow :: slow_hashes
  env_genesis :: "blob option"
  env_lwma_v4 :: "u64 list \<Rightarrow> u64 list \<Rightarrow> u64 option"
  env_now :: u64
  env_checkpoints :: checkpoints
  env_chain :: "store \<Rightarrow> chain"
  env_check_tx_inputs :: "store \<Rightarrow> transaction \<Rightarrow> bool"

subsection \<open>Reading the state\<close>






definition block_id :: "block \<Rightarrow> blob" where
  "block_id b = (case get_block_hash b of None \<Rightarrow> null_hash | Some h \<Rightarrow> h)"




definition add_block_as_invalid :: "blockchain \<Rightarrow> block_extended_info \<Rightarrow> blob \<Rightarrow> blockchain" where
  "add_block_as_invalid s bei h =
     (if map_of (invalid_blocks s) h \<noteq> None then s else s\<lparr> invalid_blocks := (h, bei) # invalid_blocks s \<rparr>)"


definition CRYPTONOTE_MINED_MONEY_UNLOCK_WINDOW :: u64 where "CRYPTONOTE_MINED_MONEY_UNLOCK_WINDOW = 60"


definition prevalidate_miner_transaction :: "block \<Rightarrow> u64 \<Rightarrow> bool" where
  "prevalidate_miner_transaction b height =
     (case vin (miner_tx b) of
        [Txin_gen h] \<Rightarrow> h = height \<and> unlock_time (miner_tx b) = height + CRYPTONOTE_MINED_MONEY_UNLOCK_WINDOW
          \<and> check_outs_overflow (miner_tx b)
      | _ \<Rightarrow> False)"

subsection \<open>Transactions between the pool and the chain\<close>





subsection \<open>The main chain\<close>

text \<open>The two block ids that are accepted without a check of their work.\<close>

definition exempt_blocks :: "blob list" where
  "exempt_blocks =
     [[0x62, 0xae, 0xbe, 0x7a, 0x29, 0xa3, 0xe8, 0x8b, 0x54, 0x7e, 0x41, 0x7c, 0xa1, 0x62, 0xc4, 0x36,
       0xa6, 0xaa, 0x60, 0x14, 0xba, 0xfe, 0xdc, 0xb8, 0x46, 0xef, 0x76, 0x2e, 0x8b, 0x98, 0xdf, 0xf0],
      [0xa7, 0x80, 0x16, 0x71, 0xed, 0x1f, 0xd9, 0x87, 0x2b, 0xbf, 0x33, 0x0f, 0xd0, 0xfa, 0xa2, 0xb5,
       0xb6, 0xf5, 0xe6, 0x78, 0x30, 0x8f, 0x4a, 0xc8, 0xad, 0xdb, 0xc9, 0xe0, 0x3e, 0xdf, 0xfe, 0xcb]]"

text \<open>The result and \<open>fast_check\<close>.\<close>

definition check_block_work :: "chain_env \<Rightarrow> blockchain \<Rightarrow> block \<Rightarrow> blob \<Rightarrow> u64 \<Rightarrow> (bool \<times> bool) option" where
  "check_block_work env s bl h current_diffic =
     (let height = db_height (bc_db s)
      in if height < length (blocks_hash_check s) then Some (block_id bl = blocks_hash_check s ! height, True)
         else if h \<in> set exempt_blocks then Some (True, False)
         else case map_of (blocks_longhash_table s) h of
           Some proof_of_work \<Rightarrow> Some (check_hash proof_of_work current_diffic, False)
         | None \<Rightarrow> do { ok \<leftarrow> check_proof_of_work (env_slow env) (env_genesis env) bl current_diffic (of_nat height);
                        Some (ok, False) })"






subsection \<open>Popping, rollback and switching\<close>

text \<open>The cached difficulty window is dropped.\<close>

definition reset_cache :: "blockchain \<Rightarrow> blockchain" where
  "reset_cache s = s\<lparr> bc_difficulties := (bc_difficulties s)\<lparr> m_timestamps_and_difficulties_height := 0 \<rparr> \<rparr>"











subsection \<open>Alternative blocks\<close>











subsection \<open>The transactions of the pool\<close>

text \<open>
  A weaker invariant of the pool, which needs no assumption on the hashes of transactions: every
  entry is a well-formed transaction stored under its hash.
\<close>

definition entries_ok :: "tx_memory_pool \<Rightarrow> bool" where
  "entries_ok p \<longleftrightarrow> list_all entry_ok (pool_txs p)"

definition good_tx :: "transaction \<Rightarrow> bool" where
  "good_tx tx \<longleftrightarrow> tx_ok False tx \<and> tx_wf tx"











subsection \<open>The invariant of the chain\<close>

definition coinbase_at :: "nat \<Rightarrow> block \<Rightarrow> bool" where
  "coinbase_at i b \<longleftrightarrow> vin (miner_tx b) = [Txin_gen (of_nat i)]
     \<and> unlock_time (miner_tx b) = of_nat i + CRYPTONOTE_MINED_MONEY_UNLOCK_WINDOW \<and> check_outs_overflow (miner_tx b)"

text \<open>\<open>chain_ok env ch s\<close>: the main chain of the state is \<open>ch\<close>, a list of blocks with their transactions.\<close>

definition chain_ok :: "chain_env \<Rightarrow> (block \<times> transaction list) list \<Rightarrow> blockchain \<Rightarrow> bool" where
  "chain_ok env ch s \<longleftrightarrow> stored (env_zeroCommit env) ch (bc_db s) \<and> list_all (\<lambda>e. list_all good_tx (snd e)) ch
     \<and> (\<forall>i < length ch. coinbase_at i (fst (ch ! i))) \<and> entries_ok (bc_tx_pool s)
     \<and> list_all (\<lambda>a. block_ok (bei_bl (snd a))) (alternative_chains s)"




lemma prevalidate_coinbase: "prevalidate_miner_transaction b (of_nat i) \<Longrightarrow> coinbase_at i b"
  unfolding prevalidate_miner_transaction_def coinbase_at_def
  by (cases "vin (miner_tx b)"; cases "hd (vin (miner_tx b))"; cases "tl (vin (miner_tx b))") auto





lemma invalid_frame [simp]:
  "bc_db (add_block_as_invalid s bei h) = bc_db s" "bc_tx_pool (add_block_as_invalid s bei h) = bc_tx_pool s"
  "alternative_chains (add_block_as_invalid s bei h) = alternative_chains s"
  "bc_hardfork (add_block_as_invalid s bei h) = bc_hardfork s"
  by (simp_all add: add_block_as_invalid_def)


lemma check_block_work_cache [simp]: "check_block_work env (s\<lparr> bc_difficulties := c \<rparr>) bl h d = check_block_work env s bl h d"
  by (simp add: check_block_work_def Let_def)










subsection \<open>Every handler keeps the invariant\<close>

lemma reset_simps [simp]:
  "bc_db (reset_cache s) = bc_db s" "bc_tx_pool (reset_cache s) = bc_tx_pool s" "alternative_chains (reset_cache s) = alternative_chains s"
  by (simp_all add: reset_cache_def)

lemma chain_ok_reset [simp]: "chain_ok env ch (reset_cache s) = chain_ok env ch s"
  by (simp add: chain_ok_def)























subsection \<open>Reachable states\<close>




subsection \<open>Correctness\<close>



text \<open>A first block that an empty node connects: its hash is the precomputed one, its coinbase claims 6 units.\<close>

definition example_genesis :: block where
  "example_genesis = example_first\<lparr> minor_version := 4, prev_id := replicate 32 0, miner_tx := (example_coinbase [])\<lparr> vin := [Txin_gen 0] \<rparr> \<rparr>"






lemma genesis_reward: "sz \<le> 1000 \<Longrightarrow> validate_miner_transaction [6] [] sz 0 0 0 4 = Some (True, 6, True)"
  by (simp add: validate_miner_transaction_def get_block_reward_def median_def block_base_reward_def Let_def DIFFICULTY_TARGET_V2_def
      DIFFICULTY_TARGET_V1_def MONEY_SUPPLY_def get_min_block_size_def CRYPTONOTE_BLOCK_GRANTED_FULL_REWARD_ZONE_V2_def
      EMISSION_SPEED_FACTOR_PER_MINUTE_def FINAL_SUBSIDY_PER_MINUTE_def order_trans [of sz 1000])












text \<open> C15: a coinbase that passes both validations pays at most what it may. Its outputs, added as
  numbers, are within the subsidy granted for the size of the block plus the fees, and the reward
  recorded for the block is never above the subsidy. When the subsidy and the fees together fit in 64
  bits, that reward is exactly what the outputs pay beyond the fees, and the block is marked partial
  exactly when they pay less than they might.\<close>

theorem coinbase_bounded:
  fixes bl :: block
  defines "paid \<equiv> sum_list (map (\<lambda>out. unat (out_amount out)) (vout (miner_tx bl)))"
  assumes "prevalidate_miner_transaction bl height"
    and "validate_miner_transaction (map out_amount (vout (miner_tx bl))) sizes block_size fee old coins hf = Some (True, claimed, partial)"
  shows "\<exists>granted. get_block_reward (median sizes) block_size coins hf old = Some (True, granted) \<and> claimed \<le> granted
    \<and> paid \<le> unat granted + unat fee
    \<and> (unat granted + unat fee < 2 ^ 64 \<longrightarrow> unat claimed + unat fee = paid \<and> (partial \<longleftrightarrow> paid < unat granted + unat fee))"
proof -
  have "coinbase_at (unat height) bl" by (rule prevalidate_coinbase) (simp add: assms(2))
  then have "check_outs_overflow (miner_tx bl)" by (simp add: coinbase_at_def)
  then have "sum_list (map unat (map out_amount (vout (miner_tx bl)))) < 2 ^ 64"
    by (simp add: check_outs_overflow_def outs_overflow_loop_iff o_def)
  from validate_miner_value [OF assms(3) this] show ?thesis by (simp add: paid_def o_def)
qed

theorem coinbase_bounded_witness:
  "\<exists>granted. get_block_reward (median []) 100 0 4 0 = Some (True, granted) \<and> (6 :: u64) \<le> granted
     \<and> sum_list (map (\<lambda>out. unat (out_amount out)) (vout (miner_tx example_genesis))) \<le> unat granted"
proof -
  have p: "prevalidate_miner_transaction example_genesis 0"
    by (simp add: prevalidate_miner_transaction_def example_genesis_def example_coinbase_def CRYPTONOTE_MINED_MONEY_UNLOCK_WINDOW_def
        check_outs_overflow_def)
  have "validate_miner_transaction (map out_amount (vout (miner_tx example_genesis))) [] 100 0 0 0 4 = Some (True, 6, True)"
    using genesis_reward [of 100] by (simp add: example_genesis_def example_coinbase_def)
  from coinbase_bounded [OF p this] show ?thesis by auto
qed

end
