(* ===== verification/Spec2Isabelle.thy ===== *)
theory Spec2Isabelle
  imports Int_Util Varint Keccak Base58 Tree_Hash Difficulty Block_Reward Hard_Fork Checkpoints Block_Queue
    Transaction Tx_Extra Tx_Format Core_Tx Pool_Template Chain_View Block_Store Blockchain
begin

text \<open>
  A verification development for the node of a CryptoNote currency (the sources are under
  \<open>src/\<close>; file names below are relative to \<open>src/src/\<close>).

  The program and its parts. A node keeps a chain of blocks. A block carries a coinbase and a list
  of transaction hashes; transactions travel as binary blobs and wait in a pool until a block takes
  them. Hashes, difficulty, block versions and checkpoints decide which block extends the chain; a
  heavier alternative chain replaces the end of the main chain; the reward rules limit the coins a
  coinbase creates; the database keeps the blocks, the transactions, the outputs and the spent key
  images; the block queue shares the download of missing blocks between connections.

  Conventions. Machine integers are words of their width and wrap around (\<open>u8\<close>, \<open>u32\<close>, \<open>u64\<close>); a byte
  buffer or string of bytes is a \<open>blob\<close>, a list of bytes. A function that can trap (division by
  zero, an out-of-range access, a failed assertion, an exception) returns an option; a boolean
  return value with output parameters is a pair. Object state is passed explicitly. Loops are
  structural recursions or functions with a termination proof. Three loops carry a counter. The walk
  along alternative blocks gets as many steps as there are alternative blocks, and popping down to the
  split gets the height of the chain; both are the most steps the loop can take, and beyond them the
  code loops forever or throws. The nesting of switches inside \<open>handle_alternative_block\<close> is bounded by
  an argument, over which the theorems quantify.

  Theories.

  \<^item> \<open>Cn_Prelude\<close>: the word and byte types and the arithmetic lemmas on them (collection
    \<open>unat_rules\<close>).
  \<^item> \<open>Ordered_Set\<close>: \<open>std::set\<close> and \<open>std::map\<close> as lists strictly sorted by a key, with the contract
    \<open>ordered_set\<close> that the block queue uses. \<open>Decimal\<close>: decimal numbers as text.
  \<^item> \<open>Int_Util\<close> (\<open>common/int-util.h\<close>): rotations, byte swaps, 64 by 64 bit multiplication and 128 by
    32 bit division; the multiplication and the division are exact.
  \<^item> \<open>Varint\<close> (\<open>common/varint.h\<close>): what is written is read back, and only canonical encodings are
    accepted up to a terminating byte (contract \<open>varint_codec\<close>).
  \<^item> \<open>Keccak\<close> (\<open>crypto/keccak.c\<close>, \<open>crypto/hash.c\<close>): the in-place permutation is the composition of the
    standard's step maps, and \<open>cn_fast_hash\<close> is the sponge over the padded message (contract
    \<open>fast_hash\<close>, which the later components use).
  \<^item> \<open>Base58\<close> (\<open>common/base58.cpp\<close>): encoding and decoding of blocks and addresses, in both
    directions.
  \<^item> \<open>Tree_Hash\<close> (\<open>crypto/tree-hash.c\<close>): the array algorithm computes the root of a binary tree, and a
    branch leads from a leaf back to that root.
  \<^item> \<open>Difficulty\<close> (\<open>cryptonote_basic/difficulty.cpp\<close>): the proof-of-work test as an inequality on
    the 256-bit number, with either version of the wide multiplication (contract \<open>wide_mul\<close>), and the
    retargeting rules with their limits.
  \<^item> \<open>Block_Reward\<close> (\<open>cryptonote_basic/cryptonote_basic_impl.cpp\<close>, \<open>cryptonote_core/blockchain.cpp\<close>):
    the exact penalised reward, what the guards on the coinbase amount to, the cap on the coins in
    circulation.
  \<^item> \<open>Hard_Fork\<close> (\<open>cryptonote_basic/hardfork.cpp\<close>): the vote window and the fork table; the invariant
    that ties the counts to the window is kept by every operation, and a fork is entered only at its
    height and with its threshold of votes.
  \<^item> \<open>Checkpoints\<close> (\<open>cryptonote_basic/checkpoints.cpp\<close>): no source can replace a checkpoint; the
    queries in terms of the set of checkpoints; the compiled-in table loads.
  \<^item> \<open>Block_Queue\<close> (\<open>cryptonote_protocol/block_queue.cpp\<close>): the queue implements a map from
    start heights to spans, with the effect of each operation on it; what a reservation records and
    which span is delivered next.
  \<^item> \<open>Serialization\<close> (\<open>serialization/\<close>): readers and writers of the binary archive; the contracts
    \<open>codec\<close> and \<open>field\<close> say that a value is read back whatever follows and that what is read is
    well formed, and are interpreted for integers, hashes, vectors, inputs, outputs and
    transactions.
  \<^item> \<open>Transaction\<close> (\<open>cryptonote_basic/cryptonote_basic.h\<close>, \<open>ringct/rctTypes.h\<close>): the transaction
    types with ring signatures, their round trip, and the hashes.
  \<^item> \<open>Tx_Extra\<close> (\<open>cryptonote_basic/tx_extra.h\<close>): the extra field, payment ids, swap addresses.
  \<^item> \<open>Tx_Format\<close> (\<open>cryptonote_basic/cryptonote_format_utils.cpp\<close>): sums of amounts, fees, ring
    offsets, printing and parsing of amounts.

  \<^item> \<open>Floating\<close>: quotients and comparisons of doubles, rounded to even, as the pool uses them for fee
    rates and coinbase thresholds.
  \<^item> \<open>Tx_Pool\<close>, \<open>Pool_Invariant\<close>, \<open>Pool_Template\<close> (\<open>cryptonote_core/tx_pool.cpp\<close>, the pool tables of
    \<open>blockchain_db/lmdb/db_lmdb.cpp\<close>): the pool of waiting transactions; its database table, key image
    table and order by fee agree after every operation; adding and taking out are inverse; a block
    template fits its limit and spends no key image twice.
  \<^item> \<open>Core_Tx\<close> (\<open>cryptonote_core/cryptonote_core.cpp\<close>): the way of a transaction from the network into the
    pool, and the reachable pools.
  \<^item> \<open>Blocks\<close> (\<open>cryptonote_basic/cryptonote_basic.h\<close>, \<open>cryptonote_basic/cryptonote_format_utils.cpp\<close>):
    blocks, merge-mined parent blocks, their round trip, their hashes and the proof of work; a hash
    binds the contents of a block, and the work of one parent coinbase serves one block.
  \<^item> \<open>Chain_View\<close> (the reading functions of \<open>cryptonote_core/blockchain.cpp\<close>): the short history and the
    answers to a synchronizing node, the window of the next difficulty with its cache, the
    difficulty of an alternative chain, the time stamp test.
  \<^item> \<open>Block_Store\<close> (\<open>blockchain_db/blockchain_db.cpp\<close>, \<open>blockchain_db/lmdb/db_lmdb.cpp\<close>): adding and
    popping blocks in all tables of the database; popping restores every table, no stored chain spends
    a key image twice, and exactly the blocks that fit a chain are added to it.
  \<^item> \<open>Blockchain\<close> (the handlers of \<open>cryptonote_core/blockchain.cpp\<close>): the state of a node as one record
    \<open>blockchain\<close> of database, pool, fork votes, difficulty cache and alternative blocks, and the
    handlers \<open>add_new_block\<close>, \<open>handle_block_to_main_chain\<close>, \<open>handle_alternative_block\<close>,
    \<open>switch_to_alternative_blockchain\<close>, \<open>rollback_blockchain_switching\<close> and \<open>check_against_checkpoints\<close> over
    the components above. The relation \<open>node\<close> says which states a running node reaches; in each of
    them the main chain is valid. An accepted block has passed every check and is stored with the
    values that follow from them, its coinbase pays at most the subsidy and the fees, and a refused
    block leaves the database, the votes and the alternative blocks unchanged.

  Parameters. Code outside the model enters as an argument: the version 4 difficulty branch (it
  computes in doubles), the contents of the checkpoint file and the DNS records, key derivation,
  the ChaCha8 stream, the curve check, the slow hashes and the hash of the genesis block (record
  \<open>slow_hashes\<close> and an option), the commitment \<open>zeroCommit\<close>, the ring signature checks of transaction
  inputs, the clock, and what the pool asks the chain (record \<open>chain\<close>). The theorems hold for every
  value of them.

  Not modelled. The elliptic-curve arithmetic and the ring signatures over it, the slow hashes and the
  other hash functions and ciphers they are built from, the Berkeley DB backend, start-up and the
  batched preparation of incoming blocks, the network layer, the miner, accounts and mnemonics, the
  RPC server, the wallets, the legacy serializers and the command-line tools: they are numeric code
  over large tables, threads, input and output, or user interfaces. Logging, timing and the mutexes
  are left out; each operation is one step. Floating-point averages (\<open>get_speed\<close>) are left out.
\<close>

end
